theory Spec2Isabelle
  imports Main "HOL-Library.Word" "HOL-Library.Monad_Syntax"
begin

unbundle bit_operations_syntax

section \<open>Shared types\<close>

text \<open>The C++ \<^verbatim>\<open>int64_t\<close> is a 64-bit word; signed comparisons are \<^const>\<open>word_sle\<close> and
  \<^const>\<open>word_sless\<close>, and \<^verbatim>\<open>>>\<close> on a signed value is \<^const>\<open>signed_drop_bit\<close>.\<close>

type_synonym int64 = "64 word"

text \<open>The exceptions the storage core throws: \<^verbatim>\<open>std::invalid_argument\<close> and
  \<^verbatim>\<open>std::runtime_error\<close>, each with its message.\<close>

datatype error = InvalidArgument string | RuntimeError string

section \<open>Snowflake identifier generator (src/core/snowflake.hpp)\<close>

definition EPOCH :: int64 where "EPOCH = 1704067200000"
definition WORKER_BITS :: nat where "WORKER_BITS = 10"
definition SEQ_BITS :: nat where "SEQ_BITS = 12"
definition MAX_WORKER :: int64 where "MAX_WORKER = push_bit WORKER_BITS 1 - 1"
definition MAX_SEQ :: int64 where "MAX_SEQ = push_bit SEQ_BITS 1 - 1"
definition WORKER_SHIFT :: nat where "WORKER_SHIFT = SEQ_BITS"
definition TS_SHIFT :: nat where "TS_SHIFT = WORKER_BITS + SEQ_BITS"

text \<open>The private members \<^verbatim>\<open>worker_id_\<close>, \<^verbatim>\<open>sequence_\<close> and \<^verbatim>\<open>last_ts_\<close> (a field name
  cannot end in an underscore here, so they carry the prefix \<^verbatim>\<open>sg_\<close>).\<close>

record SnowflakeGenerator =
  sg_worker_id :: int64
  sg_sequence :: int64
  sg_last_ts :: int64

text \<open>The constructor throws for a worker id outside \<^verbatim>\<open>[0, MAX_WORKER]\<close>.\<close>

definition SnowflakeGenerator_new :: "int64 \<Rightarrow> error + SnowflakeGenerator" where
  "SnowflakeGenerator_new wid =
     (if word_sless wid 0 \<or> word_sless MAX_WORKER wid
      then Inl (InvalidArgument ''Worker ID out of range [0, 1023]'')
      else Inr \<lparr>sg_worker_id = wid, sg_sequence = 0, sg_last_ts = - 1\<rparr>)"

text \<open>The wall clock is the list of the values the successive calls of \<^verbatim>\<open>current_ms()\<close>
  return; every call consumes one reading. The busy loop
  \<^verbatim>\<open>while ((ts = current_ms()) <= last_ts_) {}\<close> reads until a reading exceeds \<^verbatim>\<open>last_ts_\<close>;
  \<^const>\<open>None\<close> says that it has not returned within the readings given.\<close>

fun spin :: "int64 \<Rightarrow> int64 list \<Rightarrow> (int64 \<times> int64 list) option" where
  "spin lst [] = None"
| "spin lst (ts # clock) = (if word_sle ts lst then spin lst clock else Some (ts, clock))"

text \<open>The value \<^verbatim>\<open>next()\<close> returns:
  \<^verbatim>\<open>((ts - EPOCH) << TS_SHIFT) | (worker_id_ << WORKER_SHIFT) | sequence_\<close>.\<close>

definition pack :: "int64 \<Rightarrow> int64 \<Rightarrow> int64 \<Rightarrow> int64" where
  "pack ts w s = push_bit TS_SHIFT (ts - EPOCH) OR push_bit WORKER_SHIFT w OR s"

text \<open>\<^verbatim>\<open>next()\<close> on the remaining clock readings and the generator: the identifier, the
  readings left and the updated generator.\<close>

fun snowflake_next ::
  "int64 list \<times> SnowflakeGenerator \<Rightarrow> (int64 \<times> int64 list \<times> SnowflakeGenerator) option" where
  "snowflake_next ([], g) = None"
| "snowflake_next (ts # clock, g) =
     (if ts = sg_last_ts g then
        (let sq = (sg_sequence g + 1) AND MAX_SEQ in
         if sq = 0 then
           (case spin (sg_last_ts g) clock of
              None \<Rightarrow> None
            | Some (ts', clock') \<Rightarrow>
                Some (pack ts' (sg_worker_id g) sq, clock',
                      g\<lparr>sg_sequence := sq, sg_last_ts := ts'\<rparr>))
         else Some (pack ts (sg_worker_id g) sq, clock, g\<lparr>sg_sequence := sq, sg_last_ts := ts\<rparr>))
      else Some (pack ts (sg_worker_id g) 0, clock, g\<lparr>sg_sequence := 0, sg_last_ts := ts\<rparr>))"

text \<open>\<^verbatim>\<open>k\<close> consecutive calls of \<^verbatim>\<open>next()\<close> on one generator, with the identifiers in the
  order they were issued.\<close>

fun generate ::
  "nat \<Rightarrow> int64 list \<times> SnowflakeGenerator
     \<Rightarrow> (int64 list \<times> int64 list \<times> SnowflakeGenerator) option" where
  "generate 0 st = Some ([], st)"
| "generate (Suc k) st =
     (case snowflake_next st of
        None \<Rightarrow> None
      | Some (i, st') \<Rightarrow>
          (case generate k st' of
             None \<Rightarrow> None
           | Some (ids, st'') \<Rightarrow> Some (i # ids, st'')))"

record DecodedID =
  timestamp_ms :: int64
  worker_id :: int64
  sequence :: int64

definition decode :: "int64 \<Rightarrow> DecodedID" where
  "decode i = \<lparr>timestamp_ms = signed_drop_bit TS_SHIFT i + EPOCH,
               worker_id = signed_drop_bit WORKER_SHIFT i AND MAX_WORKER,
               sequence = i AND MAX_SEQ\<rparr>"

text \<open>A timestamp fits the 41-bit field of the format when \<^verbatim>\<open>0 <= ts - EPOCH < 2^41\<close>.\<close>

definition ts_in_range :: "int64 \<Rightarrow> bool" where
  "ts_in_range ts = (word_sle 0 (ts - EPOCH) \<and> word_sless (ts - EPOCH) (2 ^ 41))"

text \<open>A clock that never goes backwards and whose readings all fit the timestamp field.\<close>

definition clock_ok :: "int64 list \<Rightarrow> bool" where
  "clock_ok clock = (sorted_wrt word_sle clock \<and> list_all ts_in_range clock)"

text \<open>What every generator built by the constructor satisfies: the worker id fits 10 bits and
  the sequence number 12 bits.\<close>

definition gen_ok :: "SnowflakeGenerator \<Rightarrow> bool" where
  "gen_ok g = (take_bit 10 (sg_worker_id g) = sg_worker_id g
               \<and> take_bit 12 (sg_sequence g) = sg_sequence g)"

definition sinv :: "int64 list \<Rightarrow> SnowflakeGenerator \<Rightarrow> bool" where
  "sinv clock g = (gen_ok g \<and> clock_ok clock \<and> list_all (word_sle (sg_last_ts g)) clock)"

section \<open>LRU cache (src/core/lru_cache.hpp)\<close>

text \<open>\<^verbatim>\<open>list_\<close> is a \<^verbatim>\<open>std::list\<close> of key/value pairs, most recently used first, and \<^verbatim>\<open>map_\<close> maps
  a key to an iterator into that list. An iterator of a \<^verbatim>\<open>std::list\<close> names one list node and
  stays valid while the node lives, so a node carries an identity (a number, fresh at every
  \<^verbatim>\<open>emplace_front\<close>) and \<^verbatim>\<open>map_\<close> maps a key to the identity of a node. The counters are
  \<^verbatim>\<open>size_t\<close>. \<^verbatim>\<open>evict_cb_\<close> is modelled by whether a callback is registered, and by the list of
  the calls made to it, oldest first.\<close>

type_synonym ('k, 'v) lru_node = "nat \<times> 'k \<times> 'v"

record ('k, 'v) LRUCache =
  capacity :: nat
  lru_list :: "('k, 'v) lru_node list"
  lru_map :: "'k \<rightharpoonup> nat"
  lru_fresh :: nat
  evict_cb :: bool
  evict_calls :: "('k \<times> 'v) list"
  hits :: "64 word"
  misses :: "64 word"

definition LRUCache_new :: "nat \<Rightarrow> error + ('k, 'v) LRUCache" where
  "LRUCache_new cap =
     (if cap = 0 then Inl (InvalidArgument ''LRU capacity must be > 0'')
      else Inr \<lparr>capacity = cap, lru_list = [], lru_map = Map.empty, lru_fresh = 0,
                evict_cb = False, evict_calls = [], hits = 0, misses = 0\<rparr>)"

text \<open>Dereferencing an iterator: the node it names, if that node is in the list.\<close>

definition node_at :: "nat \<Rightarrow> ('k, 'v) lru_node list \<Rightarrow> ('k, 'v) lru_node option" where
  "node_at it xs = find (\<lambda>n. fst n = it) xs"

text \<open>\<^verbatim>\<open>list_.erase(it)\<close>: the list without the node.\<close>

definition list_erase :: "nat \<Rightarrow> ('k, 'v) lru_node list \<Rightarrow> ('k, 'v) lru_node list" where
  "list_erase it xs = filter (\<lambda>n. fst n \<noteq> it) xs"

text \<open>The operations return \<^const>\<open>None\<close> where the C++ has undefined behaviour: an iterator
  whose node is gone, or \<^verbatim>\<open>back()\<close> of an empty list.

  \<^verbatim>\<open>get\<close>: a miss counts and returns nothing; a hit counts, splices the node to the front and
  returns its value.\<close>

definition lru_get ::
  "'k \<Rightarrow> ('k, 'v) LRUCache \<Rightarrow> ('v option \<times> ('k, 'v) LRUCache) option" where
  "lru_get key c =
     (case lru_map c key of
        None \<Rightarrow> Some (None, c\<lparr>misses := misses c + 1\<rparr>)
      | Some it \<Rightarrow>
          (case node_at it (lru_list c) of
             None \<Rightarrow> None
           | Some n \<Rightarrow>
               Some (Some (snd (snd n)),
                     c\<lparr>hits := hits c + 1, lru_list := n # list_erase it (lru_list c)\<rparr>)))"

text \<open>\<^verbatim>\<open>put\<close>: a key in the map has its node's value replaced and the node spliced to the front.
  Otherwise, when the list holds \<^verbatim>\<open>capacity_\<close> nodes, the back node is reported to the callback
  (if one is set), its key erased from the map and the node popped; then a new node is placed
  at the front and the map points to it.\<close>

definition lru_put :: "'k \<Rightarrow> 'v \<Rightarrow> ('k, 'v) LRUCache \<Rightarrow> ('k, 'v) LRUCache option" where
  "lru_put key val c =
     (case lru_map c key of
        Some it \<Rightarrow>
          (case node_at it (lru_list c) of
             None \<Rightarrow> None
           | Some n \<Rightarrow> Some (c\<lparr>lru_list := (fst n, fst (snd n), val) # list_erase it (lru_list c)\<rparr>))
      | None \<Rightarrow>
          (if length (lru_list c) = capacity c then
             (if lru_list c = [] then None
              else
                (let lru = last (lru_list c);
                     c1 = c\<lparr>evict_calls :=
                              (if evict_cb c then evict_calls c @ [snd lru] else evict_calls c),
                            lru_map := (lru_map c)(fst (snd lru) := None),
                            lru_list := butlast (lru_list c)\<rparr>
                 in Some (c1\<lparr>lru_list := (lru_fresh c1, key, val) # lru_list c1,
                              lru_map := (lru_map c1)(key \<mapsto> lru_fresh c1),
                              lru_fresh := Suc (lru_fresh c1)\<rparr>)))
           else Some (c\<lparr>lru_list := (lru_fresh c, key, val) # lru_list c,
                         lru_map := (lru_map c)(key \<mapsto> lru_fresh c),
                         lru_fresh := Suc (lru_fresh c)\<rparr>)))"

text \<open>\<^verbatim>\<open>evict\<close>: point invalidation, without the callback.\<close>

definition lru_evict :: "'k \<Rightarrow> ('k, 'v) LRUCache \<Rightarrow> (bool \<times> ('k, 'v) LRUCache) option" where
  "lru_evict key c =
     (case lru_map c key of
        None \<Rightarrow> Some (False, c)
      | Some it \<Rightarrow>
          (case node_at it (lru_list c) of
             None \<Rightarrow> None
           | Some n \<Rightarrow>
               Some (True, c\<lparr>lru_list := list_erase it (lru_list c),
                              lru_map := (lru_map c)(key := None)\<rparr>)))"

definition lru_contains :: "'k \<Rightarrow> ('k, 'v) LRUCache \<Rightarrow> bool" where
  "lru_contains key c = (lru_map c key \<noteq> None)"

definition lru_size :: "('k, 'v) LRUCache \<Rightarrow> nat" where
  "lru_size c = length (lru_list c)"

definition set_evict_callback :: "('k, 'v) LRUCache \<Rightarrow> ('k, 'v) LRUCache" where
  "set_evict_callback c = c\<lparr>evict_cb := True\<rparr>"

definition lru_clear :: "('k, 'v) LRUCache \<Rightarrow> ('k, 'v) LRUCache" where
  "lru_clear c = c\<lparr>lru_list := [], lru_map := Map.empty\<rparr>"

text \<open>The keys and the entries of the cache, most recently used first.\<close>

definition lru_keys :: "('k, 'v) LRUCache \<Rightarrow> 'k list" where
  "lru_keys c = map (\<lambda>n. fst (snd n)) (lru_list c)"

definition lru_entries :: "('k, 'v) LRUCache \<Rightarrow> ('k \<times> 'v) list" where
  "lru_entries c = map snd (lru_list c)"

text \<open>A sequence of client calls on one cache.\<close>

datatype ('k, 'v) lru_op = Get 'k | Put 'k 'v | Evict 'k

fun lru_apply :: "('k, 'v) lru_op \<Rightarrow> ('k, 'v) LRUCache \<Rightarrow> ('k, 'v) LRUCache option" where
  "lru_apply (Get k) c = map_option snd (lru_get k c)"
| "lru_apply (Put k v) c = lru_put k v c"
| "lru_apply (Evict k) c = map_option snd (lru_evict k c)"

fun lru_run :: "('k, 'v) lru_op list \<Rightarrow> ('k, 'v) LRUCache \<Rightarrow> ('k, 'v) LRUCache option" where
  "lru_run [] c = Some c"
| "lru_run (x # xs) c = (case lru_apply x c of None \<Rightarrow> None | Some c' \<Rightarrow> lru_run xs c')"

text \<open>When a key was last touched by a \<^verbatim>\<open>get\<close> or a \<^verbatim>\<open>put\<close>: the calls are numbered from 1 in
  the order they are made, and 0 stands for never.\<close>

definition touches :: "('k, 'v) lru_op \<Rightarrow> 'k \<Rightarrow> bool" where
  "touches x k = (case x of Get k' \<Rightarrow> k' = k | Put k' v \<Rightarrow> k' = k | Evict k' \<Rightarrow> False)"

fun touch_from :: "nat \<Rightarrow> ('k \<Rightarrow> nat) \<Rightarrow> ('k, 'v) lru_op list \<Rightarrow> 'k \<Rightarrow> nat" where
  "touch_from n f [] k = f k"
| "touch_from n f (x # xs) k = touch_from (Suc n) (\<lambda>j. if touches x j then Suc n else f j) xs k"

definition touch_time :: "('k, 'v) lru_op list \<Rightarrow> 'k \<Rightarrow> nat" where
  "touch_time xs k = touch_from 0 (\<lambda>j. 0) xs k"

text \<open>The invariant of the list and the map: node identities and keys are distinct, the map
  holds exactly the keys of the list with the identities of their nodes, identities are below the
  next fresh one, and the list is no longer than the capacity.\<close>

definition lru_inv :: "('k, 'v) LRUCache \<Rightarrow> bool" where
  "lru_inv c =
     (distinct (map fst (lru_list c)) \<and> distinct (lru_keys c)
      \<and> list_all (\<lambda>n. lru_map c (fst (snd n)) = Some (fst n) \<and> fst n < lru_fresh c) (lru_list c)
      \<and> dom (lru_map c) = set (lru_keys c)
      \<and> length (lru_list c) \<le> capacity c \<and> 0 < capacity c)"

text \<open>The entries without those of one key.\<close>

definition del_key :: "'k \<Rightarrow> ('k \<times> 'v) list \<Rightarrow> ('k \<times> 'v) list" where
  "del_key k es = filter (\<lambda>e. fst e \<noteq> k) es"

section \<open>B+ tree (src/core/bplus_tree.hpp)\<close>

text \<open>A \<^verbatim>\<open>Node\<close> lives on the heap and is reached through pointers: children pointers from
  its parent and \<^verbatim>\<open>next_leaf\<close> pointers along the leaf chain. The heap is a map from addresses
  to nodes, \<^verbatim>\<open>new Node\<close> takes the next unused address and \<^verbatim>\<open>nullptr\<close> is \<^const>\<open>None\<close>.

  Of the arrays of a node only the first \<^verbatim>\<open>num_keys\<close> keys (and values, in a leaf) and the
  first \<^verbatim>\<open>num_keys + 1\<close> children (in an internal node) are ever read, so a node is modelled
  by these live parts: a leaf (\<^verbatim>\<open>is_leaf\<close>) by the list of its key/value pairs and its
  \<^verbatim>\<open>next_leaf\<close>, an internal node by its keys and its children. \<^verbatim>\<open>num_keys\<close> is the length
  of the list. The template parameter \<^verbatim>\<open>Order\<close> is the first argument of the operations that
  depend on it.\<close>

type_synonym addr = nat

datatype ('k, 'v) node =
    LeafN "('k \<times> 'v) list" "addr option"
  | InternalN "'k list" "addr list"

type_synonym ('k, 'v) heap = "addr \<rightharpoonup> ('k, 'v) node"

text \<open>\<^verbatim>\<open>root_\<close>, \<^verbatim>\<open>size_\<close>, the heap and the next unused address. \<^verbatim>\<open>size_\<close> never exceeds the
  number of entries held in allocated nodes, so \<^verbatim>\<open>size_++\<close> does not reach the wrap of
  \<^verbatim>\<open>size_t\<close> and is the successor here.\<close>

record ('k, 'v) BPlusTree =
  heap :: "('k, 'v) heap"
  root :: addr
  tsize :: nat
  next_addr :: addr

text \<open>The constructor allocates an empty leaf as the root. It does not look at \<^verbatim>\<open>Order\<close>.\<close>

definition BPlusTree_new :: "nat \<Rightarrow> error + ('k, 'v) BPlusTree" where
  "BPlusTree_new ord = Inr \<lparr>heap = [0 \<mapsto> LeafN [] None], root = 0, tsize = 0, next_addr = 1\<rparr>"

fun upper_bound_idx :: "('k::linorder) list \<Rightarrow> 'k \<Rightarrow> nat" where
  "upper_bound_idx [] key = 0"
| "upper_bound_idx (x # xs) key = (if key \<ge> x then Suc (upper_bound_idx xs key) else 0)"

fun lower_bound_idx :: "('k::linorder) list \<Rightarrow> 'k \<Rightarrow> nat" where
  "lower_bound_idx [] key = 0"
| "lower_bound_idx (x # xs) key = (if key > x then Suc (lower_bound_idx xs key) else 0)"

text \<open>The public operations carry the prefix \<^verbatim>\<open>tree_\<close>: \<^verbatim>\<open>insert\<close> and \<^verbatim>\<open>range\<close> are
  names of set operations here.

  The descent loops of \<^verbatim>\<open>search\<close>, \<^verbatim>\<open>update\<close> (upper bound) and \<^verbatim>\<open>range\<close> (lower bound): the
  address of the leaf reached. \<^const>\<open>None\<close> stands for a loop that does not end or a pointer
  that names no node.\<close>

partial_function (option) descend_ub ::
  "(('k::linorder), 'v) heap \<Rightarrow> addr \<Rightarrow> 'k \<Rightarrow> addr option" where
  "descend_ub h a key =
     (case h a of
        None \<Rightarrow> None
      | Some (LeafN kvs nxt) \<Rightarrow> Some a
      | Some (InternalN ks cs) \<Rightarrow>
          (let i = upper_bound_idx ks key
           in if i < length cs then descend_ub h (cs ! i) key else None))"

partial_function (option) descend_lb ::
  "(('k::linorder), 'v) heap \<Rightarrow> addr \<Rightarrow> 'k \<Rightarrow> addr option" where
  "descend_lb h a key =
     (case h a of
        None \<Rightarrow> None
      | Some (LeafN kvs nxt) \<Rightarrow> Some a
      | Some (InternalN ks cs) \<Rightarrow>
          (let i = lower_bound_idx ks key
           in if i < length cs then descend_lb h (cs ! i) key else None))"

text \<open>The scan of a leaf for an exact key: the value of the first entry with that key.\<close>

fun leaf_lookup :: "('k \<times> 'v) list \<Rightarrow> 'k \<Rightarrow> 'v option" where
  "leaf_lookup [] key = None"
| "leaf_lookup ((k, v) # kvs) key = (if k = key then Some v else leaf_lookup kvs key)"

definition tree_search :: "(('k::linorder), 'v) BPlusTree \<Rightarrow> 'k \<Rightarrow> 'v option option" where
  "tree_search t key =
     (case descend_ub (heap t) (root t) key of
        None \<Rightarrow> None
      | Some a \<Rightarrow>
          (case heap t a of
             Some (LeafN kvs nxt) \<Rightarrow> Some (leaf_lookup kvs key)
           | _ \<Rightarrow> None))"

text \<open>The inner loop of \<^verbatim>\<open>range\<close> over one leaf: the result so far, and whether a key
  above \<^verbatim>\<open>hi\<close> made the function return.\<close>

fun range_leaf ::
  "(('k::linorder) \<times> 'v) list \<Rightarrow> 'k \<Rightarrow> 'k \<Rightarrow> ('k \<times> 'v) list \<Rightarrow> bool \<times> ('k \<times> 'v) list" where
  "range_leaf [] lo hi acc = (False, acc)"
| "range_leaf ((k, v) # kvs) lo hi acc =
     (if k > hi then (True, acc)
      else if k \<ge> lo then range_leaf kvs lo hi (acc @ [(k, v)])
      else range_leaf kvs lo hi acc)"

partial_function (option) range_walk ::
  "(('k::linorder), 'v) heap \<Rightarrow> addr option \<Rightarrow> 'k \<Rightarrow> 'k \<Rightarrow> ('k \<times> 'v) list
     \<Rightarrow> ('k \<times> 'v) list option" where
  "range_walk h p lo hi acc =
     (case p of
        None \<Rightarrow> Some acc
      | Some a \<Rightarrow>
          (case h a of
             Some (LeafN kvs nxt) \<Rightarrow>
               (let r = range_leaf kvs lo hi acc
                in if fst r then Some (snd r) else range_walk h nxt lo hi (snd r))
           | _ \<Rightarrow> None))"

definition tree_range ::
  "(('k::linorder), 'v) BPlusTree \<Rightarrow> 'k \<Rightarrow> 'k \<Rightarrow> ('k \<times> 'v) list option" where
  "tree_range t lo hi =
     (case descend_lb (heap t) (root t) lo of
        None \<Rightarrow> None
      | Some a \<Rightarrow> range_walk (heap t) (Some a) lo hi [])"

text \<open>\<^verbatim>\<open>update\<close>: the value of the first entry with the key is replaced in place.\<close>

fun leaf_update :: "('k \<times> 'v) list \<Rightarrow> 'k \<Rightarrow> 'v \<Rightarrow> ('k \<times> 'v) list option" where
  "leaf_update [] key val = None"
| "leaf_update ((k, v) # kvs) key val =
     (if k = key then Some ((k, val) # kvs)
      else map_option (\<lambda>r. (k, v) # r) (leaf_update kvs key val))"

definition tree_update ::
  "(('k::linorder), 'v) BPlusTree \<Rightarrow> 'k \<Rightarrow> 'v \<Rightarrow> (bool \<times> ('k, 'v) BPlusTree) option" where
  "tree_update t key val =
     (case descend_ub (heap t) (root t) key of
        None \<Rightarrow> None
      | Some a \<Rightarrow>
          (case heap t a of
             Some (LeafN kvs nxt) \<Rightarrow>
               (case leaf_update kvs key val of
                  None \<Rightarrow> Some (False, t)
                | Some kvs' \<Rightarrow> Some (True, t\<lparr>heap := (heap t)(a \<mapsto> LeafN kvs' nxt)\<rparr>))
           | _ \<Rightarrow> None))"

text \<open>\<^verbatim>\<open>split_leaf\<close> and \<^verbatim>\<open>split_internal\<close>, on the node at \<^verbatim>\<open>a\<close> with the given live parts
  and the unused address \<^verbatim>\<open>n\<close> for the sibling: the heap, the next unused address, and the
  \<^verbatim>\<open>InsertResult\<close> (the sibling and the promoted key).\<close>

definition split_leaf ::
  "nat \<Rightarrow> ('k, 'v) heap \<Rightarrow> addr \<Rightarrow> addr \<Rightarrow> ('k \<times> 'v) list \<Rightarrow> addr option
     \<Rightarrow> (('k, 'v) heap \<times> addr) \<times> (addr \<times> 'k) option" where
  "split_leaf ord h n a kvs nxt =
     (let mid = ord div 2;
          h1 = h(n \<mapsto> LeafN (drop mid kvs) nxt);
          h2 = h1(a \<mapsto> LeafN (take mid kvs) (Some n))
      in ((h2, Suc n), Some (n, fst (hd (drop mid kvs)))))"

definition split_internal ::
  "('k, 'v) heap \<Rightarrow> addr \<Rightarrow> addr \<Rightarrow> 'k list \<Rightarrow> addr list
     \<Rightarrow> (('k, 'v) heap \<times> addr) \<times> (addr \<times> 'k) option" where
  "split_internal h n a ks cs =
     (let mid = length ks div 2;
          pkey = ks ! mid;
          h1 = h(n \<mapsto> InternalN (drop (Suc mid) ks) (drop (Suc mid) cs));
          h2 = h1(a \<mapsto> InternalN (take mid ks) (take (Suc mid) cs))
      in ((h2, Suc n), Some (n, pkey)))"

text \<open>\<^verbatim>\<open>insert_recursive\<close>. The result \<^verbatim>\<open>{nullptr, {}, false}\<close> is \<^const>\<open>None\<close> in the second
  component. After the recursive call the node is read again from the heap, as the C++
  reads its fields through the pointer.\<close>

partial_function (option) insert_recursive ::
  "nat \<Rightarrow> (('k::linorder), 'v) heap \<times> addr \<Rightarrow> addr \<Rightarrow> 'k \<Rightarrow> 'v
     \<Rightarrow> ((('k, 'v) heap \<times> addr) \<times> (addr \<times> 'k) option) option" where
  "insert_recursive ord hn a key val =
     (case fst hn a of
        None \<Rightarrow> None
      | Some (LeafN kvs nxt) \<Rightarrow>
          (let pos = lower_bound_idx (map fst kvs) key;
               kvs' = take pos kvs @ (key, val) # drop pos kvs
           in if length kvs' < ord
              then Some (((fst hn)(a \<mapsto> LeafN kvs' nxt), snd hn), None)
              else Some (split_leaf ord (fst hn) (snd hn) a kvs' nxt))
      | Some (InternalN ks cs) \<Rightarrow>
          (let i = upper_bound_idx ks key
           in if i < length cs then
                Option.bind (insert_recursive ord hn (cs ! i) key val)
                  (\<lambda>r. case snd r of
                     None \<Rightarrow> Some (fst r, None)
                   | Some (new_child, pkey) \<Rightarrow>
                       (case fst (fst r) a of
                          Some (InternalN ks1 cs1) \<Rightarrow>
                            (let ks' = take i ks1 @ pkey # drop i ks1;
                                 cs' = take (Suc i) cs1 @ new_child # drop (Suc i) cs1
                             in if length ks' < ord
                                then Some (((fst (fst r))(a \<mapsto> InternalN ks' cs'), snd (fst r)),
                                           None)
                                else Some (split_internal (fst (fst r)) (snd (fst r)) a ks' cs'))
                        | _ \<Rightarrow> None))
              else None))"

definition tree_insert ::
  "nat \<Rightarrow> (('k::linorder), 'v) BPlusTree \<Rightarrow> 'k \<Rightarrow> 'v \<Rightarrow> ('k, 'v) BPlusTree option" where
  "tree_insert ord t key val =
     (case insert_recursive ord (heap t, next_addr t) (root t) key val of
        None \<Rightarrow> None
      | Some ((h, n), None) \<Rightarrow> Some (t\<lparr>heap := h, next_addr := n, tsize := Suc (tsize t)\<rparr>)
      | Some ((h, n), Some (new_child, promoted_key)) \<Rightarrow>
          Some (t\<lparr>heap := h(n \<mapsto> InternalN [promoted_key] [root t, new_child]),
                  root := n, next_addr := Suc n, tsize := Suc (tsize t)\<rparr>))"

text \<open>\<^verbatim>\<open>remove_recursive\<close>: the first entry with the key is taken out of the leaf reached; no
  node is merged or rebalanced.\<close>

fun leaf_remove :: "('k \<times> 'v) list \<Rightarrow> 'k \<Rightarrow> ('k \<times> 'v) list option" where
  "leaf_remove [] key = None"
| "leaf_remove ((k, v) # kvs) key =
     (if k = key then Some kvs else map_option (\<lambda>r. (k, v) # r) (leaf_remove kvs key))"

partial_function (option) remove_recursive ::
  "(('k::linorder), 'v) heap \<Rightarrow> addr \<Rightarrow> 'k \<Rightarrow> (('k, 'v) heap \<times> bool) option" where
  "remove_recursive h a key =
     (case h a of
        None \<Rightarrow> None
      | Some (LeafN kvs nxt) \<Rightarrow>
          (case leaf_remove kvs key of
             None \<Rightarrow> Some (h, False)
           | Some kvs' \<Rightarrow> Some (h(a \<mapsto> LeafN kvs' nxt), True))
      | Some (InternalN ks cs) \<Rightarrow>
          (let i = upper_bound_idx ks key
           in if i < length cs then remove_recursive h (cs ! i) key else None))"

text \<open>\<^verbatim>\<open>remove\<close>: on success the size goes down by one (\<^verbatim>\<open>size_\<close> is a 64-bit \<^verbatim>\<open>size_t\<close>: from
  0 it wraps), and a root that is an internal node without keys is replaced by its first
  child and deleted.\<close>

definition tree_remove ::
  "(('k::linorder), 'v) BPlusTree \<Rightarrow> 'k \<Rightarrow> (bool \<times> ('k, 'v) BPlusTree) option" where
  "tree_remove t key =
     (case remove_recursive (heap t) (root t) key of
        None \<Rightarrow> None
      | Some (h, False) \<Rightarrow> Some (False, t\<lparr>heap := h\<rparr>)
      | Some (h, True) \<Rightarrow>
          (let t1 = t\<lparr>heap := h, tsize := (if tsize t = 0 then 2 ^ 64 - 1 else tsize t - 1)\<rparr>
           in case h (root t) of
                None \<Rightarrow> None
              | Some (InternalN [] cs) \<Rightarrow>
                  (case cs of
                     [] \<Rightarrow> None
                   | c # _ \<Rightarrow> Some (True, t1\<lparr>root := c, heap := h(root t := None)\<rparr>))
              | Some _ \<Rightarrow> Some (True, t1)))"

text \<open>\<^verbatim>\<open>for_each\<close>: the leftmost descent, then the walk along the leaf chain; the result is
  the list of the pairs the callback is called with, in order.\<close>

partial_function (option) descend_left :: "('k, 'v) heap \<Rightarrow> addr \<Rightarrow> addr option" where
  "descend_left h a =
     (case h a of
        None \<Rightarrow> None
      | Some (LeafN kvs nxt) \<Rightarrow> Some a
      | Some (InternalN ks cs) \<Rightarrow> (case cs of [] \<Rightarrow> None | c # _ \<Rightarrow> descend_left h c))"

partial_function (option) chain_walk ::
  "('k, 'v) heap \<Rightarrow> addr option \<Rightarrow> ('k \<times> 'v) list \<Rightarrow> ('k \<times> 'v) list option" where
  "chain_walk h p acc =
     (case p of
        None \<Rightarrow> Some acc
      | Some a \<Rightarrow>
          (case h a of
             Some (LeafN kvs nxt) \<Rightarrow> chain_walk h nxt (acc @ kvs)
           | _ \<Rightarrow> None))"

definition tree_for_each :: "('k, 'v) BPlusTree \<Rightarrow> ('k \<times> 'v) list option" where
  "tree_for_each t =
     (case descend_left (heap t) (root t) of
        None \<Rightarrow> None
      | Some a \<Rightarrow> chain_walk (heap t) (Some a) [])"

text \<open>The recursive equations of the loops are the code equations.\<close>

declare descend_ub.simps [code] descend_lb.simps [code] range_walk.simps [code]
  insert_recursive.simps [code] remove_recursive.simps [code] descend_left.simps [code]
  chain_walk.simps [code]

text \<open>A sequence of insertions into one tree.\<close>

fun insert_all ::
  "nat \<Rightarrow> (('k::linorder) \<times> 'v) list \<Rightarrow> ('k, 'v) BPlusTree \<Rightarrow> ('k, 'v) BPlusTree option" where
  "insert_all ord [] t = Some t"
| "insert_all ord ((k, v) # kvs) t =
     (case tree_insert ord t k v of None \<Rightarrow> None | Some t' \<Rightarrow> insert_all ord kvs t')"

text \<open>Sequences of calls of \<^verbatim>\<open>insert\<close>, \<^verbatim>\<open>update\<close> and \<^verbatim>\<open>remove\<close> on one tree. \<^const>\<open>None\<close>
  is a call that does not return or leaves defined behaviour.\<close>

datatype ('k, 'v) tree_op = Insert 'k 'v | Update 'k 'v | Remove 'k

fun op_key :: "('k, 'v) tree_op \<Rightarrow> 'k" where
  "op_key (Insert k v) = k"
| "op_key (Update k v) = k"
| "op_key (Remove k) = k"

fun tree_apply ::
  "nat \<Rightarrow> (('k::linorder), 'v) BPlusTree \<Rightarrow> ('k, 'v) tree_op \<Rightarrow> ('k, 'v) BPlusTree option" where
  "tree_apply ord t (Insert k v) = tree_insert ord t k v"
| "tree_apply ord t (Update k v) = map_option snd (tree_update t k v)"
| "tree_apply ord t (Remove k) = map_option snd (tree_remove t k)"

fun tree_run ::
  "nat \<Rightarrow> (('k::linorder), 'v) tree_op list \<Rightarrow> ('k, 'v) BPlusTree \<Rightarrow> ('k, 'v) BPlusTree option" where
  "tree_run ord [] t = Some t"
| "tree_run ord (op # ops) t =
     (case tree_apply ord t op of None \<Rightarrow> None | Some t' \<Rightarrow> tree_run ord ops t')"

text \<open>What the claims compare the tree with: the pairs a sequence of calls leaves in the
  tree, as a map from the keys to the values, from the map before the sequence; and whether
  every \<^verbatim>\<open>insert\<close> of the sequence is of a key that is not in the tree at that time.\<close>

fun contents_apply :: "('k \<rightharpoonup> 'v) \<Rightarrow> ('k, 'v) tree_op \<Rightarrow> ('k \<rightharpoonup> 'v)" where
  "contents_apply m (Insert k v) = m(k \<mapsto> v)"
| "contents_apply m (Update k v) = (if m k = None then m else m(k \<mapsto> v))"
| "contents_apply m (Remove k) = m(k := None)"

fun contents_after :: "('k, 'v) tree_op list \<Rightarrow> ('k \<rightharpoonup> 'v) \<Rightarrow> ('k \<rightharpoonup> 'v)" where
  "contents_after [] m = m"
| "contents_after (op # ops) m = contents_after ops (contents_apply m op)"

fun fresh_inserts :: "('k, 'v) tree_op list \<Rightarrow> ('k \<rightharpoonup> 'v) \<Rightarrow> bool" where
  "fresh_inserts [] m = True"
| "fresh_inserts (Insert k v # ops) m = (m k = None \<and> fresh_inserts ops (m(k \<mapsto> v)))"
| "fresh_inserts (op # ops) m = fresh_inserts ops (contents_apply m op)"
section \<open>The tree a heap holds\<close>

text \<open>The nodes reachable from a root, unfolded into a tree: every node with its address, a
  leaf with its pairs and its \<^verbatim>\<open>next_leaf\<close>, an internal node with its keys and the trees of
  its children. The operations on the heap are proved to act on this tree as the functions
  below do, which follow the same algorithm on the unfolded tree.\<close>

datatype ('k, 'v) atree =
    ALeaf addr "('k \<times> 'v) list" "addr option"
  | ANode addr "'k list" "('k, 'v) atree list"

type_synonym ('k, 'v) aleaf = "addr \<times> ('k \<times> 'v) list \<times> addr option"

fun raddr :: "('k, 'v) atree \<Rightarrow> addr" where
  "raddr (ALeaf a kvs nxt) = a"
| "raddr (ANode a ks ts) = a"

fun addrs :: "('k, 'v) atree \<Rightarrow> addr list" where
  "addrs (ALeaf a kvs nxt) = [a]"
| "addrs (ANode a ks ts) = a # concat (map addrs ts)"

text \<open>The heap holds the tree: every node of the tree is at its address.\<close>

fun repr :: "('k, 'v) heap \<Rightarrow> ('k, 'v) atree \<Rightarrow> bool" where
  "repr h (ALeaf a kvs nxt) = (h a = Some (LeafN kvs nxt))"
| "repr h (ANode a ks ts) = (h a = Some (InternalN ks (map raddr ts)) \<and> list_all (repr h) ts)"

text \<open>The leaves from left to right, and the pairs they hold.\<close>

fun leaves :: "('k, 'v) atree \<Rightarrow> ('k, 'v) aleaf list" where
  "leaves (ALeaf a kvs nxt) = [(a, kvs, nxt)]"
| "leaves (ANode a ks ts) = concat (map leaves ts)"

definition leaf_pairs :: "('k, 'v) aleaf list \<Rightarrow> ('k \<times> 'v) list" where
  "leaf_pairs ls = concat (map (\<lambda>l. fst (snd l)) ls)"

definition pairs :: "('k, 'v) atree \<Rightarrow> ('k \<times> 'v) list" where
  "pairs t = leaf_pairs (leaves t)"

text \<open>The leaf chain: every leaf points to the next one, and the last one to \<^verbatim>\<open>e\<close>.\<close>

fun linked :: "('k, 'v) aleaf list \<Rightarrow> addr option \<Rightarrow> bool" where
  "linked [] e = True"
| "linked [l] e = (snd (snd l) = e)"
| "linked (l # l' # ls) e = (snd (snd l) = Some (fst l') \<and> linked (l' # ls) e)"

text \<open>The addresses and \<^verbatim>\<open>next_leaf\<close> pointers of the leaves.\<close>

definition links :: "('k, 'v) aleaf list \<Rightarrow> (addr \<times> addr option) list" where
  "links ls = map (\<lambda>l. (fst l, snd (snd l))) ls"

text \<open>The shape: a node holds fewer than \<^verbatim>\<open>Order\<close> keys, so the arrays of \<^verbatim>\<open>Order\<close> keys
  and \<^verbatim>\<open>Order + 1\<close> children have room for the entry an insertion adds before it splits; an
  internal node has a key, and one child more than keys.\<close>

fun shape :: "nat \<Rightarrow> ('k, 'v) atree \<Rightarrow> bool" where
  "shape ord (ALeaf a kvs nxt) = (length kvs < ord)"
| "shape ord (ANode a ks ts) =
     (ks \<noteq> [] \<and> length ks < ord \<and> length ts = Suc (length ks) \<and> list_all (shape ord) ts)"

text \<open>The order of the keys, between an optional lower bound (inclusive) and an optional
  upper bound (exclusive): the keys of a leaf are strictly increasing and within the bounds;
  a key of an internal node lies within the bounds (the upper one included), bounds the child
  to its left from above and the children to its right from below.\<close>

definition lower_ok :: "('k::linorder) option \<Rightarrow> 'k \<Rightarrow> bool" where
  "lower_ok lo x = (case lo of None \<Rightarrow> True | Some l \<Rightarrow> l \<le> x)"

definition upper_ok :: "('k::linorder) \<Rightarrow> 'k option \<Rightarrow> bool" where
  "upper_ok x hi = (case hi of None \<Rightarrow> True | Some u \<Rightarrow> x < u)"

definition upper_le :: "('k::linorder) \<Rightarrow> 'k option \<Rightarrow> bool" where
  "upper_le x hi = (case hi of None \<Rightarrow> True | Some u \<Rightarrow> x \<le> u)"

fun ordered :: "('k::linorder) option \<Rightarrow> 'k option \<Rightarrow> ('k, 'v) atree \<Rightarrow> bool"
  and ordered_list :: "'k option \<Rightarrow> 'k option \<Rightarrow> 'k list \<Rightarrow> ('k, 'v) atree list \<Rightarrow> bool" where
  "ordered lo hi (ALeaf a kvs nxt) =
     (sorted_wrt (<) (map fst kvs) \<and> list_all (\<lambda>k. lower_ok lo k \<and> upper_ok k hi) (map fst kvs))"
| "ordered lo hi (ANode a ks ts) = ordered_list lo hi ks ts"
| "ordered_list lo hi [] ts = (case ts of [t] \<Rightarrow> ordered lo hi t | _ \<Rightarrow> False)"
| "ordered_list lo hi (k # ks) ts =
     (case ts of
        [] \<Rightarrow> False
      | t # ts' \<Rightarrow> lower_ok lo k \<and> upper_le k hi \<and> ordered lo (Some k) t
                    \<and> ordered_list (Some k) hi ks ts')"

text \<open>The descent of \<^verbatim>\<open>search\<close>, \<^verbatim>\<open>update\<close> and \<^verbatim>\<open>remove\<close> on the tree: the leaf reached.\<close>

fun adescend_ub :: "(('k::linorder), 'v) atree \<Rightarrow> 'k \<Rightarrow> ('k, 'v) aleaf"
  and adescend_ub_list :: "'k list \<Rightarrow> ('k, 'v) atree list \<Rightarrow> 'k \<Rightarrow> ('k, 'v) aleaf" where
  "adescend_ub (ALeaf a kvs nxt) key = (a, kvs, nxt)"
| "adescend_ub (ANode a ks ts) key = adescend_ub_list ks ts key"
| "adescend_ub_list ks [] key = (0, [], None)"
| "adescend_ub_list [] (t # ts) key = adescend_ub t key"
| "adescend_ub_list (k # ks) (t # ts) key =
     (if key \<ge> k then adescend_ub_list ks ts key else adescend_ub t key)"

text \<open>The descent of \<^verbatim>\<open>range\<close>: the leaves from the one reached to the last.\<close>

fun adescend_lb :: "(('k::linorder), 'v) atree \<Rightarrow> 'k \<Rightarrow> ('k, 'v) aleaf list"
  and adescend_lb_list :: "'k list \<Rightarrow> ('k, 'v) atree list \<Rightarrow> 'k \<Rightarrow> ('k, 'v) aleaf list" where
  "adescend_lb (ALeaf a kvs nxt) key = [(a, kvs, nxt)]"
| "adescend_lb (ANode a ks ts) key = adescend_lb_list ks ts key"
| "adescend_lb_list ks [] key = []"
| "adescend_lb_list [] (t # ts) key = adescend_lb t key @ concat (map leaves ts)"
| "adescend_lb_list (k # ks) (t # ts) key =
     (if key > k then adescend_lb_list ks ts key
      else adescend_lb t key @ concat (map leaves ts))"

text \<open>The tree after the pairs of the leaf reached by the upper-bound descent are replaced.\<close>

fun areplace :: "(('k::linorder), 'v) atree \<Rightarrow> 'k \<Rightarrow> ('k \<times> 'v) list \<Rightarrow> ('k, 'v) atree"
  and areplace_list ::
    "'k list \<Rightarrow> ('k, 'v) atree list \<Rightarrow> 'k \<Rightarrow> ('k \<times> 'v) list \<Rightarrow> ('k, 'v) atree list" where
  "areplace (ALeaf a kvs nxt) key kvs' = ALeaf a kvs' nxt"
| "areplace (ANode a ks ts) key kvs' = ANode a ks (areplace_list ks ts key kvs')"
| "areplace_list ks [] key kvs' = []"
| "areplace_list [] (t # ts) key kvs' = areplace t key kvs' # ts"
| "areplace_list (k # ks) (t # ts) key kvs' =
     (if key \<ge> k then t # areplace_list ks ts key kvs' else areplace t key kvs' # ts)"

text \<open>\<^verbatim>\<open>insert_recursive\<close> on the tree, with the next unused address: the tree in place of
  the old one, the next unused address, and the promoted key with the tree of the new sibling
  if the node was split. For the children of an internal node: the keys and the children with
  the promoted key and the sibling in place, the next unused address, and whether the child
  was split.\<close>

fun ains ::
    "nat \<Rightarrow> addr \<Rightarrow> (('k::linorder), 'v) atree \<Rightarrow> 'k \<Rightarrow> 'v
      \<Rightarrow> ('k, 'v) atree \<times> addr \<times> ('k \<times> ('k, 'v) atree) option"
  and ains_list ::
    "nat \<Rightarrow> addr \<Rightarrow> 'k list \<Rightarrow> ('k, 'v) atree list \<Rightarrow> 'k \<Rightarrow> 'v
      \<Rightarrow> ('k list \<times> ('k, 'v) atree list) \<times> addr \<times> bool" where
  "ains ord n (ALeaf a kvs nxt) key val =
     (let pos = lower_bound_idx (map fst kvs) key;
          kvs' = take pos kvs @ (key, val) # drop pos kvs
      in if length kvs' < ord then (ALeaf a kvs' nxt, n, None)
         else (ALeaf a (take (ord div 2) kvs') (Some n), Suc n,
               Some (fst (hd (drop (ord div 2) kvs')), ALeaf n (drop (ord div 2) kvs') nxt)))"
| "ains ord n (ANode a ks ts) key val =
     (case ains_list ord n ks ts key val of
        ((ks', ts'), n', False) \<Rightarrow> (ANode a ks' ts', n', None)
      | ((ks', ts'), n', True) \<Rightarrow>
          (if length ks' < ord then (ANode a ks' ts', n', None)
           else (ANode a (take (length ks' div 2) ks') (take (Suc (length ks' div 2)) ts'),
                 Suc n',
                 Some (ks' ! (length ks' div 2),
                       ANode n' (drop (Suc (length ks' div 2)) ks')
                         (drop (Suc (length ks' div 2)) ts')))))"
| "ains_list ord n ks [] key val = ((ks, []), n, False)"
| "ains_list ord n [] (t # ts) key val =
     (case ains ord n t key val of
        (t', n', None) \<Rightarrow> (([], t' # ts), n', False)
      | (t', n', Some (q, r)) \<Rightarrow> (([q], t' # r # ts), n', True))"
| "ains_list ord n (k # ks) (t # ts) key val =
     (if key \<ge> k then
        (case ains_list ord n ks ts key val of
           ((ks', ts'), n', b) \<Rightarrow> ((k # ks', t # ts'), n', b))
      else
        (case ains ord n t key val of
           (t', n', None) \<Rightarrow> ((k # ks, t' # ts), n', False)
         | (t', n', Some (q, r)) \<Rightarrow> ((q # k # ks, t' # r # ts), n', True)))"

text \<open>The trees an insertion leaves in place of one: the tree itself, and the sibling if it
  was split.\<close>

definition res_trees ::
  "('k, 'v) atree \<Rightarrow> ('k \<times> ('k, 'v) atree) option \<Rightarrow> ('k, 'v) atree list" where
  "res_trees t res = t # (case res of None \<Rightarrow> [] | Some qr \<Rightarrow> [snd qr])"

text \<open>The keys and the children of an internal node after the insertion into child \<^verbatim>\<open>i\<close>.\<close>

definition node_keys :: "'k list \<Rightarrow> nat \<Rightarrow> ('k \<times> ('k, 'v) atree) option \<Rightarrow> 'k list" where
  "node_keys ks i rc = (case rc of None \<Rightarrow> ks | Some qr \<Rightarrow> take i ks @ fst qr # drop i ks)"

definition node_children ::
  "('k, 'v) atree list \<Rightarrow> nat \<Rightarrow> ('k, 'v) atree \<Rightarrow> ('k \<times> ('k, 'v) atree) option
    \<Rightarrow> ('k, 'v) atree list" where
  "node_children ts i tc rc = take i ts @ res_trees tc rc @ drop (Suc i) ts"

text \<open>The invariant of a \<^verbatim>\<open>BPlusTree\<close>: its heap holds a tree at the root that has the shape
  and the order above, whose nodes have distinct addresses below the next unused one, whose
  leaf chain links the leaves from left to right and ends with \<^verbatim>\<open>nullptr\<close>, and \<^verbatim>\<open>size_\<close> is
  the number of pairs.\<close>

definition bp_inv :: "nat \<Rightarrow> (('k::linorder), 'v) BPlusTree \<Rightarrow> ('k, 'v) atree \<Rightarrow> bool" where
  "bp_inv ord T t =
     (repr (heap T) t \<and> raddr t = root T \<and> shape ord t \<and> distinct (addrs t)
      \<and> list_all (\<lambda>a. a < next_addr T) (addrs t) \<and> ordered None None t
      \<and> linked (leaves t) None \<and> tsize T = length (pairs t))"

text \<open>The part of the invariant that does not depend on the keys being distinct: it is kept
  also when a key is inserted a second time.\<close>

definition bp_winv :: "nat \<Rightarrow> (('k::linorder), 'v) BPlusTree \<Rightarrow> ('k, 'v) atree \<Rightarrow> bool" where
  "bp_winv ord T t =
     (repr (heap T) t \<and> raddr t = root T \<and> shape ord t \<and> distinct (addrs t)
      \<and> list_all (\<lambda>a. a < next_addr T) (addrs t) \<and> linked (leaves t) None)"
section \<open>Customer repository (src/repository/customer_repository.hpp)\<close>

subsection \<open>The customer model (src/models/customer.hpp)\<close>

text \<open>The enumerations are \<^verbatim>\<open>enum class\<close> types over \<^verbatim>\<open>int\<close>; the repository writes and reads
  their four bytes as they are, so a value is the 32-bit word of the underlying \<^verbatim>\<open>int\<close>, and
  the enumerators are names of four and three of these words. \<^verbatim>\<open>credit_score\<close> is an \<^verbatim>\<open>int\<close>. A
  \<^verbatim>\<open>double\<close> is the 64-bit word of its object representation (no arithmetic is done on it
  here), and \<^verbatim>\<open>std::time_t\<close> is a 64-bit word.\<close>

type_synonym CustomerTier = "32 word"

definition BRONZE :: CustomerTier where "BRONZE = 0"
definition SILVER :: CustomerTier where "SILVER = 1"
definition GOLD :: CustomerTier where "GOLD = 2"
definition ENTERPRISE :: CustomerTier where "ENTERPRISE = 3"

type_synonym CustomerStatus = "32 word"

definition ACTIVE :: CustomerStatus where "ACTIVE = 0"
definition SUSPENDED :: CustomerStatus where "SUSPENDED = 1"
definition CLOSED :: CustomerStatus where "CLOSED = 2"

type_synonym double = "64 word"
type_synonym time_t = "64 word"

text \<open>The field \<^verbatim>\<open>id\<close> is \<^verbatim>\<open>customer_id\<close> here (\<^verbatim>\<open>id\<close> is the identity function).\<close>

record Customer =
  customer_id :: int64
  name :: string
  email :: string
  phone :: string
  address :: string
  country :: string
  state :: string
  tier :: CustomerTier
  status :: CustomerStatus
  credit_score :: "32 word"
  credit_limit :: double
  current_balance :: double
  total_spent :: double
  created_at :: time_t
  updated_at :: time_t

text \<open>A \<^verbatim>\<open>std::string\<close> reports its length as a \<^verbatim>\<open>size_t\<close>: it is shorter than \<open>2\<^sup>6\<^sup>4\<close>.\<close>

definition string_ok :: "string \<Rightarrow> bool" where
  "string_ok s = (length s < 2 ^ 64)"

definition customer_ok :: "Customer \<Rightarrow> bool" where
  "customer_ok c =
     (string_ok (name c) \<and> string_ok (email c) \<and> string_ok (phone c)
      \<and> string_ok (address c) \<and> string_ok (country c) \<and> string_ok (state c))"

subsection \<open>The binary format\<close>

text \<open>A file is a sequence of \<^verbatim>\<open>char\<close>. A scalar is written as the bytes of its object
  representation, \<^verbatim>\<open>sizeof\<close> of them, least significant first (the byte order of the
  machine; reading uses the same order).\<close>

fun le_bytes :: "nat \<Rightarrow> nat \<Rightarrow> string" where
  "le_bytes 0 n = []"
| "le_bytes (Suc k) n = char_of (n mod 256) # le_bytes k (n div 256)"

fun le_nat :: "string \<Rightarrow> nat" where
  "le_nat [] = 0"
| "le_nat (c # cs) = of_char c + 256 * le_nat cs"

definition write_u64 :: "64 word \<Rightarrow> string" where
  "write_u64 w = le_bytes 8 (unat w)"

definition write_u32 :: "32 word \<Rightarrow> string" where
  "write_u32 w = le_bytes 4 (unat w)"

text \<open>\<^verbatim>\<open>write_string\<close>: the length as a \<^verbatim>\<open>size_t\<close>, then the characters.\<close>

definition write_string :: "string \<Rightarrow> string" where
  "write_string s = le_bytes 8 (length s) @ s"

definition write_customer :: "Customer \<Rightarrow> string" where
  "write_customer c =
     write_u64 (customer_id c) @ write_string (name c) @ write_string (email c)
     @ write_string (phone c) @ write_string (address c) @ write_string (country c)
     @ write_string (state c) @ write_u32 (tier c) @ write_u32 (status c)
     @ write_u32 (credit_score c) @ write_u64 (credit_limit c) @ write_u64 (current_balance c)
     @ write_u64 (total_spent c) @ write_u64 (created_at c) @ write_u64 (updated_at c)"

text \<open>Reading takes the rest of the stream and returns the value with the rest after it. The
  C++ never tests the stream: once a read comes short, the remaining fields of the record keep
  indeterminate values that are then copied into the map. This is \<^const>\<open>None\<close>, as is a
  string length beyond the rest of the stream (\<^verbatim>\<open>resize\<close> throws or the read comes short).\<close>

definition read_bytes :: "nat \<Rightarrow> string \<Rightarrow> (string \<times> string) option" where
  "read_bytes n s = (if n \<le> length s then Some (take n s, drop n s) else None)"

definition read_u64 :: "string \<Rightarrow> (64 word \<times> string) option" where
  "read_u64 s = map_option (\<lambda>(b, r). (of_nat (le_nat b), r)) (read_bytes 8 s)"

definition read_u32 :: "string \<Rightarrow> (32 word \<times> string) option" where
  "read_u32 s = map_option (\<lambda>(b, r). (of_nat (le_nat b), r)) (read_bytes 4 s)"

definition read_string :: "string \<Rightarrow> (string \<times> string) option" where
  "read_string s =
     (case read_bytes 8 s of
        None \<Rightarrow> None
      | Some (b, r) \<Rightarrow> read_bytes (le_nat b) r)"

definition read_customer :: "string \<Rightarrow> (Customer \<times> string) option" where
  "read_customer s0 = do {
     (v_id, s1) \<leftarrow> read_u64 s0;
     (v_name, s2) \<leftarrow> read_string s1;
     (v_email, s3) \<leftarrow> read_string s2;
     (v_phone, s4) \<leftarrow> read_string s3;
     (v_address, s5) \<leftarrow> read_string s4;
     (v_country, s6) \<leftarrow> read_string s5;
     (v_state, s7) \<leftarrow> read_string s6;
     (v_tier, s8) \<leftarrow> read_u32 s7;
     (v_status, s9) \<leftarrow> read_u32 s8;
     (v_score, s10) \<leftarrow> read_u32 s9;
     (v_limit, s11) \<leftarrow> read_u64 s10;
     (v_balance, s12) \<leftarrow> read_u64 s11;
     (v_spent, s13) \<leftarrow> read_u64 s12;
     (v_created, s14) \<leftarrow> read_u64 s13;
     (v_updated, s15) \<leftarrow> read_u64 s14;
     Some (\<lparr>customer_id = v_id, name = v_name, email = v_email, phone = v_phone,
             address = v_address, country = v_country, state = v_state, tier = v_tier,
             status = v_status, credit_score = v_score, credit_limit = v_limit,
             current_balance = v_balance, total_spent = v_spent, created_at = v_created,
             updated_at = v_updated\<rparr>, s15)
   }"

subsection \<open>The repository\<close>

text \<open>\<^verbatim>\<open>store_\<close> is the authoritative map, \<^verbatim>\<open>index_\<close> a B+ tree of order 4 from ids to ids and
  \<^verbatim>\<open>cache_\<close> an LRU cache of 256 customers. The tree compares its \<^verbatim>\<open>int64_t\<close> keys as signed
  integers: it holds the integers \<^term>\<open>sint k\<close> of the ids. \<^verbatim>\<open>data_file\<close> is the content of
  the file that \<^verbatim>\<open>data_file_\<close> names, \<^const>\<open>None\<close> when there is no such file.\<close>

record CustomerRepository =
  data_file :: "string option"
  store :: "int64 \<rightharpoonup> Customer"
  index :: "(int, int) BPlusTree"
  cache :: "(int64, Customer) LRUCache"

text \<open>A call returns a value or throws; either way it leaves a state.\<close>

datatype 'a outcome = Returned 'a | Thrown error

text \<open>\<^verbatim>\<open>flush\<close> writes the number of entries and then every entry of \<^verbatim>\<open>store_\<close>, in the
  iteration order of the \<^verbatim>\<open>unordered_map\<close>. That order is unspecified: it is the argument
  \<^verbatim>\<open>ord\<close>, the keys of \<^verbatim>\<open>store_\<close> in the order the loop visits them. Whether the file can be
  opened for writing is the argument \<^verbatim>\<open>writable\<close>; if it cannot, the file stays as it is.
  The number of entries, \<^verbatim>\<open>store_.size()\<close>, is a \<^verbatim>\<open>size_t\<close>.\<close>

definition iteration_order :: "(int64 \<rightharpoonup> Customer) \<Rightarrow> int64 list \<Rightarrow> bool" where
  "iteration_order m ord = (distinct ord \<and> set ord = dom m \<and> length ord < 2 ^ 64)"

definition flush ::
  "int64 list \<Rightarrow> bool \<Rightarrow> CustomerRepository \<Rightarrow> unit outcome \<times> CustomerRepository" where
  "flush ord writable r =
     (if \<not> writable
      then (Thrown (RuntimeError ''Cannot open customer data file for writing''), r)
      else (Returned (),
            r\<lparr>data_file :=
                 Some (le_bytes 8 (length ord)
                       @ concat (map (\<lambda>k. case store r k of None \<Rightarrow> [] | Some c \<Rightarrow> write_customer c)
                                   ord))\<rparr>))"

text \<open>\<^verbatim>\<open>load_all\<close>: without a file nothing is loaded. The count is read into a variable that
  starts as 0 (a short read leaves the bytes that were not read as they are), then that many
  records are read and entered into the map and the index.\<close>

fun load_records :: "nat \<Rightarrow> string \<Rightarrow> CustomerRepository \<Rightarrow> CustomerRepository option" where
  "load_records 0 s r = Some r"
| "load_records (Suc n) s r =
     (case read_customer s of
        None \<Rightarrow> None
      | Some (c, s') \<Rightarrow>
          (case tree_insert 4 (index r) (sint (customer_id c)) (sint (customer_id c)) of
             None \<Rightarrow> None
           | Some t \<Rightarrow>
               load_records n s' (r\<lparr>store := (store r)(customer_id c \<mapsto> c), index := t\<rparr>)))"

definition load_all :: "CustomerRepository \<Rightarrow> CustomerRepository option" where
  "load_all r =
     (case data_file r of
        None \<Rightarrow> Some r
      | Some s \<Rightarrow> load_records (le_nat (take 8 s)) (drop 8 s) r)"

text \<open>The constructor builds the index and the cache and loads the file. The constructor of
  the cache throws for capacity 0.\<close>

definition CustomerRepository_new ::
  "string option \<Rightarrow> (error + CustomerRepository) option" where
  "CustomerRepository_new f =
     (case BPlusTree_new 4 of
        Inl e \<Rightarrow> Some (Inl e)
      | Inr t \<Rightarrow>
          (case LRUCache_new 256 of
             Inl e \<Rightarrow> Some (Inl e)
           | Inr c \<Rightarrow>
               map_option Inr
                 (load_all \<lparr>data_file = f, store = Map.empty, index = t, cache = c\<rparr>)))"

text \<open>The operations return \<^const>\<open>None\<close> where the index or the cache does.\<close>

definition save ::
  "int64 list \<Rightarrow> bool \<Rightarrow> Customer \<Rightarrow> CustomerRepository
     \<Rightarrow> (unit outcome \<times> CustomerRepository) option" where
  "save ord writable c r =
     (case tree_insert 4 (index r) (sint (customer_id c)) (sint (customer_id c)) of
        None \<Rightarrow> None
      | Some t \<Rightarrow>
          (case lru_put (customer_id c) c (cache r) of
             None \<Rightarrow> None
           | Some ca \<Rightarrow>
               Some (flush ord writable
                       (r\<lparr>store := (store r)(customer_id c \<mapsto> c), index := t, cache := ca\<rparr>))))"

definition find_by_id ::
  "int64 \<Rightarrow> CustomerRepository \<Rightarrow> (Customer option outcome \<times> CustomerRepository) option" where
  "find_by_id k r =
     (case lru_get k (cache r) of
        None \<Rightarrow> None
      | Some (Some c, ca) \<Rightarrow> Some (Returned (Some c), r\<lparr>cache := ca\<rparr>)
      | Some (None, ca) \<Rightarrow>
          (case store r k of
             None \<Rightarrow> Some (Returned None, r\<lparr>cache := ca\<rparr>)
           | Some c \<Rightarrow>
               (case lru_put k c ca of
                  None \<Rightarrow> None
                | Some ca' \<Rightarrow> Some (Returned (Some c), r\<lparr>cache := ca'\<rparr>))))"

definition update ::
  "int64 list \<Rightarrow> bool \<Rightarrow> Customer \<Rightarrow> CustomerRepository
     \<Rightarrow> (bool outcome \<times> CustomerRepository) option" where
  "update ord writable c r =
     (if store r (customer_id c) = None then Some (Returned False, r)
      else
        (case tree_update (index r) (sint (customer_id c)) (sint (customer_id c)) of
           None \<Rightarrow> None
         | Some (b, t) \<Rightarrow>
             (case lru_put (customer_id c) c (cache r) of
                None \<Rightarrow> None
              | Some ca \<Rightarrow>
                  (case flush ord writable
                          (r\<lparr>store := (store r)(customer_id c \<mapsto> c), index := t, cache := ca\<rparr>) of
                     (Returned u, r') \<Rightarrow> Some (Returned True, r')
                   | (Thrown e, r') \<Rightarrow> Some (Thrown e, r')))))"

definition remove ::
  "int64 list \<Rightarrow> bool \<Rightarrow> int64 \<Rightarrow> CustomerRepository
     \<Rightarrow> (bool outcome \<times> CustomerRepository) option" where
  "remove ord writable k r =
     (if store r k = None then Some (Returned False, r)
      else
        (case tree_remove (index r) (sint k) of
           None \<Rightarrow> None
         | Some (b, t) \<Rightarrow>
             (case lru_evict k (cache r) of
                None \<Rightarrow> None
              | Some (b', ca) \<Rightarrow>
                  (case flush ord writable
                          (r\<lparr>store := (store r)(k := None), index := t, cache := ca\<rparr>) of
                     (Returned u, r') \<Rightarrow> Some (Returned True, r')
                   | (Thrown e, r') \<Rightarrow> Some (Thrown e, r')))))"

text \<open>\<^verbatim>\<open>find_range\<close>: the ids the index returns for the range, each looked up in the map.\<close>

definition find_range :: "int64 \<Rightarrow> int64 \<Rightarrow> CustomerRepository \<Rightarrow> Customer list option" where
  "find_range lo hi r =
     map_option (List.map_filter (\<lambda>kv. store r (word_of_int (fst kv))))
       (tree_range (index r) (sint lo) (sint hi))"

text \<open>Sequences of calls on one repository; a call that throws leaves its state to the next.\<close>

datatype repo_op =
    CallSave "int64 list" bool Customer
  | CallUpdate "int64 list" bool Customer
  | CallRemove "int64 list" bool int64
  | CallFindById int64

fun repo_apply :: "repo_op \<Rightarrow> CustomerRepository \<Rightarrow> CustomerRepository option" where
  "repo_apply (CallSave ord w c) r = map_option snd (save ord w c r)"
| "repo_apply (CallUpdate ord w c) r = map_option snd (update ord w c r)"
| "repo_apply (CallRemove ord w k) r = map_option snd (remove ord w k r)"
| "repo_apply (CallFindById k) r = map_option snd (find_by_id k r)"

fun repo_run :: "repo_op list \<Rightarrow> CustomerRepository \<Rightarrow> CustomerRepository option" where
  "repo_run [] r = Some r"
| "repo_run (x # xs) r = (case repo_apply x r of None \<Rightarrow> None | Some r' \<Rightarrow> repo_run xs r')"

text \<open>The customers a call passes in.\<close>

fun op_ok :: "repo_op \<Rightarrow> bool" where
  "op_ok (CallSave ord w c) = customer_ok c"
| "op_ok (CallUpdate ord w c) = customer_ok c"
| "op_ok (CallRemove ord w k) = True"
| "op_ok (CallFindById k) = True"

text \<open>The invariants of the repository: every entry of the map is under its own id and has
  strings of representable length; the cache is well formed and each of its entries is the
  entry of the map.\<close>

definition store_inv :: "CustomerRepository \<Rightarrow> bool" where
  "store_inv r = (\<forall>k c. store r k = Some c \<longrightarrow> customer_id c = k \<and> customer_ok c)"

definition cache_inv :: "CustomerRepository \<Rightarrow> bool" where
  "cache_inv r =
     (lru_inv (cache r) \<and> (\<forall>e \<in> set (lru_entries (cache r)). store r (fst e) = Some (snd e)))"

text \<open>The index is a well-formed tree, whatever keys it holds.\<close>

definition index_inv :: "CustomerRepository \<Rightarrow> bool" where
  "index_inv r = (\<exists>t. bp_winv 4 (index r) t)"

text \<open>A customer and the repository built without a data file, for the examples.\<close>

definition example_customer :: Customer where
  "example_customer =
     \<lparr>customer_id = 7, name = ''Ada'', email = ''ada@example.org'', phone = ''555'',
      address = ''1 Main St'', country = ''UK'', state = ''LDN'', tier = GOLD, status = ACTIVE,
      credit_score = 700, credit_limit = 1, current_balance = 2, total_spent = 3,
      created_at = 4, updated_at = 5\<rparr>"

definition empty_repository :: CustomerRepository where
  "empty_repository =
     \<lparr>data_file = None, store = Map.empty,
      index = \<lparr>heap = [0 \<mapsto> LeafN [] None], root = 0, tsize = 0, next_addr = 1\<rparr>,
      cache = \<lparr>capacity = 256, lru_list = [], lru_map = Map.empty, lru_fresh = 0,
                evict_cb = False, evict_calls = [], hits = 0, misses = 0\<rparr>\<rparr>"
section \<open>Snowflake: packing, decoding and monotonicity\<close>

lemmas sf_consts = EPOCH_def WORKER_BITS_def SEQ_BITS_def MAX_WORKER_def MAX_SEQ_def
  WORKER_SHIFT_def TS_SHIFT_def

lemma mask_w: "MAX_WORKER = mask 10" "MAX_SEQ = mask 12"
  by (simp_all add: sf_consts mask_eq_exp_minus_1)

lemma sint_uint_nonneg: "0 \<le> sint (x::int64) \<Longrightarrow> sint x = uint x"
proof -
  assume a: "0 \<le> sint x"
  have "sint x < 2 ^ 63" using sint_lt[of x] by simp
  then have "sint x < 2 ^ 64" by simp
  then have "take_bit 64 (sint x) = sint x" using a by (simp add: take_bit_int_eq_self)
  then show ?thesis using uint_sint[of x] by simp
qed

lemma uint_take_bit: "uint (x::int64) < 2 ^ n \<Longrightarrow> take_bit n x = x"
  by (simp add: mask_eq_iff take_bit_eq_mask)

lemma sbound_take_bit:
  fixes x :: int64
  assumes "0 \<le> sint x" "sint x < 2 ^ n"
  shows "take_bit n x = x"
proof -
  have "uint x < 2 ^ n" using assms(2) sint_uint_nonneg[OF assms(1)] by simp
  then show ?thesis by (rule uint_take_bit)
qed

lemma decode_pack_ts0:
  fixes d w s :: int64
  shows "signed_drop_bit 22 (push_bit 22 (take_bit 41 d) OR push_bit 12 (take_bit 10 w) OR take_bit 12 s) = take_bit 41 d"
  by (rule bit_word_eqI) (auto simp add: bit_simps)

lemma decode_pack_worker0:
  fixes d w s :: int64
  shows "signed_drop_bit 12 (push_bit 22 d OR push_bit 12 (take_bit 10 w) OR take_bit 12 s) AND mask 10 = take_bit 10 w"
  by (rule bit_word_eqI) (auto simp add: bit_simps)

lemma decode_pack_seq0:
  fixes d w s :: int64
  shows "(push_bit 22 d OR push_bit 12 w OR take_bit 12 s) AND mask 12 = take_bit 12 s"
  by (rule bit_word_eqI) (auto simp add: bit_simps)

lemma pack_or_add:
  fixes d w s :: int64
  shows "push_bit 22 d OR push_bit 12 (take_bit 10 w) OR take_bit 12 s
       = push_bit 22 d + (push_bit 12 (take_bit 10 w) + take_bit 12 s)"
proof -
  have 1: "push_bit 12 (take_bit 10 w) + take_bit 12 s = push_bit 12 (take_bit 10 w) OR take_bit 12 s"
    by (rule disjunctive_add_eq_or) (auto simp add: bit_eq_iff bit_simps)
  have 2: "push_bit 22 d + (push_bit 12 (take_bit 10 w) OR take_bit 12 s)
         = push_bit 22 d OR (push_bit 12 (take_bit 10 w) OR take_bit 12 s)"
    by (rule disjunctive_add_eq_or) (auto simp add: bit_eq_iff bit_simps)
  show ?thesis by (simp add: 1 2 or.assoc)
qed

lemma uint_take_bit_bound: "take_bit n (x::int64) = x \<Longrightarrow> uint x < 2 ^ n"
  by (metis unsigned_take_bit_eq take_bit_int_less_exp)

lemma pack_uint:
  fixes d w s :: int64
  assumes d: "take_bit 41 d = d" and w: "take_bit 10 w = w" and s: "take_bit 12 s = s"
  shows "uint (push_bit 22 d OR push_bit 12 w OR s) = uint d * 2 ^ 22 + uint w * 2 ^ 12 + uint s"
proof -
  have bd: "uint d < 2 ^ 41" and bw: "uint w < 2 ^ 10" and bs: "uint s < 2 ^ 12"
    using uint_take_bit_bound[OF d] uint_take_bit_bound[OF w] uint_take_bit_bound[OF s]
    by simp_all
  have nn: "0 \<le> uint d" "0 \<le> uint w" "0 \<le> uint s" by simp_all
  have e: "push_bit 22 d OR push_bit 12 w OR s = d * 2 ^ 22 + (w * 2 ^ 12 + s)"
    using pack_or_add[of d w s] by (simp add: w s push_bit_eq_mult)
  have 1: "uint (d * 2 ^ 22) = uint d * 2 ^ 22"
    using bd nn by (simp add: uint_word_ariths)
  have 2: "uint (w * 2 ^ 12) = uint w * 2 ^ 12"
    using bw nn by (simp add: uint_word_ariths)
  have 3: "uint (w * 2 ^ 12 + s) = uint w * 2 ^ 12 + uint s"
    using bw bs nn 2 by (simp add: uint_word_ariths(1))
  have 4: "uint (d * 2 ^ 22 + (w * 2 ^ 12 + s)) = uint d * 2 ^ 22 + (uint w * 2 ^ 12 + uint s)"
    using bd bw bs nn 1 3 by (simp add: uint_word_ariths(1))
  show ?thesis using 4 by (simp add: e)
qed

lemma new_gen_ok: "SnowflakeGenerator_new w = Inr g \<Longrightarrow> gen_ok g \<and> sg_worker_id g = w \<and> sg_last_ts g = - 1"
proof -
  assume a: "SnowflakeGenerator_new w = Inr g"
  then have r: "\<not> word_sless w 0" "\<not> word_sless MAX_WORKER w"
    and g: "g = \<lparr>sg_worker_id = w, sg_sequence = 0, sg_last_ts = - 1\<rparr>"
    by (auto simp add: SnowflakeGenerator_new_def split: if_splits)
  have "0 \<le> sint w" using r(1) by (simp add: word_sless_alt)
  moreover have "sint w < 2 ^ 10" using r(2) by (simp add: word_sless_alt sf_consts)
  ultimately have "take_bit 10 w = w" by (rule sbound_take_bit)
  then show ?thesis by (simp add: g gen_ok_def)
qed

lemma spin_Some:
  "spin L clock = Some (t, clock') \<Longrightarrow> word_sless L t \<and> (\<exists>pre. clock = pre @ t # clock')"
proof (induction clock)
  case Nil
  then show ?case by simp
next
  case (Cons a clock)
  show ?case
  proof (cases "word_sle a L")
    case True
    with Cons obtain pre where "word_sless L t" "clock = pre @ t # clock'" by auto
    then show ?thesis by (auto intro: exI[of _ "a # pre"])
  next
    case False
    with Cons.prems have "t = a" "clock' = clock" by auto
    moreover have "word_sless L a" using False by (simp add: word_sless_alt word_sle_eq)
    ultimately show ?thesis by (auto intro: exI[of _ "[]"])
  qed
qed

lemma spin_progress: "\<exists>t \<in> set clock. word_sless L t \<Longrightarrow> \<exists>r. spin L clock = Some r"
  by (induction clock) (auto simp add: word_sless_alt word_sle_eq)

lemma next_progress:
  assumes "\<exists>t \<in> set clock. word_sless (sg_last_ts g) t"
  shows "\<exists>r. snowflake_next (clock, g) = Some r"
proof (cases clock)
  case Nil
  with assms show ?thesis by simp
next
  case (Cons ts rest)
  show ?thesis
  proof (cases "ts = sg_last_ts g \<and> (sg_sequence g + 1) AND MAX_SEQ = 0")
    case True
    then have "\<not> word_sless (sg_last_ts g) ts" by (simp add: word_sless_alt)
    with assms Cons have "\<exists>t \<in> set rest. word_sless (sg_last_ts g) t" by auto
    from spin_progress[OF this] obtain r where "spin (sg_last_ts g) rest = Some r" by blast
    with True Cons show ?thesis by (cases r) (simp add: Let_def)
  next
    case False
    with Cons show ?thesis by (auto simp add: Let_def)
  qed
qed

lemma sint_of_small: "uint (x::int64) < 2 ^ 63 \<Longrightarrow> sint x = uint x"
proof -
  assume "uint x < 2 ^ 63"
  moreover have "- (2 ^ 63) \<le> (0::int)" by simp
  then have "- (2 ^ 63) \<le> uint x" using uint_ge_0[of x] by (rule order_trans)
  ultimately have "signed_take_bit 63 (uint x) = uint x"
    by (simp add: signed_take_bit_int_eq_self)
  then show ?thesis using sint_uint[of x] by simp
qed

lemma uint_add_epoch:
  fixes d :: int64
  assumes "uint d < 2 ^ 41"
  shows "uint (d + 1704067200000) = uint d + 1704067200000"
  using assms uint_ge_0[of d] by (simp add: uint_word_ariths(1))

lemma in_range_sint:
  assumes "ts_in_range ts"
  shows "take_bit 41 (ts - EPOCH) = ts - EPOCH"
    and "sint ts = uint (ts - EPOCH) + 1704067200000"
proof -
  have a: "0 \<le> sint (ts - EPOCH)" "sint (ts - EPOCH) < 2 ^ 41"
    using assms by (simp_all add: ts_in_range_def word_sle_eq word_sless_alt)
  show t: "take_bit 41 (ts - EPOCH) = ts - EPOCH" using a by (rule sbound_take_bit)
  have b: "uint (ts - EPOCH) < 2 ^ 41" using uint_take_bit_bound[OF t] .
  have u: "uint ts = uint (ts - EPOCH) + 1704067200000"
    using uint_add_epoch[OF b] by (simp add: EPOCH_def)
  then have "uint ts < 2 ^ 63" using b by simp
  then have "sint ts = uint ts" by (rule sint_of_small)
  then show "sint ts = uint (ts - EPOCH) + 1704067200000" using u by simp
qed

lemma sint_pack:
  assumes r: "ts_in_range ts" and w: "take_bit 10 w = w" and s: "take_bit 12 s = s"
  shows "sint (pack ts w s) = (sint ts - 1704067200000) * 2 ^ 22 + uint w * 2 ^ 12 + uint s"
proof -
  note d = in_range_sint[OF r]
  have bd: "uint (ts - EPOCH) < 2 ^ 41" and bw: "uint w < 2 ^ 10" and bs: "uint s < 2 ^ 12"
    using uint_take_bit_bound[OF d(1)] uint_take_bit_bound[OF w] uint_take_bit_bound[OF s]
    by simp_all
  have u: "uint (pack ts w s) = uint (ts - EPOCH) * 2 ^ 22 + uint w * 2 ^ 12 + uint s"
    unfolding pack_def TS_SHIFT_def WORKER_SHIFT_def WORKER_BITS_def SEQ_BITS_def
    using pack_uint[OF d(1) w s] by simp
  then have "uint (pack ts w s) < 2 ^ 63" using bd bw bs by simp
  then have "sint (pack ts w s) = uint (pack ts w s)" by (rule sint_of_small)
  then show ?thesis using u d(2) by simp
qed

lemma lex_arith:
  fixes a b c x y :: int
  assumes "a < b" "x < 4096" "0 \<le> y"
  shows "(a - 1704067200000) * 4194304 + c + x < (b - 1704067200000) * 4194304 + c + y"
  using assms by simp

lemma pack_mono:
  assumes "ts_in_range L" "ts_in_range L'" "take_bit 10 w = w"
    "take_bit 12 s = s" "take_bit 12 s' = s'"
    "sint L < sint L' \<or> (L = L' \<and> uint s < uint s')"
  shows "word_sless (pack L w s) (pack L' w s')"
proof -
  have bs: "uint s < 4096" "uint s' < 4096"
    using uint_take_bit_bound[OF assms(4)] uint_take_bit_bound[OF assms(5)] by simp_all
  have nn: "0 \<le> uint s" "0 \<le> uint s'" by simp_all
  have "(sint L - 1704067200000) * 4194304 + uint w * 4096 + uint s
      < (sint L' - 1704067200000) * 4194304 + uint w * 4096 + uint s'"
  proof (cases "sint L < sint L'")
    case True
    then show ?thesis using bs(1) nn(2) by (rule lex_arith)
  next
    case False
    with assms(6) have "L = L'" "uint s < uint s'" by auto
    then show ?thesis by simp
  qed
  then show ?thesis
    unfolding word_sless_alt sint_pack[OF assms(1,3,4)] sint_pack[OF assms(2,3,5)]
    by simp
qed

lemma seq_incr:
  fixes s :: int64
  assumes s: "take_bit 12 s = s" and nz: "(s + 1) AND MAX_SEQ \<noteq> 0"
  shows "uint s < uint ((s + 1) AND MAX_SEQ)"
proof -
  have b: "uint s < 4096" using uint_take_bit_bound[OF s] by simp
  have nn: "0 \<le> uint s" by simp
  have u1: "uint (s + 1) = uint s + 1" using b nn by (simp add: uint_word_ariths(1))
  have "(s + 1) AND MAX_SEQ = take_bit 12 (s + 1)" by (simp add: mask_w take_bit_eq_mask)
  moreover have "uint (take_bit 12 (s + 1)) = take_bit 12 (uint (s + 1))"
    by (rule unsigned_take_bit_eq)
  moreover have "take_bit 12 (uint (s + 1)) = (uint s + 1) mod 4096"
    by (simp only: u1 take_bit_eq_mod) simp
  ultimately have u: "uint ((s + 1) AND MAX_SEQ) = (uint s + 1) mod 4096" by simp
  have "(uint s + 1) mod 4096 \<noteq> 0"
  proof
    assume "(uint s + 1) mod 4096 = 0"
    with u have "uint ((s + 1) AND MAX_SEQ) = 0" by simp
    then have "(s + 1) AND MAX_SEQ = 0" by (simp add: uint_0_iff)
    with nz show False by simp
  qed
  then have "uint s + 1 < 4096" using b nn by (cases "uint s + 1 = 4096") auto
  then have "(uint s + 1) mod 4096 = uint s + 1" using nn by simp
  with u show ?thesis by simp
qed

lemma seq_masked: "take_bit 12 ((s::int64) AND MAX_SEQ) = s AND MAX_SEQ"
  by (simp add: mask_w flip: take_bit_eq_mask)

lemma clock_ok_suffix:
  assumes "clock_ok (pre @ t # clock')"
  shows "clock_ok clock'" "ts_in_range t" "\<forall>x \<in> set clock'. word_sle t x"
  using assms by (auto simp add: clock_ok_def sorted_wrt_append)

lemma next_step:
  assumes inv: "sinv clock g" and nx: "snowflake_next (clock, g) = Some (i, clock', g')"
  shows "sinv clock' g'" "sg_worker_id g' = sg_worker_id g" "ts_in_range (sg_last_ts g')"
    "i = pack (sg_last_ts g') (sg_worker_id g) (sg_sequence g')"
    "sint (sg_last_ts g) < sint (sg_last_ts g')
       \<or> (sg_last_ts g = sg_last_ts g' \<and> uint (sg_sequence g) < uint (sg_sequence g'))"
proof -
  from nx obtain ts rest where c: "clock = ts # rest" by (cases clock) auto
  from inv have gok: "take_bit 10 (sg_worker_id g) = sg_worker_id g"
    "take_bit 12 (sg_sequence g) = sg_sequence g"
    and cok: "clock_ok clock" and le: "\<forall>t \<in> set clock. word_sle (sg_last_ts g) t"
    by (auto simp add: sinv_def gen_ok_def list_all_iff)
  have cs: "clock_ok rest" "ts_in_range ts" "\<forall>x \<in> set rest. word_sle ts x"
    using clock_ok_suffix[of "[]" ts rest] cok c by simp_all
  let ?sq = "(sg_sequence g + 1) AND MAX_SEQ"
  consider (spin) "ts = sg_last_ts g" "?sq = 0"
    | (same) "ts = sg_last_ts g" "?sq \<noteq> 0"
    | (fresh) "ts \<noteq> sg_last_ts g" by blast
  then have "sinv clock' g' \<and> sg_worker_id g' = sg_worker_id g \<and> ts_in_range (sg_last_ts g')
    \<and> i = pack (sg_last_ts g') (sg_worker_id g) (sg_sequence g')
    \<and> (sint (sg_last_ts g) < sint (sg_last_ts g')
       \<or> (sg_last_ts g = sg_last_ts g' \<and> uint (sg_sequence g) < uint (sg_sequence g')))"
  proof cases
    case spin
    with nx c obtain ts' where sp: "spin (sg_last_ts g) rest = Some (ts', clock')"
      and r: "i = pack ts' (sg_worker_id g) 0" "g' = g\<lparr>sg_sequence := 0, sg_last_ts := ts'\<rparr>"
      by (auto simp add: Let_def split: option.splits)
    from spin_Some[OF sp] obtain pre where lt: "word_sless (sg_last_ts g) ts'"
      and rest: "rest = pre @ ts' # clock'" by blast
    note s = clock_ok_suffix[OF cs(1)[unfolded rest]]
    show ?thesis using r lt s gok
      by (simp add: sinv_def gen_ok_def list_all_iff word_sless_alt)
  next
    case same
    with nx c have r: "i = pack ts (sg_worker_id g) ?sq" "clock' = rest"
      "g' = g\<lparr>sg_sequence := ?sq, sg_last_ts := ts\<rparr>"
      by (auto simp add: Let_def)
    show ?thesis using r same(1) cs gok seq_incr[OF gok(2) same(2)] seq_masked
      by (simp add: sinv_def gen_ok_def list_all_iff)
  next
    case fresh
    with nx c have r: "i = pack ts (sg_worker_id g) 0" "clock' = rest"
      "g' = g\<lparr>sg_sequence := 0, sg_last_ts := ts\<rparr>"
      by (auto simp add: Let_def)
    have "sint (sg_last_ts g) \<le> sint ts" using le c by (simp add: word_sle_eq)
    moreover have "sint (sg_last_ts g) \<noteq> sint ts" using fresh by (auto dest: signed_word_eqI)
    ultimately have "sint (sg_last_ts g) < sint ts" by simp
    then show ?thesis using r cs gok by (simp add: sinv_def gen_ok_def list_all_iff)
  qed
  then show "sinv clock' g'" "sg_worker_id g' = sg_worker_id g" "ts_in_range (sg_last_ts g')"
    "i = pack (sg_last_ts g') (sg_worker_id g) (sg_sequence g')"
    "sint (sg_last_ts g) < sint (sg_last_ts g')
       \<or> (sg_last_ts g = sg_last_ts g' \<and> uint (sg_sequence g) < uint (sg_sequence g'))"
    by blast+
qed

lemma sless_trans: "word_sless a b \<Longrightarrow> word_sless b c \<Longrightarrow> word_sless a c"
  by (simp add: word_sless_alt)

lemma generate_above:
  "sinv clock g \<Longrightarrow> ts_in_range (sg_last_ts g) \<Longrightarrow> generate k (clock, g) = Some (ids, st)
   \<Longrightarrow> \<forall>j \<in> set ids. word_sless (pack (sg_last_ts g) (sg_worker_id g) (sg_sequence g)) j"
proof (induction k arbitrary: clock g ids)
  case 0
  then show ?case by simp
next
  case (Suc k)
  from Suc.prems(3) obtain i clock' g' ids' where
    nx: "snowflake_next (clock, g) = Some (i, clock', g')"
    and gen: "generate k (clock', g') = Some (ids', st)" and ids: "ids = i # ids'"
    by (auto split: option.splits)
  note st = next_step[OF Suc.prems(1) nx]
  from Suc.prems(1) have gok: "take_bit 10 (sg_worker_id g) = sg_worker_id g"
    "take_bit 12 (sg_sequence g) = sg_sequence g" by (auto simp add: sinv_def gen_ok_def list_all_iff)
  from st(1) have gok': "take_bit 12 (sg_sequence g') = sg_sequence g'"
    by (auto simp add: sinv_def gen_ok_def list_all_iff)
  have lt: "word_sless (pack (sg_last_ts g) (sg_worker_id g) (sg_sequence g)) i"
    unfolding st(4) using Suc.prems(2) st(3) gok gok' st(5) by (rule pack_mono)
  have "\<forall>j \<in> set ids'. word_sless i j"
    using Suc.IH[OF st(1) st(3) gen] by (simp add: st(4) st(2))
  with lt show ?case by (auto simp add: ids intro: sless_trans)
qed

lemma generate_sorted:
  "sinv clock g \<Longrightarrow> generate k (clock, g) = Some (ids, st) \<Longrightarrow> sorted_wrt word_sless ids"
proof (induction k arbitrary: clock g ids)
  case 0
  then show ?case by simp
next
  case (Suc k)
  from Suc.prems(2) obtain i clock' g' ids' where
    nx: "snowflake_next (clock, g) = Some (i, clock', g')"
    and gen: "generate k (clock', g') = Some (ids', st)" and ids: "ids = i # ids'"
    by (auto split: option.splits)
  note st = next_step[OF Suc.prems(1) nx]
  have "\<forall>j \<in> set ids'. word_sless i j"
    using generate_above[OF st(1) st(3) gen] by (simp add: st(4) st(2))
  moreover have "sorted_wrt word_sless ids'" using Suc.IH[OF st(1) gen] .
  ultimately show ?case by (simp add: ids)
qed

lemma generate_snoc:
  "generate (Suc k) st =
     (case generate k st of
        None \<Rightarrow> None
      | Some (ids, st') \<Rightarrow>
          (case snowflake_next st' of
             None \<Rightarrow> None
           | Some (i, st'') \<Rightarrow> Some (ids @ [i], st'')))"
proof (induction k arbitrary: st)
  case 0
  show ?case by (simp split: option.splits)
next
  case (Suc k)
  note e1 = generate.simps(2)[of "Suc k" st] and e2 = generate.simps(2)[of k st]
  show ?case
  proof (cases "snowflake_next st")
    case None
    then show ?thesis by (simp add: e1 e2 del: generate.simps)
  next
    case (Some r)
    obtain i st1 where r: "r = (i, st1)" by (cases r) auto
    note ih = Suc.IH[of st1]
    show ?thesis
    proof (cases "generate k st1")
      case None
      with Some r show ?thesis by (simp add: e1 e2 ih del: generate.simps)
    next
      case g: (Some q)
      obtain ids st2 where q: "q = (ids, st2)" by (cases q) auto
      show ?thesis using Some r g q
        by (simp add: e1 e2 ih del: generate.simps split: option.splits)
    qed
  qed
qed

lemma in_range_nonneg: "ts_in_range t \<Longrightarrow> word_sle (- 1) t"
  using in_range_sint(2)[of t] by (simp add: word_sle_eq)

lemma sinv_init:
  assumes "SnowflakeGenerator_new wid = Inr g0" "clock_ok clock0"
  shows "sinv clock0 g0"
  using new_gen_ok[OF assms(1)] assms(2)
  by (auto simp add: sinv_def clock_ok_def list_all_iff intro: in_range_nonneg)

lemma worker_step:
  assumes "gen_ok g" "snowflake_next (clock, g) = Some (i, clock', g')"
  shows "gen_ok g' \<and> sg_worker_id g' = sg_worker_id g \<and> worker_id (decode i) = sg_worker_id g"
proof -
  from assms(2) obtain ts rest where c: "clock = ts # rest" by (cases clock) auto
  from assms(1) have w: "take_bit 10 (sg_worker_id g) = sg_worker_id g" by (simp add: gen_ok_def)
  have dw: "worker_id (decode (pack t (sg_worker_id g) (s AND MAX_SEQ))) = sg_worker_id g" for t s
    unfolding decode_def pack_def TS_SHIFT_def WORKER_SHIFT_def WORKER_BITS_def SEQ_BITS_def mask_w
    using decode_pack_worker0[of "t - EPOCH" "sg_worker_id g" s, unfolded w, unfolded take_bit_eq_mask]
    by simp
  have dw0: "worker_id (decode (pack t (sg_worker_id g) 0)) = sg_worker_id g" for t
    using dw[of t 0] by simp
  show ?thesis using assms c seq_masked dw dw0
    by (auto simp add: Let_def gen_ok_def split: if_splits option.splits)
qed

lemma generate_worker:
  "gen_ok g \<Longrightarrow> generate k (clock, g) = Some (ids, st)
   \<Longrightarrow> \<forall>i \<in> set ids. worker_id (decode i) = sg_worker_id g"
proof (induction k arbitrary: clock g ids)
  case 0
  then show ?case by simp
next
  case (Suc k)
  from Suc.prems(2) obtain i clock' g' ids' where
    nx: "snowflake_next (clock, g) = Some (i, clock', g')"
    and gen: "generate k (clock', g') = Some (ids', st)" and ids: "ids = i # ids'"
    by (auto split: option.splits)
  note st = worker_step[OF Suc.prems(1) nx]
  from Suc.IH[of g' clock' ids'] st gen show ?case by (simp add: ids)
qed

text \<open>Claim C6. \<^const>\<open>decode\<close> inverts the packing of \<^verbatim>\<open>next()\<close>: for a timestamp with
  \<^verbatim>\<open>0 <= ts - EPOCH < 2^41\<close>, a worker id in \<^verbatim>\<open>[0, MAX_WORKER]\<close> and a sequence number in
  \<^verbatim>\<open>[0, MAX_SEQ]\<close>, decoding the packed identifier returns exactly the three components; and
  every identifier issued by a generator that the constructor accepted decodes to that
  generator's worker id, whatever the clock reads.\<close>

theorem C6_decode_inverse:
  "(word_sle 0 (ts - EPOCH) \<and> word_sless (ts - EPOCH) (2 ^ 41)
      \<and> word_sle 0 w \<and> word_sle w MAX_WORKER \<and> word_sle 0 s \<and> word_sle s MAX_SEQ
    \<longrightarrow> decode (pack ts w s) = \<lparr>timestamp_ms = ts, worker_id = w, sequence = s\<rparr>)
   \<and> (SnowflakeGenerator_new wid = Inr g \<and> generate k (clock, g) = Some (ids, st)
    \<longrightarrow> list_all (\<lambda>i. worker_id (decode i) = wid) ids)"
proof (intro conjI impI)
  assume a: "word_sle 0 (ts - EPOCH) \<and> word_sless (ts - EPOCH) (2 ^ 41)
      \<and> word_sle 0 w \<and> word_sle w MAX_WORKER \<and> word_sle 0 s \<and> word_sle s MAX_SEQ"
  have d: "take_bit 41 (ts - EPOCH) = ts - EPOCH"
    using a by (intro sbound_take_bit) (simp_all add: word_sle_eq word_sless_alt)
  have w: "take_bit 10 w = w"
    using a by (intro sbound_take_bit) (simp_all add: word_sle_eq sf_consts)
  have s: "take_bit 12 s = s"
    using a by (intro sbound_take_bit) (simp_all add: word_sle_eq sf_consts)
  have 1: "signed_drop_bit 22 (push_bit 22 (ts - EPOCH) OR push_bit 12 w OR s) = ts - EPOCH"
    using decode_pack_ts0[of "ts - EPOCH" w s] by (simp only: d w s)
  have 2: "signed_drop_bit 12 (push_bit 22 (ts - EPOCH) OR push_bit 12 w OR s) AND mask 10 = w"
    using decode_pack_worker0[of "ts - EPOCH" w s] by (simp only: w s)
  have 3: "(push_bit 22 (ts - EPOCH) OR push_bit 12 w OR s) AND mask 12 = s"
    using decode_pack_seq0[of "ts - EPOCH" w s] by (simp only: s)
  show "decode (pack ts w s) = \<lparr>timestamp_ms = ts, worker_id = w, sequence = s\<rparr>"
    unfolding decode_def pack_def TS_SHIFT_def WORKER_SHIFT_def WORKER_BITS_def SEQ_BITS_def mask_w
    using 1 2 3 by simp
next
  assume a: "SnowflakeGenerator_new wid = Inr g \<and> generate k (clock, g) = Some (ids, st)"
  then have "gen_ok g" "sg_worker_id g = wid" using new_gen_ok[of wid g] by simp_all
  with a generate_worker[of g k clock ids st]
  show "list_all (\<lambda>i. worker_id (decode i) = wid) ids" by (simp add: list_all_iff)
qed

theorem C6_decode_inverse_witness:
  "decode (pack (EPOCH + 5) 42 7) = \<lparr>timestamp_ms = EPOCH + 5, worker_id = 42, sequence = 7\<rparr>
   \<and> SnowflakeGenerator_new 42 = Inr \<lparr>sg_worker_id = 42, sg_sequence = 0, sg_last_ts = - 1\<rparr>
   \<and> generate (Suc (Suc 0))
        ([EPOCH + 5, EPOCH + 5], \<lparr>sg_worker_id = 42, sg_sequence = 0, sg_last_ts = - 1\<rparr>)
      = Some ([21143552, 21143553], [],
              \<lparr>sg_worker_id = 42, sg_sequence = 1, sg_last_ts = EPOCH + 5\<rparr>)
   \<and> list_all (\<lambda>i. worker_id (decode i) = 42) [21143552, 21143553]"
  using C6_decode_inverse[of "EPOCH + 5" 42 7 42
      "\<lparr>sg_worker_id = 42, sg_sequence = 0, sg_last_ts = - 1\<rparr>" "Suc (Suc 0)"
      "[EPOCH + 5, EPOCH + 5]" "[21143552, 21143553]"
      "([], \<lparr>sg_worker_id = 42, sg_sequence = 1, sg_last_ts = EPOCH + 5\<rparr>)"]
  by (simp add: SnowflakeGenerator_new_def sf_consts pack_def decode_def word_sle_eq
      word_sless_alt)

text \<open>Claim C5, as stated, fails once the clock leaves the 41-bit timestamp field: the shift
  by \<^const>\<open>TS_SHIFT\<close> moves bit 41 of \<^verbatim>\<open>ts - EPOCH\<close> into the sign bit. With the non-decreasing
  readings \<^verbatim>\<open>EPOCH + 2^41 - 1\<close> and \<^verbatim>\<open>EPOCH + 2^41\<close> the second identifier is negative and
  smaller than the first.\<close>

theorem C5_monotonic_counterexample:
  "sorted_wrt word_sle [EPOCH + 2 ^ 41 - 1, EPOCH + 2 ^ 41]
   \<and> SnowflakeGenerator_new 1 = Inr \<lparr>sg_worker_id = 1, sg_sequence = 0, sg_last_ts = - 1\<rparr>
   \<and> generate (Suc (Suc 0))
        ([EPOCH + 2 ^ 41 - 1, EPOCH + 2 ^ 41], \<lparr>sg_worker_id = 1, sg_sequence = 0, sg_last_ts = - 1\<rparr>)
      = Some ([9223372036850585600, - 9223372036854771712], [],
              \<lparr>sg_worker_id = 1, sg_sequence = 0, sg_last_ts = EPOCH + 2 ^ 41\<rparr>)
   \<and> \<not> word_sless (9223372036850585600 :: int64) (- 9223372036854771712)"
  by (simp add: SnowflakeGenerator_new_def sf_consts pack_def word_sle_eq word_sless_alt)

text \<open>Claim C5, amended. For a generator the constructor accepted and a clock that never goes
  backwards and whose readings all satisfy \<^verbatim>\<open>0 <= ts - EPOCH < 2^41\<close>: the identifiers of any
  number of consecutive calls of \<^verbatim>\<open>next()\<close> are strictly increasing as signed 64-bit values,
  and a further call returns whenever a later reading exceeds the last issued millisecond
  (so the busy loop ends as soon as the clock advances).\<close>

theorem C5_monotonic:
  assumes "SnowflakeGenerator_new wid = Inr g0" and "clock_ok clock0"
    and "generate k (clock0, g0) = Some (ids, clock, g)"
  shows "sorted_wrt word_sless ids
    \<and> ((\<exists>t \<in> set clock. word_sless (sg_last_ts g) t)
         \<longrightarrow> (\<exists>i st. generate (Suc k) (clock0, g0) = Some (ids @ [i], st)))"
proof
  show "sorted_wrt word_sless ids"
    using generate_sorted[OF sinv_init[OF assms(1,2)] assms(3)] .
  show "(\<exists>t \<in> set clock. word_sless (sg_last_ts g) t)
         \<longrightarrow> (\<exists>i st. generate (Suc k) (clock0, g0) = Some (ids @ [i], st))"
  proof
    assume "\<exists>t \<in> set clock. word_sless (sg_last_ts g) t"
    from next_progress[OF this] obtain i st where "snowflake_next (clock, g) = Some (i, st)"
      by (metis surj_pair)
    then show "\<exists>i st. generate (Suc k) (clock0, g0) = Some (ids @ [i], st)"
      using assms(3) by (simp add: generate_snoc del: generate.simps)
  qed
qed

theorem C5_monotonic_witness:
  "clock_ok [EPOCH + 1, EPOCH + 1, EPOCH + 2]
   \<and> generate (Suc (Suc 0))
        ([EPOCH + 1, EPOCH + 1, EPOCH + 2], \<lparr>sg_worker_id = 1, sg_sequence = 0, sg_last_ts = - 1\<rparr>)
      = Some ([4198400, 4198401], [EPOCH + 2],
              \<lparr>sg_worker_id = 1, sg_sequence = 1, sg_last_ts = EPOCH + 1\<rparr>)
   \<and> sorted_wrt word_sless [4198400, 4198401 :: int64]
   \<and> (\<exists>i st. generate (Suc (Suc (Suc 0)))
        ([EPOCH + 1, EPOCH + 1, EPOCH + 2], \<lparr>sg_worker_id = 1, sg_sequence = 0, sg_last_ts = - 1\<rparr>)
      = Some ([4198400, 4198401] @ [i], st))"
  using C5_monotonic[of 1 "\<lparr>sg_worker_id = 1, sg_sequence = 0, sg_last_ts = - 1\<rparr>"
      "[EPOCH + 1, EPOCH + 1, EPOCH + 2]" "Suc (Suc 0)" "[4198400, 4198401]" "[EPOCH + 2]"
      "\<lparr>sg_worker_id = 1, sg_sequence = 1, sg_last_ts = EPOCH + 1\<rparr>"]
  by (simp add: SnowflakeGenerator_new_def sf_consts pack_def clock_ok_def ts_in_range_def
      word_sle_eq word_sless_alt)

section \<open>LRU cache: capacity and eviction order\<close>

lemmas lru_defs = lru_get_def lru_put_def lru_evict_def node_at_def list_erase_def
  lru_keys_def lru_entries_def lru_size_def

lemma find_distinct_fst:
  "distinct (map fst xs) \<Longrightarrow> n \<in> set xs \<Longrightarrow> find (\<lambda>m. fst m = fst n) xs = Some n"
  by (induction xs) (auto simp add: rev_image_eqI)

lemma node_at_mapped:
  assumes "lru_inv c" "lru_map c k = Some it"
  shows "\<exists>v. node_at it (lru_list c) = Some (it, k, v) \<and> (it, k, v) \<in> set (lru_list c)"
proof -
  from assms have "k \<in> set (lru_keys c)" by (auto simp add: lru_inv_def)
  then obtain n where n: "n \<in> set (lru_list c)" "fst (snd n) = k"
    by (auto simp add: lru_keys_def)
  with assms have i: "fst n = it" by (auto simp add: lru_inv_def list_all_iff)
  obtain v where nv: "n = (it, k, v)" using n(2) i by (cases n) auto
  have d: "distinct (map fst (lru_list c))" using assms(1) by (simp add: lru_inv_def)
  show ?thesis using find_distinct_fst[OF d n(1)] n(1) nv by (simp add: node_at_def)
qed

text \<open>Under the invariant, erasing the node of a key removes exactly the entries of that key.\<close>

lemma erase_by_key:
  assumes "lru_inv c" "(it, k, v) \<in> set (lru_list c)"
  shows "list_erase it (lru_list c) = filter (\<lambda>n. fst (snd n) \<noteq> k) (lru_list c)"
proof -
  have d1: "distinct (map fst (lru_list c))" and d2: "distinct (map (\<lambda>n. fst (snd n)) (lru_list c))"
    using assms(1) by (simp_all add: lru_inv_def lru_keys_def)
  have i1: "inj_on fst (set (lru_list c))" and i2: "inj_on (\<lambda>n. fst (snd n)) (set (lru_list c))"
    using d1 d2 by (simp_all add: distinct_map)
  have "fst n = it \<longleftrightarrow> fst (snd n) = k" if "n \<in> set (lru_list c)" for n
  proof
    assume "fst n = it"
    then have "n = (it, k, v)" using inj_onD[OF i1 _ that assms(2)] by simp
    then show "fst (snd n) = k" by simp
  next
    assume "fst (snd n) = k"
    then have "n = (it, k, v)" using inj_onD[OF i2 _ that assms(2)] by simp
    then show "fst n = it" by simp
  qed
  then show ?thesis unfolding list_erase_def by (intro filter_cong) auto
qed

lemma inv_front:
  assumes inv: "lru_inv c" and m: "(it, k, v) \<in> set (lru_list c)"
  shows "lru_inv (c\<lparr>lru_list := (it, k, w) # filter (\<lambda>n. fst (snd n) \<noteq> k) (lru_list c)\<rparr>)"
proof -
  let ?xs = "lru_list c"
  have d1: "distinct (map fst ?xs)" and d2: "distinct (map (\<lambda>n. fst (snd n)) ?xs)"
    and la: "list_all (\<lambda>n. lru_map c (fst (snd n)) = Some (fst n) \<and> fst n < lru_fresh c) ?xs"
    and dm: "dom (lru_map c) = set (map (\<lambda>n. fst (snd n)) ?xs)"
    and len: "length ?xs \<le> capacity c" "0 < capacity c"
    using inv by (simp_all add: lru_inv_def lru_keys_def)
  have e: "filter (\<lambda>n. fst (snd n) \<noteq> k) ?xs = filter (\<lambda>n. fst n \<noteq> it) ?xs"
    using erase_by_key[OF inv m] by (simp add: list_erase_def)
  have 1: "distinct (map fst ((it, k, w) # filter (\<lambda>n. fst (snd n) \<noteq> k) ?xs))"
    unfolding e using d1 by (auto simp add: distinct_map_filter)
  have 2: "distinct (map (\<lambda>n. fst (snd n)) ((it, k, w) # filter (\<lambda>n. fst (snd n) \<noteq> k) ?xs))"
    using d2 by (auto simp add: distinct_map_filter)
  have 3: "list_all (\<lambda>n. lru_map c (fst (snd n)) = Some (fst n) \<and> fst n < lru_fresh c)
             ((it, k, w) # filter (\<lambda>n. fst (snd n) \<noteq> k) ?xs)"
    using la m by (auto simp add: list_all_iff)
  have 4: "set (map (\<lambda>n. fst (snd n)) ((it, k, w) # filter (\<lambda>n. fst (snd n) \<noteq> k) ?xs))
           = set (map (\<lambda>n. fst (snd n)) ?xs)"
    using m by (auto simp add: rev_image_eqI)
  have 5: "length ((it, k, w) # filter (\<lambda>n. fst (snd n) \<noteq> k) ?xs) \<le> length ?xs"
  proof -
    have "length (filter (\<lambda>n. fst (snd n) \<noteq> k) ?xs) < length ?xs"
      using m by (intro length_filter_less[of "(it, k, v)"]) auto
    then show ?thesis by simp
  qed
  show ?thesis
    unfolding lru_inv_def lru_keys_def using 1 2 3 4 5 dm len by simp
qed


lemma map_None_iff: "lru_inv c \<Longrightarrow> lru_map c k = None \<longleftrightarrow> k \<notin> set (lru_keys c)"
  by (auto simp add: lru_inv_def dest: domIff[THEN iffD2])

lemma lru_inv_counters [simp]:
  "lru_inv (c\<lparr>hits := h\<rparr>) = lru_inv c" "lru_inv (c\<lparr>misses := m\<rparr>) = lru_inv c"
  "lru_inv (c\<lparr>evict_calls := e\<rparr>) = lru_inv c"
  by (simp_all add: lru_inv_def lru_keys_def)

lemma entries_filter:
  "map snd (filter (\<lambda>n. fst (snd n) \<noteq> k) xs) = del_key k (map snd xs)"
  by (induction xs) (auto simp add: del_key_def)

lemma lru_get_miss:
  assumes "lru_inv c" "lru_map c k = None"
  shows "lru_get k c = Some (None, c\<lparr>misses := misses c + 1\<rparr>)"
  using assms by (simp add: lru_get_def)

lemma lru_get_hit:
  assumes inv: "lru_inv c" and m: "lru_map c k = Some it"
  shows "\<exists>v c'. lru_get k c = Some (Some v, c') \<and> lru_inv c' \<and> capacity c' = capacity c
    \<and> (k, v) \<in> set (lru_entries c) \<and> lru_entries c' = (k, v) # del_key k (lru_entries c)"
proof -
  from node_at_mapped[OF inv m] obtain v where
    n: "node_at it (lru_list c) = Some (it, k, v)" "(it, k, v) \<in> set (lru_list c)" by blast
  let ?c' = "c\<lparr>hits := hits c + 1,
                lru_list := (it, k, v) # filter (\<lambda>n. fst (snd n) \<noteq> k) (lru_list c)\<rparr>"
  have g: "lru_get k c = Some (Some v, ?c')"
    using m n(1) erase_by_key[OF inv n(2)] by (simp add: lru_get_def)
  have i: "lru_inv ?c'" using inv_front[OF inv n(2), of v] by (simp add: lru_inv_def lru_keys_def)
  have e: "(k, v) \<in> set (lru_entries c)" using n(2) by (force simp add: lru_entries_def)
  show ?thesis using g i e by (simp add: lru_entries_def entries_filter)
qed

lemma lru_put_existing:
  assumes inv: "lru_inv c" and m: "lru_map c k = Some it"
  shows "\<exists>c'. lru_put k w c = Some c' \<and> lru_inv c' \<and> capacity c' = capacity c
    \<and> lru_entries c' = (k, w) # del_key k (lru_entries c)"
proof -
  from node_at_mapped[OF inv m] obtain v where
    n: "node_at it (lru_list c) = Some (it, k, v)" "(it, k, v) \<in> set (lru_list c)" by blast
  let ?c' = "c\<lparr>lru_list := (it, k, w) # filter (\<lambda>n. fst (snd n) \<noteq> k) (lru_list c)\<rparr>"
  have g: "lru_put k w c = Some ?c'"
    using m n(1) erase_by_key[OF inv n(2)] by (simp add: lru_put_def)
  show ?thesis using g inv_front[OF inv n(2), of w] by (simp add: lru_entries_def entries_filter)
qed

lemma inv_push:
  assumes d1: "distinct (map fst xs)" and d2: "distinct (map (\<lambda>n. fst (snd n)) xs)"
    and la: "list_all (\<lambda>n. m (fst (snd n)) = Some (fst n) \<and> fst n < f) xs"
    and dm: "dom m = set (map (\<lambda>n. fst (snd n)) xs)"
    and k: "k \<notin> set (map (\<lambda>n. fst (snd n)) xs)"
    and len: "Suc (length xs) \<le> capacity c"
  shows "lru_inv (c\<lparr>lru_list := (f, k, w) # xs, lru_map := m(k \<mapsto> f), lru_fresh := Suc f\<rparr>)"
proof -
  have 1: "f \<notin> fst ` set xs" using la by (auto simp add: list_all_iff)
  have 2: "list_all (\<lambda>n. (m(k \<mapsto> f)) (fst (snd n)) = Some (fst n) \<and> fst n < Suc f) xs"
    using la k by (auto simp add: list_all_iff)
  show ?thesis
    unfolding lru_inv_def lru_keys_def using d1 d2 1 2 dm k len by auto
qed

lemma lru_put_new_room:
  assumes inv: "lru_inv c" and m: "lru_map c k = None" and r: "length (lru_list c) \<noteq> capacity c"
  shows "\<exists>c'. lru_put k w c = Some c' \<and> lru_inv c' \<and> capacity c' = capacity c
    \<and> lru_entries c' = (k, w) # lru_entries c"
proof -
  let ?c' = "c\<lparr>lru_list := (lru_fresh c, k, w) # lru_list c,
                lru_map := (lru_map c)(k \<mapsto> lru_fresh c), lru_fresh := Suc (lru_fresh c)\<rparr>"
  have g: "lru_put k w c = Some ?c'" using m r by (simp add: lru_put_def)
  have k: "k \<notin> set (map (\<lambda>n. fst (snd n)) (lru_list c))"
    using map_None_iff[OF inv, of k] m by (simp add: lru_keys_def)
  have "lru_inv ?c'"
    using inv r k by (intro inv_push) (auto simp add: lru_inv_def lru_keys_def)
  then show ?thesis using g by (simp add: lru_entries_def)
qed

lemma lru_put_new_full:
  assumes inv: "lru_inv c" and m: "lru_map c k = None" and r: "length (lru_list c) = capacity c"
  shows "\<exists>c'. lru_put k w c = Some c' \<and> lru_inv c' \<and> capacity c' = capacity c
    \<and> lru_entries c' = (k, w) # butlast (lru_entries c) \<and> lru_entries c \<noteq> []"
proof -
  let ?xs = "lru_list c"
  have d1: "distinct (map fst ?xs)" and d2: "distinct (map (\<lambda>n. fst (snd n)) ?xs)"
    and la: "list_all (\<lambda>n. lru_map c (fst (snd n)) = Some (fst n) \<and> fst n < lru_fresh c) ?xs"
    and dm: "dom (lru_map c) = set (map (\<lambda>n. fst (snd n)) ?xs)"
    and len: "length ?xs \<le> capacity c" "0 < capacity c"
    using inv by (simp_all add: lru_inv_def lru_keys_def)
  have ne: "?xs \<noteq> []" using r len by auto
  then have sp: "?xs = butlast ?xs @ [last ?xs]" by simp
  let ?ys = "butlast ?xs" and ?l = "last ?xs"
  let ?m1 = "(lru_map c)(fst (snd ?l) := None)"
  let ?c' = "c\<lparr>evict_calls := (if evict_cb c then evict_calls c @ [snd ?l] else evict_calls c),
                lru_list := (lru_fresh c, k, w) # ?ys,
                lru_map := ?m1(k \<mapsto> lru_fresh c), lru_fresh := Suc (lru_fresh c)\<rparr>"
  have g: "lru_put k w c = Some ?c'" using m r ne by (simp add: lru_put_def Let_def)
  have k: "k \<notin> set (map (\<lambda>n. fst (snd n)) ?xs)"
    using map_None_iff[OF inv, of k] m by (simp add: lru_keys_def)
  have dd1: "distinct (map fst (?ys @ [?l]))" and dd2: "distinct (map (\<lambda>n. fst (snd n)) (?ys @ [?l]))"
    and lla: "list_all (\<lambda>n. lru_map c (fst (snd n)) = Some (fst n) \<and> fst n < lru_fresh c) (?ys @ [?l])"
    and ddm: "dom (lru_map c) = set (map (\<lambda>n. fst (snd n)) (?ys @ [?l]))"
    and kk: "k \<notin> set (map (\<lambda>n. fst (snd n)) (?ys @ [?l]))"
    using d1 d2 la dm k sp by simp_all
  have a1: "distinct (map fst ?ys)" and a2: "distinct (map (\<lambda>n. fst (snd n)) ?ys)"
    using dd1 dd2 by simp_all
  have nl: "fst (snd ?l) \<notin> set (map (\<lambda>n. fst (snd n)) ?ys)" using dd2 by simp
  have a3: "list_all (\<lambda>n. ?m1 (fst (snd n)) = Some (fst n) \<and> fst n < lru_fresh c) ?ys"
    unfolding list_all_iff
  proof
    fix n assume n: "n \<in> set ?ys"
    then have "fst (snd n) \<in> set (map (\<lambda>n. fst (snd n)) ?ys)" by simp
    with nl have "fst (snd n) \<noteq> fst (snd ?l)" by metis
    moreover have "lru_map c (fst (snd n)) = Some (fst n) \<and> fst n < lru_fresh c"
      using lla n by (simp add: list_all_iff)
    ultimately show "?m1 (fst (snd n)) = Some (fst n) \<and> fst n < lru_fresh c" by simp
  qed
  have a4: "dom ?m1 = set (map (\<lambda>n. fst (snd n)) ?ys)"
    using ddm nl by auto
  have a5: "k \<notin> set (map (\<lambda>n. fst (snd n)) ?ys)" using kk by simp
  have a6: "Suc (length ?ys) \<le> capacity c" using r len(2) by simp
  have "lru_inv (c\<lparr>evict_calls := (if evict_cb c then evict_calls c @ [snd ?l] else evict_calls c)\<rparr>
            \<lparr>lru_list := (lru_fresh c, k, w) # ?ys,
             lru_map := ?m1(k \<mapsto> lru_fresh c), lru_fresh := Suc (lru_fresh c)\<rparr>)"
    using a1 a2 a3 a4 a5 a6 by (intro inv_push) simp_all
  then have "lru_inv ?c'" by simp
  then show ?thesis using g ne by (simp add: lru_entries_def map_butlast)
qed

lemma lru_evict_present:
  assumes inv: "lru_inv c" and m: "lru_map c k = Some it"
  shows "\<exists>c'. lru_evict k c = Some (True, c') \<and> lru_inv c' \<and> capacity c' = capacity c
    \<and> lru_entries c' = del_key k (lru_entries c)"
proof -
  from node_at_mapped[OF inv m] obtain v where
    n: "node_at it (lru_list c) = Some (it, k, v)" "(it, k, v) \<in> set (lru_list c)" by blast
  let ?xs = "lru_list c"
  let ?c' = "c\<lparr>lru_list := filter (\<lambda>n. fst (snd n) \<noteq> k) ?xs, lru_map := (lru_map c)(k := None)\<rparr>"
  have g: "lru_evict k c = Some (True, ?c')"
    using m n(1) erase_by_key[OF inv n(2)] by (simp add: lru_evict_def)
  have d1: "distinct (map fst ?xs)" and d2: "distinct (map (\<lambda>n. fst (snd n)) ?xs)"
    and la: "list_all (\<lambda>n. lru_map c (fst (snd n)) = Some (fst n) \<and> fst n < lru_fresh c) ?xs"
    and dm: "dom (lru_map c) = set (map (\<lambda>n. fst (snd n)) ?xs)"
    and len: "length ?xs \<le> capacity c" "0 < capacity c"
    using inv by (simp_all add: lru_inv_def lru_keys_def)
  have "length (filter (\<lambda>n. fst (snd n) \<noteq> k) ?xs) \<le> length ?xs" by simp
  then have l: "length (filter (\<lambda>n. fst (snd n) \<noteq> k) ?xs) \<le> capacity c" using len by linarith
  have "lru_inv ?c'"
    unfolding lru_inv_def lru_keys_def using d1 d2 la dm l len(2)
    by (auto simp add: distinct_map_filter list_all_iff)
  then show ?thesis using g by (simp add: lru_entries_def entries_filter)
qed

lemma lru_evict_absent:
  "lru_map c k = None \<Longrightarrow> lru_evict k c = Some (False, c)"
  by (simp add: lru_evict_def)


lemma keys_entries: "lru_keys c = map fst (lru_entries c)"
  by (simp add: lru_keys_def lru_entries_def)

lemma keys_del_key: "map fst (del_key k es) = filter (\<lambda>j. j \<noteq> k) (map fst es)"
  by (induction es) (auto simp add: del_key_def)

text \<open>What one call does to the list of keys: the key of a hit or of a \<^verbatim>\<open>put\<close> moves to the
  front, and the rest keeps its order, without the entries that were erased.\<close>

lemma lru_apply_keys:
  assumes inv: "lru_inv c"
  shows "\<exists>c'. lru_apply x c = Some c' \<and> lru_inv c' \<and> capacity c' = capacity c
    \<and> (case x of
          Get k \<Rightarrow> lru_keys c' = (if k \<in> set (lru_keys c)
                                   then k # filter (\<lambda>j. j \<noteq> k) (lru_keys c) else lru_keys c)
        | Put k v \<Rightarrow> lru_keys c' = (if k \<in> set (lru_keys c)
                                     then k # filter (\<lambda>j. j \<noteq> k) (lru_keys c)
                                     else if length (lru_keys c) = capacity c
                                     then k # butlast (lru_keys c) else k # lru_keys c)
        | Evict k \<Rightarrow> lru_keys c' = filter (\<lambda>j. j \<noteq> k) (lru_keys c))"
proof (cases x)
  case (Get k)
  show ?thesis
  proof (cases "lru_map c k")
    case None
    then have "k \<notin> set (lru_keys c)" using map_None_iff[OF inv, of k] by simp
    moreover have "lru_keys (c\<lparr>misses := misses c + 1\<rparr>) = lru_keys c" by (simp add: lru_keys_def)
    ultimately show ?thesis using Get inv lru_get_miss[OF inv None] by simp
  next
    case (Some it)
    then have m: "k \<in> set (lru_keys c)" using map_None_iff[OF inv, of k] by simp
    from lru_get_hit[OF inv Some] obtain v c' where
      a: "lru_get k c = Some (Some v, c')" "lru_inv c'" "capacity c' = capacity c"
      and e: "lru_entries c' = (k, v) # del_key k (lru_entries c)" by blast
    have "lru_keys c' = k # filter (\<lambda>j. j \<noteq> k) (lru_keys c)"
      by (simp add: keys_entries e keys_del_key)
    then show ?thesis using Get a m by simp
  qed
next
  case (Put k v)
  have len: "length (lru_keys c) = length (lru_list c)" by (simp add: lru_keys_def)
  show ?thesis
  proof (cases "lru_map c k")
    case None
    then have m: "k \<notin> set (lru_keys c)" using map_None_iff[OF inv, of k] by simp
    show ?thesis
    proof (cases "length (lru_list c) = capacity c")
      case True
      from lru_put_new_full[OF inv None True, of v] obtain c' where
        a: "lru_put k v c = Some c'" "lru_inv c'" "capacity c' = capacity c"
        and e: "lru_entries c' = (k, v) # butlast (lru_entries c)" by blast
      have "lru_keys c' = k # butlast (lru_keys c)"
        by (simp add: keys_entries e map_butlast)
      then show ?thesis using Put a m True len by simp
    next
      case False
      from lru_put_new_room[OF inv None False, of v] obtain c' where
        a: "lru_put k v c = Some c'" "lru_inv c'" "capacity c' = capacity c"
        and e: "lru_entries c' = (k, v) # lru_entries c" by blast
      have "lru_keys c' = k # lru_keys c" by (simp add: keys_entries e)
      then show ?thesis using Put a m False len by simp
    qed
  next
    case (Some it)
    then have m: "k \<in> set (lru_keys c)" using map_None_iff[OF inv, of k] by simp
    from lru_put_existing[OF inv Some, of v] obtain c' where
      a: "lru_put k v c = Some c'" "lru_inv c'" "capacity c' = capacity c"
      and e: "lru_entries c' = (k, v) # del_key k (lru_entries c)" by blast
    have "lru_keys c' = k # filter (\<lambda>j. j \<noteq> k) (lru_keys c)"
      by (simp add: keys_entries e keys_del_key)
    then show ?thesis using Put a m by simp
  qed
next
  case (Evict k)
  show ?thesis
  proof (cases "lru_map c k")
    case None
    then have "k \<notin> set (lru_keys c)" using map_None_iff[OF inv, of k] by simp
    then have "filter (\<lambda>j. j \<noteq> k) (lru_keys c) = lru_keys c" by (auto simp add: filter_id_conv)
    then show ?thesis using Evict inv lru_evict_absent[OF None] by simp
  next
    case (Some it)
    from lru_evict_present[OF inv Some] obtain c' where
      a: "lru_evict k c = Some (True, c')" "lru_inv c'" "capacity c' = capacity c"
      and e: "lru_entries c' = del_key k (lru_entries c)" by blast
    have "lru_keys c' = filter (\<lambda>j. j \<noteq> k) (lru_keys c)"
      by (simp add: keys_entries e keys_del_key)
    then show ?thesis using Evict a by simp
  qed
qed

lemma sorted_wrt_butlast: "sorted_wrt P xs \<Longrightarrow> sorted_wrt P (butlast xs)"
  by (induction xs) (auto dest: in_set_butlastD)

lemma recency_rest:
  fixes f :: "'k \<Rightarrow> nat"
  assumes "sorted_wrt (\<lambda>a b. f a > f b) ys" "\<forall>j \<in> set ys. f j \<le> n" "\<forall>j \<in> set ys. \<not> t j"
  shows "sorted_wrt (\<lambda>a b. (if t a then Suc n else f a) > (if t b then Suc n else f b)) ys"
    and "\<forall>j \<in> set ys. (if t j then Suc n else f j) \<le> n"
proof -
  show "sorted_wrt (\<lambda>a b. (if t a then Suc n else f a) > (if t b then Suc n else f b)) ys"
    using assms(1)
  proof (rule sorted_wrt_mono_rel[rotated])
    fix a b assume "a \<in> set ys" "b \<in> set ys" "f b < f a"
    then show "(if t b then Suc n else f b) < (if t a then Suc n else f a)"
      using assms(3) by simp
  qed
  show "\<forall>j \<in> set ys. (if t j then Suc n else f j) \<le> n" using assms(2,3) by simp
qed

lemma recency_front:
  fixes f :: "'k \<Rightarrow> nat"
  assumes "sorted_wrt (\<lambda>a b. f a > f b) ys" "\<forall>j \<in> set ys. f j \<le> n" "\<forall>j \<in> set ys. \<not> t j"
    and "t k0"
  shows "sorted_wrt (\<lambda>a b. (if t a then Suc n else f a) > (if t b then Suc n else f b)) (k0 # ys)
    \<and> (\<forall>j \<in> set (k0 # ys). (if t j then Suc n else f j) \<le> Suc n)"
proof -
  note r = recency_rest[OF assms(1,2,3)]
  have "\<forall>j \<in> set ys. (if t j then Suc n else f j) < (if t k0 then Suc n else f k0)"
    using r(2) assms(4) by (simp add: less_Suc_eq_le)
  moreover have "\<forall>j \<in> set ys. (if t j then Suc n else f j) \<le> Suc n"
    using r(2) by (simp add: le_SucI)
  ultimately show ?thesis using r(1) assms(4) by simp
qed

lemma recency_step:
  assumes inv: "lru_inv c"
    and s: "sorted_wrt (\<lambda>a b. f a > f b) (lru_keys c)"
    and b: "\<forall>k \<in> set (lru_keys c). f k \<le> (n::nat)"
  shows "\<exists>c'. lru_apply x c = Some c' \<and> lru_inv c' \<and> capacity c' = capacity c
    \<and> sorted_wrt (\<lambda>a b. (if touches x a then Suc n else f a) > (if touches x b then Suc n else f b))
         (lru_keys c')
    \<and> (\<forall>k \<in> set (lru_keys c'). (if touches x k then Suc n else f k) \<le> Suc n)"
proof -
  from lru_apply_keys[OF inv, of x] obtain c' where
    a: "lru_apply x c = Some c'" "lru_inv c'" "capacity c' = capacity c"
    and k: "(case x of
          Get k \<Rightarrow> lru_keys c' = (if k \<in> set (lru_keys c)
                                   then k # filter (\<lambda>j. j \<noteq> k) (lru_keys c) else lru_keys c)
        | Put k v \<Rightarrow> lru_keys c' = (if k \<in> set (lru_keys c)
                                     then k # filter (\<lambda>j. j \<noteq> k) (lru_keys c)
                                     else if length (lru_keys c) = capacity c
                                     then k # butlast (lru_keys c) else k # lru_keys c)
        | Evict k \<Rightarrow> lru_keys c' = filter (\<lambda>j. j \<noteq> k) (lru_keys c))" by blast
  have fs: "sorted_wrt (\<lambda>a b. f a > f b) (filter P (lru_keys c))" for P
    using s by (rule sorted_wrt_filter)
  have fb: "\<forall>j \<in> set (filter P (lru_keys c)). f j \<le> n" for P using b by simp
  have bs: "sorted_wrt (\<lambda>a b. f a > f b) (butlast (lru_keys c))"
    using s by (rule sorted_wrt_butlast)
  have bb: "\<forall>j \<in> set (butlast (lru_keys c)). f j \<le> n" using b by (auto dest: in_set_butlastD)
  have "sorted_wrt (\<lambda>a b. (if touches x a then Suc n else f a) > (if touches x b then Suc n else f b))
         (lru_keys c')
    \<and> (\<forall>k \<in> set (lru_keys c'). (if touches x k then Suc n else f k) \<le> Suc n)"
  proof (cases x)
    case (Get k0)
    have t: "touches x k0" using Get by (simp add: touches_def)
    show ?thesis
    proof (cases "k0 \<in> set (lru_keys c)")
      case True
      then have ke: "lru_keys c' = k0 # filter (\<lambda>j. j \<noteq> k0) (lru_keys c)" using k Get by simp
      have nt: "\<forall>j \<in> set (filter (\<lambda>j. j \<noteq> k0) (lru_keys c)). \<not> touches x j"
        using Get by (auto simp add: touches_def)
      show ?thesis unfolding ke by (rule recency_front[OF fs fb nt t])
    next
      case False
      then have ke: "lru_keys c' = lru_keys c" using k Get by simp
      have nt: "\<forall>j \<in> set (lru_keys c). \<not> touches x j"
        using Get False by (auto simp add: touches_def)
      show ?thesis unfolding ke using recency_rest[OF s b nt] by (simp add: le_SucI)
    qed
  next
    case (Put k0 v)
    have t: "touches x k0" using Put by (simp add: touches_def)
    show ?thesis
    proof (cases "k0 \<in> set (lru_keys c)")
      case True
      then have ke: "lru_keys c' = k0 # filter (\<lambda>j. j \<noteq> k0) (lru_keys c)" using k Put by simp
      have nt: "\<forall>j \<in> set (filter (\<lambda>j. j \<noteq> k0) (lru_keys c)). \<not> touches x j"
        using Put by (auto simp add: touches_def)
      show ?thesis unfolding ke by (rule recency_front[OF fs fb nt t])
    next
      case False
      show ?thesis
      proof (cases "length (lru_keys c) = capacity c")
        case full: True
        then have ke: "lru_keys c' = k0 # butlast (lru_keys c)" using k Put False by simp
        have nt: "\<forall>j \<in> set (butlast (lru_keys c)). \<not> touches x j"
          using Put False by (auto simp add: touches_def dest: in_set_butlastD)
        show ?thesis unfolding ke by (rule recency_front[OF bs bb nt t])
      next
        case room: False
        then have ke: "lru_keys c' = k0 # lru_keys c" using k Put False by simp
        have nt: "\<forall>j \<in> set (lru_keys c). \<not> touches x j"
          using Put False by (auto simp add: touches_def)
        show ?thesis unfolding ke by (rule recency_front[OF s b nt t])
      qed
    qed
  next
    case (Evict k0)
    then have ke: "lru_keys c' = filter (\<lambda>j. j \<noteq> k0) (lru_keys c)" using k by simp
    have nt: "\<forall>j \<in> set (filter (\<lambda>j. j \<noteq> k0) (lru_keys c)). \<not> touches x j"
      using Evict by (auto simp add: touches_def)
    show ?thesis unfolding ke using recency_rest[OF fs fb nt] by (simp add: le_SucI)
  qed
  with a show ?thesis by blast
qed

lemma run_recency:
  "lru_inv c \<Longrightarrow> sorted_wrt (\<lambda>a b. f a > f b) (lru_keys c)
   \<Longrightarrow> \<forall>k \<in> set (lru_keys c). f k \<le> (n::nat)
   \<Longrightarrow> \<exists>c'. lru_run xs c = Some c' \<and> lru_inv c' \<and> capacity c' = capacity c
        \<and> sorted_wrt (\<lambda>a b. touch_from n f xs a > touch_from n f xs b) (lru_keys c')"
proof (induction xs arbitrary: c f n)
  case Nil
  then show ?case by simp
next
  case (Cons x xs)
  from recency_step[OF Cons.prems, of x] obtain c1 where
    a: "lru_apply x c = Some c1" "lru_inv c1" "capacity c1 = capacity c"
    "sorted_wrt (\<lambda>a b. (if touches x a then Suc n else f a) > (if touches x b then Suc n else f b))
         (lru_keys c1)"
    "\<forall>k \<in> set (lru_keys c1). (if touches x k then Suc n else f k) \<le> Suc n" by blast
  from Cons.IH[OF a(2,4,5)] a(1,3) show ?case by simp
qed

lemma lru_new_inv: "LRUCache_new cap = Inr c \<Longrightarrow> lru_inv c \<and> capacity c = cap \<and> lru_list c = []"
  by (auto simp add: LRUCache_new_def lru_inv_def lru_keys_def split: if_splits)


lemma sorted_wrt_last:
  "sorted_wrt P xs \<Longrightarrow> xs \<noteq> [] \<Longrightarrow> list_all (\<lambda>j. P j (last xs)) (butlast xs)"
  by (induction xs) (auto simp add: list_all_iff dest: in_set_butlastD)

text \<open>Claim C4. For a cache built with capacity \<^verbatim>\<open>cap\<close> and any sequence of \<^verbatim>\<open>get\<close>, \<^verbatim>\<open>put\<close>
  and \<^verbatim>\<open>evict\<close> calls: every call returns, and afterwards \<^verbatim>\<open>size()\<close> is at most \<^verbatim>\<open>cap\<close>. A
  \<^verbatim>\<open>put\<close> of a key that is not in the cache while \<^verbatim>\<open>size()\<close> equals \<^verbatim>\<open>cap\<close> removes exactly one
  entry, the last of the list, keeps the others in their order behind the new entry, and the
  key of the removed entry is the one least recently touched by a \<^verbatim>\<open>get\<close> or a \<^verbatim>\<open>put\<close>: every
  other key of the cache was touched later. With capacity 3, after put 1, put 2, put 3, get 1
  and put 4 the keys are 4, 1, 3: key 2 was evicted.\<close>

theorem C4_lru_capacity_eviction:
  assumes "LRUCache_new cap = Inr (c0 :: ('k, 'v) LRUCache)"
  shows "(\<exists>c. lru_run ops c0 = Some c \<and> lru_size c \<le> cap
      \<and> (\<not> lru_contains k c \<and> lru_size c = cap \<longrightarrow>
           (\<exists>c'. lru_put k v c = Some c' \<and> lru_size c' = cap
              \<and> lru_entries c' = (k, v) # butlast (lru_entries c)
              \<and> list_all (\<lambda>j. touch_time ops (last (lru_keys c)) < touch_time ops j)
                   (butlast (lru_keys c)))))
    \<and> (\<forall>c3 :: (int, 'v) LRUCache. LRUCache_new 3 = Inr c3 \<longrightarrow>
          map_option lru_keys (lru_run [Put 1 v1, Put 2 v2, Put 3 v3, Get 1, Put 4 v4] c3)
            = Some [4, 1, 3])"
proof
  note n = lru_new_inv[OF assms]
  have s0: "sorted_wrt (\<lambda>a b. (0::nat) > 0) (lru_keys c0)"
    and b0: "\<forall>j \<in> set (lru_keys c0). (0::nat) \<le> 0"
    using n by (simp_all add: lru_keys_def)
  from run_recency[of c0 "\<lambda>j. 0" 0 ops, OF _ s0 b0] n obtain c where
    c: "lru_run ops c0 = Some c" "lru_inv c" "capacity c = cap"
    and s: "sorted_wrt (\<lambda>a b. touch_time ops a > touch_time ops b) (lru_keys c)"
    unfolding touch_time_def by auto
  have sz: "lru_size c \<le> cap" using c(2,3) by (auto simp add: lru_inv_def lru_size_def)
  have "\<exists>c'. lru_put k v c = Some c' \<and> lru_size c' = cap
              \<and> lru_entries c' = (k, v) # butlast (lru_entries c)
              \<and> list_all (\<lambda>j. touch_time ops (last (lru_keys c)) < touch_time ops j)
                   (butlast (lru_keys c))"
    if h: "\<not> lru_contains k c \<and> lru_size c = cap"
  proof -
    from h have m: "lru_map c k = None" and f: "length (lru_list c) = capacity c"
      using c(3) by (simp_all add: lru_contains_def lru_size_def)
    from lru_put_new_full[OF c(2) m f, of v] obtain c' where
      p: "lru_put k v c = Some c'" "lru_inv c'" "capacity c' = capacity c"
      "lru_entries c' = (k, v) # butlast (lru_entries c)" "lru_entries c \<noteq> []" by blast
    have ne: "lru_keys c \<noteq> []" using p(5) by (simp add: keys_entries)
    have "length (lru_entries c') = length (lru_entries c)" using p(4,5) by simp
    then have "lru_size c' = cap" using f c(3) by (simp add: lru_size_def lru_entries_def)
    then show ?thesis using p(1,4) sorted_wrt_last[OF s ne] by simp
  qed
  with c(1) sz
  show "\<exists>c. lru_run ops c0 = Some c \<and> lru_size c \<le> cap
      \<and> (\<not> lru_contains k c \<and> lru_size c = cap \<longrightarrow>
           (\<exists>c'. lru_put k v c = Some c' \<and> lru_size c' = cap
              \<and> lru_entries c' = (k, v) # butlast (lru_entries c)
              \<and> list_all (\<lambda>j. touch_time ops (last (lru_keys c)) < touch_time ops j)
                   (butlast (lru_keys c))))" by blast
  show "\<forall>c3 :: (int, 'v) LRUCache. LRUCache_new 3 = Inr c3 \<longrightarrow>
          map_option lru_keys (lru_run [Put 1 v1, Put 2 v2, Put 3 v3, Get 1, Put 4 v4] c3)
            = Some [4, 1, 3]"
    by (simp add: LRUCache_new_def lru_defs Let_def)
qed

theorem C4_lru_capacity_eviction_witness:
  "\<exists>c0 c :: (int, int) LRUCache. LRUCache_new 3 = Inr c0
     \<and> lru_run [Put 1 10, Put 2 20, Put 3 30, Get 1] c0 = Some c
     \<and> lru_entries c = [(1, 10), (3, 30), (2, 20)] \<and> lru_size c = 3 \<and> \<not> lru_contains 4 c
     \<and> (\<exists>c'. lru_put 4 40 c = Some c' \<and> lru_size c' = 3
           \<and> lru_entries c' = [(4, 40), (1, 10), (3, 30)])
     \<and> map (touch_time [Put 1 10, Put 2 20, Put 3 30, Get (1::int) :: (int, int) lru_op])
          [1, 3, 2] = [4, 3, 2]
     \<and> map_option lru_keys (lru_run [Put 1 10, Put 2 20, Put 3 30, Get 1, Put 4 40] c0)
          = Some [4, 1, 3]"
  using C4_lru_capacity_eviction[of 3
      "\<lparr>capacity = 3, lru_list = [], lru_map = Map.empty, lru_fresh = 0,
        evict_cb = False, evict_calls = [], hits = 0, misses = 0\<rparr> :: (int, int) LRUCache"
      "[Put 1 10, Put 2 20, Put 3 30, Get 1]" 4 40 10 20 30 40]
  by (simp add: LRUCache_new_def lru_defs lru_contains_def Let_def touch_time_def touches_def)

section \<open>B+ tree: the unfolded tree and its order\<close>

lemma leaf_pairs_append [simp]: "leaf_pairs (xs @ ys) = leaf_pairs xs @ leaf_pairs ys"
  by (simp add: leaf_pairs_def)

lemma leaf_pairs_simps [simp]:
  "leaf_pairs [] = []" "leaf_pairs (l # ls) = fst (snd l) @ leaf_pairs ls"
  by (simp_all add: leaf_pairs_def)

lemma leaf_pairs_concat: "leaf_pairs (concat (map leaves ts)) = concat (map pairs ts)"
  by (induction ts) (simp_all add: pairs_def)

lemma pairs_simps [simp]:
  "pairs (ALeaf a kvs nxt) = kvs"
  "pairs (ANode a ks ts) = concat (map pairs ts)"
  by (simp_all add: pairs_def leaf_pairs_concat)

lemma leaf_lookup_map_of: "leaf_lookup kvs key = map_of kvs key"
  by (induction kvs) auto

lemma lower_ok_trans: "lower_ok lo k \<Longrightarrow> k \<le> x \<Longrightarrow> lower_ok lo x"
  by (auto simp add: lower_ok_def split: option.splits)

lemma upper_ok_trans: "x < k \<Longrightarrow> upper_le k hi \<Longrightarrow> upper_ok x hi"
  by (auto simp add: upper_ok_def upper_le_def split: option.splits)

lemma ordered_bounds:
  fixes t :: "('k::linorder, 'v) atree" and ts :: "('k, 'v) atree list"
  shows "ordered lo hi t \<Longrightarrow> \<forall>x \<in> fst ` set (pairs t). lower_ok lo x \<and> upper_ok x hi"
    and "ordered_list lo hi ks ts
      \<Longrightarrow> \<forall>x \<in> fst ` set (concat (map pairs ts)). lower_ok lo x \<and> upper_ok x hi"
proof (induction lo hi t and lo hi ks ts rule: ordered_ordered_list.induct)
  case (1 lo hi a kvs nxt)
  then show ?case by (auto simp add: list_all_iff)
next
  case (2 lo hi a ks ts)
  then show ?case by simp
next
  case (3 lo hi ts)
  then show ?case by (auto split: list.splits)
next
  case (4 lo hi k ks ts)
  from "4.prems" obtain t ts' where ts: "ts = t # ts'" and a: "lower_ok lo k" "upper_le k hi"
    and o: "ordered lo (Some k) t" "ordered_list (Some k) hi ks ts'"
    by (auto split: list.splits)
  have 1: "\<forall>x \<in> fst ` set (pairs t). lower_ok lo x \<and> upper_ok x (Some k)"
    using "4.IH"(1)[OF ts] a o by simp
  have 2: "\<forall>x \<in> fst ` set (concat (map pairs ts')). lower_ok (Some k) x \<and> upper_ok x hi"
    using "4.IH"(2)[OF ts] a o by simp
  have "lower_ok lo x \<and> upper_ok x hi" if "x \<in> fst ` set (pairs t)" for x
    using 1 that a(2) by (auto simp add: upper_ok_def intro: upper_ok_trans[unfolded upper_ok_def])
  moreover have "lower_ok lo x \<and> upper_ok x hi" if "x \<in> fst ` set (concat (map pairs ts'))" for x
    using 2 that a(1) by (auto simp add: lower_ok_def intro: lower_ok_trans[unfolded lower_ok_def])
  ultimately show ?case unfolding ts by (simp add: image_Un) blast
qed


lemma ordered_sorted:
  fixes t :: "('k::linorder, 'v) atree" and ts :: "('k, 'v) atree list"
  shows "ordered lo hi t \<Longrightarrow> sorted_wrt (<) (map fst (pairs t))"
    and "ordered_list lo hi ks ts \<Longrightarrow> sorted_wrt (<) (map fst (concat (map pairs ts)))"
proof (induction lo hi t and lo hi ks ts rule: ordered_ordered_list.induct)
  case (1 lo hi a kvs nxt)
  then show ?case by simp
next
  case (2 lo hi a ks ts)
  then show ?case by simp
next
  case (3 lo hi ts)
  then show ?case by (auto split: list.splits)
next
  case (4 lo hi k ks ts)
  from "4.prems" obtain t ts' where ts: "ts = t # ts'" and a: "lower_ok lo k" "upper_le k hi"
    and o: "ordered lo (Some k) t" "ordered_list (Some k) hi ks ts'"
    by (auto split: list.splits)
  have 1: "sorted_wrt (<) (map fst (pairs t))" using "4.IH"(1)[OF ts] o by simp
  have 2: "sorted_wrt (<) (map fst (concat (map pairs ts')))" using "4.IH"(2)[OF ts] o by simp
  have 3: "\<forall>x \<in> fst ` set (pairs t). x < k"
    using ordered_bounds(1)[OF o(1)] by (simp add: upper_ok_def)
  have 4: "\<forall>y \<in> fst ` set (concat (map pairs ts')). k \<le> y"
    using ordered_bounds(2)[OF o(2)] by (simp add: lower_ok_def)
  have "\<forall>x \<in> set (map fst (pairs t)). \<forall>y \<in> set (map fst (concat (map pairs ts'))). x < y"
    using 3 4 by fastforce
  then show ?case unfolding ts using 1 2 by (simp add: sorted_wrt_append)
qed

lemma map_of_skip:
  "key \<notin> fst ` set xs \<Longrightarrow> map_of (xs @ ys) key = map_of ys key"
  by (simp add: map_add_def map_of_eq_None_iff[THEN iffD2] split: option.splits)

lemma map_of_stop:
  "key \<notin> fst ` set ys \<Longrightarrow> map_of (xs @ ys) key = map_of xs key"
  by (simp add: map_add_def map_of_eq_None_iff[THEN iffD2] split: option.splits)

text \<open>The leaf reached by the upper-bound descent is the only one that can hold the key.\<close>

lemma adescend_ub_lookup:
  fixes t :: "('k::linorder, 'v) atree" and ts :: "('k, 'v) atree list"
  shows "ordered lo hi t \<Longrightarrow> map_of (fst (snd (adescend_ub t key))) key = map_of (pairs t) key"
    and "ordered_list lo hi ks ts
      \<Longrightarrow> map_of (fst (snd (adescend_ub_list ks ts key))) key = map_of (concat (map pairs ts)) key"
proof (induction t key and ks ts key arbitrary: lo hi and lo hi
    rule: adescend_ub_adescend_ub_list.induct)
  case (1 a kvs nxt key)
  then show ?case by simp
next
  case (2 a ks ts key)
  then show ?case by simp
next
  case (3 ks key)
  then show ?case by simp
next
  case (4 t ts key)
  then show ?case by (auto split: list.splits)
next
  case (5 k ks t ts key)
  from "5.prems" have a: "lower_ok lo k" "upper_le k hi"
    and o: "ordered lo (Some k) t" "ordered_list (Some k) hi ks ts" by auto
  have l: "\<forall>x \<in> fst ` set (pairs t). x < k"
    using ordered_bounds(1)[OF o(1)] by (simp add: upper_ok_def)
  have r: "\<forall>y \<in> fst ` set (concat (map pairs ts)). k \<le> y"
    using ordered_bounds(2)[OF o(2)] by (simp add: lower_ok_def)
  show ?case
  proof (cases "key \<ge> k")
    case True
    then have "key \<notin> fst ` set (pairs t)" using l by auto
    then have "map_of (pairs t @ concat (map pairs ts)) key = map_of (concat (map pairs ts)) key"
      by (rule map_of_skip)
    then show ?thesis using True "5.IH"(1)[OF True o(2)] by (simp del: map_of_append)
  next
    case False
    then have "key \<notin> fst ` set (concat (map pairs ts))" using r by auto
    then have "map_of (pairs t @ concat (map pairs ts)) key = map_of (pairs t) key"
      by (rule map_of_stop)
    then show ?thesis using False "5.IH"(2)[OF False o(1)] by (simp del: map_of_append)
  qed
qed

text \<open>The recursion over the keys of a node picks the child the index loop picks.\<close>

lemma upper_bound_idx_le: "upper_bound_idx ks key \<le> length ks"
  by (induction ks) auto

lemma lower_bound_idx_le: "lower_bound_idx ks key \<le> length ks"
  by (induction ks) auto

lemma adescend_ub_list_nth:
  "length ts = Suc (length ks)
   \<Longrightarrow> adescend_ub_list ks ts key = adescend_ub (ts ! upper_bound_idx ks key) key"
proof (induction ks arbitrary: ts)
  case Nil
  then show ?case by (cases ts) auto
next
  case (Cons k ks)
  then show ?case by (cases ts) auto
qed

lemma descend_ub_repr:
  "repr h t \<Longrightarrow> shape ord t
   \<Longrightarrow> descend_ub h (raddr t) key = Some (fst (adescend_ub t key))
       \<and> h (fst (adescend_ub t key))
           = Some (LeafN (fst (snd (adescend_ub t key))) (snd (snd (adescend_ub t key))))"
proof (induction t)
  case (ALeaf a kvs nxt)
  then show ?case by (subst descend_ub.simps) simp
next
  case (ANode a ks ts)
  let ?i = "upper_bound_idx ks key"
  from ANode.prems have h: "h a = Some (InternalN ks (map raddr ts))"
    and len: "length ts = Suc (length ks)"
    and all: "list_all (repr h) ts" "list_all (shape ord) ts" by simp_all
  have i: "?i < length ts" using upper_bound_idx_le[of ks key] len by simp
  then have m: "ts ! ?i \<in> set ts" by simp
  have c: "repr h (ts ! ?i)" "shape ord (ts ! ?i)" using all m by (simp_all add: list_all_iff)
  have "descend_ub h a key = descend_ub h (raddr (ts ! ?i)) key"
    by (subst descend_ub.simps) (simp add: h i Let_def)
  then show ?case using ANode.IH[OF m c] adescend_ub_list_nth[OF len, of key] by simp
qed

section \<open>B+ tree: replacing the pairs of the leaf a key belongs to\<close>

lemma raddr_areplace [simp]: "raddr (areplace t key kvs') = raddr t"
  by (cases t) simp_all

lemma areplace_list_facts:
  "length ts = Suc (length ks)
   \<Longrightarrow> areplace_list ks ts key kvs'
       = ts[upper_bound_idx ks key := areplace (ts ! upper_bound_idx ks key) key kvs']"
proof (induction ks arbitrary: ts)
  case Nil
  then show ?case by (cases ts) auto
next
  case (Cons k ks)
  then show ?case by (cases ts) auto
qed

lemma addrs_areplace:
  "shape ord t \<Longrightarrow> addrs (areplace t key kvs') = addrs t"
proof (induction t)
  case (ALeaf a kvs nxt)
  then show ?case by simp
next
  case (ANode a ks ts)
  let ?i = "upper_bound_idx ks key"
  from ANode.prems have len: "length ts = Suc (length ks)" and sh: "list_all (shape ord) ts"
    by simp_all
  have "map addrs (ts[?i := areplace (ts ! ?i) key kvs']) = map addrs ts"
  proof (rule nth_equalityI)
    show "length (map addrs (ts[?i := areplace (ts ! ?i) key kvs'])) = length (map addrs ts)"
      by simp
    fix j assume "j < length (map addrs (ts[?i := areplace (ts ! ?i) key kvs']))"
    then have j: "j < length ts" by simp
    then have "ts ! j \<in> set ts" by simp
    then show "map addrs (ts[?i := areplace (ts ! ?i) key kvs']) ! j = map addrs ts ! j"
      using j ANode.IH[of "ts ! j"] sh by (cases "j = ?i") (simp_all add: list_all_iff)
  qed
  then show ?case by (simp add: areplace_list_facts[OF len])
qed

lemma shape_areplace:
  "shape ord t \<Longrightarrow> length kvs' < ord \<Longrightarrow> shape ord (areplace t key kvs')"
proof (induction t)
  case (ALeaf a kvs nxt)
  then show ?case by simp
next
  case (ANode a ks ts)
  let ?i = "upper_bound_idx ks key"
  from ANode.prems have len: "length ts = Suc (length ks)" and sh: "list_all (shape ord) ts"
    and k: "ks \<noteq> []" "length ks < ord" by simp_all
  have i: "?i < length ts" using upper_bound_idx_le[of ks key] len by simp
  then have "shape ord (areplace (ts ! ?i) key kvs')"
    using ANode.IH[of "ts ! ?i"] sh ANode.prems(2) by (simp add: list_all_iff)
  then have "list_all (shape ord) (ts[?i := areplace (ts ! ?i) key kvs'])"
    using sh by (auto simp add: list_all_iff dest!: set_update_subset_insert[THEN subsetD])
  then show ?case using k len by (simp add: areplace_list_facts[OF len])
qed

text \<open>Only the pairs of one leaf change: addresses and \<^verbatim>\<open>next_leaf\<close> pointers stay.\<close>

lemma links_simps [simp]:
  "links [] = []" "links (l # ls) = (fst l, snd (snd l)) # links ls"
  "links (xs @ ys) = links xs @ links ys"
  by (simp_all add: links_def)

lemma linked_links: "links ls = links ls' \<Longrightarrow> linked ls e = linked ls' e"
proof (induction ls e arbitrary: ls' rule: linked.induct)
  case (1 e)
  then show ?case by (cases ls') simp_all
next
  case (2 l e)
  then show ?case by (cases ls') (auto simp add: links_def)
next
  case (3 l l' ls e)
  from "3.prems" obtain m m' ms where ls': "ls' = m # m' # ms"
    by (cases ls'; cases "tl ls'") (auto simp add: links_def)
  with "3.prems" have "links (l' # ls) = links (m' # ms)" by simp
  from "3.IH"[OF this] "3.prems" ls' show ?case by simp
qed

lemma concat_map_update:
  "i < length ts
   \<Longrightarrow> concat (map f (ts[i := x]))
       = concat (map f (take i ts)) @ f x @ concat (map f (drop (Suc i) ts))"
  by (simp add: upd_conv_take_nth_drop)

lemma concat_map_nth:
  assumes "i < length ts"
  shows "concat (map f ts) = concat (map f (take i ts)) @ f (ts ! i) @ concat (map f (drop (Suc i) ts))"
proof -
  have "ts[i := ts ! i] = ts" by simp
  then have "concat (map f ts) = concat (map f (ts[i := ts ! i]))" by simp
  also have "\<dots> = concat (map f (take i ts)) @ f (ts ! i) @ concat (map f (drop (Suc i) ts))"
    using assms by (rule concat_map_update)
  finally show ?thesis .
qed

lemma links_areplace:
  "shape ord t \<Longrightarrow> links (leaves (areplace t key kvs')) = links (leaves t)"
proof (induction t)
  case (ALeaf a kvs nxt)
  then show ?case by simp
next
  case (ANode a ks ts)
  let ?i = "upper_bound_idx ks key"
  from ANode.prems have len: "length ts = Suc (length ks)" and sh: "list_all (shape ord) ts"
    by simp_all
  have i: "?i < length ts" using upper_bound_idx_le[of ks key] len by simp
  then have m: "ts ! ?i \<in> set ts" by simp
  have e: "links (leaves (areplace (ts ! ?i) key kvs')) = links (leaves (ts ! ?i))"
    using ANode.IH[OF m] sh m by (simp add: list_all_iff)
  have "links (concat (map leaves (ts[?i := areplace (ts ! ?i) key kvs'])))
      = links (concat (map leaves ts))"
    unfolding concat_map_update[OF i] concat_map_nth[OF i, of leaves] using e by simp
  then show ?case by (simp add: areplace_list_facts[OF len])
qed

lemma map_of_areplace:
  fixes t :: "('k::linorder, 'v) atree" and ts :: "('k, 'v) atree list"
  shows "ordered lo hi t \<Longrightarrow> k' \<noteq> key \<longrightarrow> map_of kvs' k' = map_of (fst (snd (adescend_ub t key))) k'
      \<Longrightarrow> map_of (pairs (areplace t key kvs')) k'
          = (if k' = key then map_of kvs' key else map_of (pairs t) k')"
    and "ordered_list lo hi ks ts
      \<Longrightarrow> k' \<noteq> key \<longrightarrow> map_of kvs' k' = map_of (fst (snd (adescend_ub_list ks ts key))) k'
      \<Longrightarrow> map_of (concat (map pairs (areplace_list ks ts key kvs'))) k'
          = (if k' = key then map_of kvs' key else map_of (concat (map pairs ts)) k')"
proof (induction t key and ks ts key arbitrary: lo hi and lo hi
    rule: adescend_ub_adescend_ub_list.induct)
  case (1 a kvs nxt key)
  then show ?case by simp
next
  case (2 a ks ts key)
  then show ?case by simp
next
  case (3 ks key)
  then show ?case by (cases ks) simp_all
next
  case (4 t ts key)
  then show ?case by (auto split: list.splits)
next
  case (5 k ks t ts key)
  from "5.prems"(1) have o: "ordered lo (Some k) t" "ordered_list (Some k) hi ks ts" by auto
  have l: "\<forall>x \<in> fst ` set (pairs t). x < k"
    using ordered_bounds(1)[OF o(1)] by (simp add: upper_ok_def)
  have r: "\<forall>y \<in> fst ` set (concat (map pairs ts)). k \<le> y"
    using ordered_bounds(2)[OF o(2)] by (simp add: lower_ok_def)
  show ?case
  proof (cases "key \<ge> k")
    case True
    then have n: "map_of (pairs t) key = None" using l by (auto simp add: map_of_eq_None_iff)
    have ih: "map_of (concat (map pairs (areplace_list ks ts key kvs'))) k'
        = (if k' = key then map_of kvs' key else map_of (concat (map pairs ts)) k')"
      using "5.IH"(1)[OF True o(2)] "5.prems"(2) True by simp
    show ?thesis using True ih n by (auto simp add: map_add_def split: option.splits)
  next
    case False
    then have n: "map_of (concat (map pairs ts)) key = None"
      using r by (auto simp add: map_of_eq_None_iff simp del: set_concat)
    have ih: "map_of (pairs (areplace t key kvs')) k'
        = (if k' = key then map_of kvs' key else map_of (pairs t) k')"
      using "5.IH"(2)[OF False o(1)] "5.prems"(2) False by simp
    show ?thesis using False ih n by (auto simp add: map_add_def split: option.splits)
  qed
qed

lemma ordered_areplace:
  fixes t :: "('k::linorder, 'v) atree" and ts :: "('k, 'v) atree list"
  shows "ordered lo hi t \<Longrightarrow> sorted_wrt (<) (map fst kvs')
      \<Longrightarrow> set (map fst kvs') \<subseteq> set (map fst (fst (snd (adescend_ub t key))))
      \<Longrightarrow> ordered lo hi (areplace t key kvs')"
    and "ordered_list lo hi ks ts \<Longrightarrow> sorted_wrt (<) (map fst kvs')
      \<Longrightarrow> set (map fst kvs') \<subseteq> set (map fst (fst (snd (adescend_ub_list ks ts key))))
      \<Longrightarrow> ordered_list lo hi ks (areplace_list ks ts key kvs')"
proof (induction t key and ks ts key arbitrary: lo hi and lo hi
    rule: adescend_ub_adescend_ub_list.induct)
  case (1 a kvs nxt key)
  from "1.prems"(1) have b: "\<forall>x \<in> set (map fst kvs). lower_ok lo x \<and> upper_ok x hi"
    by (simp add: list_all_iff)
  have sub: "fst ` set kvs' \<subseteq> fst ` set kvs" using "1.prems"(3) by simp
  have "\<forall>x \<in> set (map fst kvs'). lower_ok lo x \<and> upper_ok x hi"
    using b sub unfolding set_map by blast
  then show ?case using "1.prems"(2) by (simp add: list_all_iff)
next
  case (2 a ks ts key)
  then show ?case by simp
next
  case (3 ks key)
  then show ?case by (cases ks) simp_all
next
  case (4 t ts key)
  from "4.prems"(1) have ts: "ts = []" and o: "ordered lo hi t" by (auto split: list.splits)
  show ?case using "4.IH"[OF o "4.prems"(2)] "4.prems"(3) ts by simp
next
  case (5 k ks t ts key)
  from "5.prems"(1) have a: "lower_ok lo k" "upper_le k hi"
    and o: "ordered lo (Some k) t" "ordered_list (Some k) hi ks ts" by auto
  show ?case
  proof (cases "key \<ge> k")
    case True
    show ?thesis using True a o "5.IH"(1)[OF True o(2) "5.prems"(2)] "5.prems"(3) by simp
  next
    case False
    show ?thesis using False a o "5.IH"(2)[OF False o(1) "5.prems"(2)] "5.prems"(3) by simp
  qed
qed


lemma repr_frame: "repr h t \<Longrightarrow> a \<notin> set (addrs t) \<Longrightarrow> repr (h(a := x)) t"
proof (induction t)
  case (ALeaf b kvs nxt)
  then show ?case by simp
next
  case (ANode b ks ts)
  have "repr (h(a := x)) t" if "t \<in> set ts" for t
  proof -
    from that ANode.prems have "repr h t" "a \<notin> set (addrs t)"
      by (auto simp add: list_all_iff)
    then show ?thesis by (rule ANode.IH[OF that])
  qed
  then have "list_all (repr (h(a := x))) ts" unfolding list_all_iff by blast
  moreover have "(h(a := x)) b = Some (InternalN ks (map raddr ts))" using ANode.prems by simp
  ultimately show ?case unfolding repr.simps by (intro conjI)
qed

lemma leaf_in_addrs: "shape ord t \<Longrightarrow> fst (adescend_ub t key) \<in> set (addrs t)"
proof (induction t)
  case (ALeaf a kvs nxt)
  then show ?case by simp
next
  case (ANode a ks ts)
  let ?i = "upper_bound_idx ks key"
  from ANode.prems have len: "length ts = Suc (length ks)" and sh: "list_all (shape ord) ts"
    by simp_all
  have i: "?i < length ts" using upper_bound_idx_le[of ks key] len by simp
  then have m: "ts ! ?i \<in> set ts" by simp
  have "fst (adescend_ub (ts ! ?i) key) \<in> set (addrs (ts ! ?i))"
    using ANode.IH[OF m] sh m by (simp add: list_all_iff)
  then show ?case using m by (auto simp add: adescend_ub_list_nth[OF len])
qed

lemma distinct_concat_nth:
  "distinct (concat xss) \<Longrightarrow> i < length xss \<Longrightarrow> j < length xss \<Longrightarrow> i \<noteq> j
   \<Longrightarrow> set (xss ! i) \<inter> set (xss ! j) = {}"
proof (induction xss arbitrary: i j)
  case Nil
  then show ?case by simp
next
  case (Cons xs xss)
  show ?case
  proof (cases i)
    case 0
    with Cons.prems obtain j' where "j = Suc j'" "j' < length xss" by (cases j) auto
    then have "xss ! j' \<in> set xss" by simp
    with Cons.prems(1) 0 \<open>j = Suc j'\<close> show ?thesis by auto
  next
    case (Suc i')
    show ?thesis
    proof (cases j)
      case 0
      from Suc Cons.prems have "xss ! i' \<in> set xss" by simp
      with Cons.prems(1) Suc 0 show ?thesis by auto
    next
      case (Suc j')
      with \<open>i = Suc i'\<close> Cons.prems Cons.IH[of i' j'] show ?thesis by simp
    qed
  qed
qed

lemma distinct_concat_nth_self:
  "distinct (concat xss) \<Longrightarrow> i < length xss \<Longrightarrow> distinct (xss ! i)"
  by (induction xss arbitrary: i) (auto simp add: nth_Cons split: nat.splits)

lemma repr_areplace:
  "repr h t \<Longrightarrow> shape ord t \<Longrightarrow> distinct (addrs t)
   \<Longrightarrow> repr (h(fst (adescend_ub t key) \<mapsto> LeafN kvs' (snd (snd (adescend_ub t key)))))
         (areplace t key kvs')"
proof (induction t)
  case (ALeaf a kvs nxt)
  then show ?case by simp
next
  case (ANode a ks ts)
  let ?i = "upper_bound_idx ks key"
  let ?l = "adescend_ub (ts ! ?i) key"
  let ?h = "h(fst ?l \<mapsto> LeafN kvs' (snd (snd ?l)))"
  from ANode.prems have ha: "h a = Some (InternalN ks (map raddr ts))"
    and len: "length ts = Suc (length ks)"
    and all: "list_all (repr h) ts" "list_all (shape ord) ts"
    and d: "a \<notin> set (concat (map addrs ts))" "distinct (concat (map addrs ts))" by simp_all
  have i: "?i < length ts" using upper_bound_idx_le[of ks key] len by simp
  then have m: "ts ! ?i \<in> set ts" by simp
  have c: "repr h (ts ! ?i)" "shape ord (ts ! ?i)" using all m by (simp_all add: list_all_iff)
  have di: "distinct (addrs (ts ! ?i))"
    using distinct_concat_nth_self[OF d(2), of ?i] i by simp
  have la: "fst ?l \<in> set (addrs (ts ! ?i))" using leaf_in_addrs[OF c(2)] .
  then have ne: "fst ?l \<noteq> a" using d(1) m by auto
  have r: "repr ?h (ts[?i := areplace (ts ! ?i) key kvs'] ! j)" if j: "j < length ts" for j
  proof (cases "j = ?i")
    case True
    have "ts[?i := areplace (ts ! ?i) key kvs'] ! j = areplace (ts ! ?i) key kvs'"
      using True i by simp
    then show ?thesis using ANode.IH[OF m c di] by (simp only:)
  next
    case False
    have "set (map addrs ts ! ?i) \<inter> set (map addrs ts ! j) = {}"
      using distinct_concat_nth[OF d(2), of ?i j] i j False by simp
    then have n: "fst ?l \<notin> set (addrs (ts ! j))" using la i j by auto
    have p: "repr h (ts ! j)" using all(1) j by (simp add: list_all_iff)
    have q: "ts[?i := areplace (ts ! ?i) key kvs'] ! j = ts ! j" using False by simp
    show ?thesis unfolding q using p n by (rule repr_frame)
  qed
  have 1: "list_all (repr ?h) (ts[?i := areplace (ts ! ?i) key kvs'])"
    unfolding list_all_length using r by (simp only: length_list_update) blast
  have "(map raddr ts)[?i := map raddr ts ! ?i] = map raddr ts" by (rule list_update_id)
  then have 2: "map raddr (ts[?i := areplace (ts ! ?i) key kvs']) = map raddr ts"
    using i by (simp add: map_update)
  have 3: "?h a = Some (InternalN ks (map raddr ts))" using ha ne by simp
  have e: "adescend_ub (ANode a ks ts) key = ?l" by (simp add: adescend_ub_list_nth[OF len])
  have f: "areplace (ANode a ks ts) key kvs' = ANode a ks (ts[?i := areplace (ts ! ?i) key kvs'])"
    by (simp add: areplace_list_facts[OF len])
  show ?case unfolding e f repr.simps 2 using 1 3 by (intro conjI)
qed

lemma remove_recursive_repr:
  "repr h t \<Longrightarrow> shape ord t
   \<Longrightarrow> remove_recursive h (raddr t) key
       = Some (case leaf_remove (fst (snd (adescend_ub t key))) key of
                 None \<Rightarrow> (h, False)
               | Some kvs' \<Rightarrow>
                   (h(fst (adescend_ub t key) \<mapsto> LeafN kvs' (snd (snd (adescend_ub t key)))), True))"
proof (induction t)
  case (ALeaf a kvs nxt)
  then show ?case by (subst remove_recursive.simps) (simp split: option.splits)
next
  case (ANode a ks ts)
  let ?i = "upper_bound_idx ks key"
  from ANode.prems have h: "h a = Some (InternalN ks (map raddr ts))"
    and len: "length ts = Suc (length ks)"
    and all: "list_all (repr h) ts" "list_all (shape ord) ts" by simp_all
  have i: "?i < length ts" using upper_bound_idx_le[of ks key] len by simp
  then have m: "ts ! ?i \<in> set ts" by simp
  have c: "repr h (ts ! ?i)" "shape ord (ts ! ?i)" using all m by (simp_all add: list_all_iff)
  have e: "adescend_ub (ANode a ks ts) key = adescend_ub (ts ! ?i) key"
    by (simp add: adescend_ub_list_nth[OF len])
  have "remove_recursive h a key = remove_recursive h (raddr (ts ! ?i)) key"
    by (subst remove_recursive.simps) (simp add: h i Let_def)
  then show ?case unfolding e using ANode.IH[OF m c] by simp
qed

section \<open>B+ tree: insertion on the unfolded tree\<close>

lemma set_take_drop_ins: "set (take p xs @ x # drop p xs) = insert x (set xs)"
proof -
  have "set (take p xs) \<union> set (drop p xs) = set xs" by (metis append_take_drop_id set_append)
  then show ?thesis by auto
qed

text \<open>Placing a new key at the lower-bound position keeps a leaf strictly increasing.\<close>

lemma leaf_insert_sorted:
  fixes kvs :: "(('k::linorder) \<times> 'v) list"
  assumes "sorted_wrt (<) (map fst kvs)" "key \<notin> fst ` set kvs"
  shows "sorted_wrt (<) (map fst (take (lower_bound_idx (map fst kvs) key) kvs
           @ (key, val) # drop (lower_bound_idx (map fst kvs) key) kvs))"
  using assms
proof (induction kvs)
  case Nil
  then show ?case by simp
next
  case (Cons kv kvs)
  obtain k v where kv: "kv = (k, v)" by (cases kv)
  let ?p = "lower_bound_idx (map fst kvs) key"
  let ?r = "take ?p kvs @ (key, val) # drop ?p kvs"
  show ?case
  proof (cases "key > k")
    case True
    have ih: "sorted_wrt (<) (map fst ?r)" using Cons by simp
    have "\<forall>y \<in> set (map fst ?r). k < y"
      using Cons.prems(1) True kv by (auto dest: in_set_takeD in_set_dropD)
    then have "sorted_wrt (<) (map fst ((k, v) # ?r))" using ih by simp
    moreover have "take (lower_bound_idx (map fst (kv # kvs)) key) (kv # kvs)
        @ (key, val) # drop (lower_bound_idx (map fst (kv # kvs)) key) (kv # kvs) = (k, v) # ?r"
      using True kv by simp
    ultimately show ?thesis by (simp only:)
  next
    case False
    then have "key < k" using Cons.prems(2) kv by auto
    then show ?thesis using Cons.prems(1) False kv by auto
  qed
qed

text \<open>Cutting a strictly increasing leaf: the first key of the upper part separates.\<close>

lemma leaf_split_sorted:
  fixes kvs :: "(('k::linorder) \<times> 'v) list"
  assumes s: "sorted_wrt (<) (map fst kvs)" and m: "mid < length kvs"
  shows "sorted_wrt (<) (map fst (take mid kvs))" "sorted_wrt (<) (map fst (drop mid kvs))"
    "\<forall>x \<in> set (take mid kvs). fst x < fst (hd (drop mid kvs))"
    "\<forall>x \<in> set (drop mid kvs). fst (hd (drop mid kvs)) \<le> fst x"
    "hd (drop mid kvs) \<in> set kvs"
proof -
  have e: "map fst kvs = map fst (take mid kvs) @ map fst (drop mid kvs)"
    by (metis append_take_drop_id map_append)
  have "sorted_wrt (<) (map fst (take mid kvs) @ map fst (drop mid kvs))" using s e by simp
  then have a: "sorted_wrt (<) (map fst (take mid kvs)) \<and> sorted_wrt (<) (map fst (drop mid kvs))
    \<and> (\<forall>x \<in> set (map fst (take mid kvs)). \<forall>y \<in> set (map fst (drop mid kvs)). x < y)"
    unfolding sorted_wrt_append by blast
  from a show 1: "sorted_wrt (<) (map fst (take mid kvs))" by blast
  from a show 2: "sorted_wrt (<) (map fst (drop mid kvs))" by blast
  from a have 3: "\<forall>x \<in> set (map fst (take mid kvs)). \<forall>y \<in> set (map fst (drop mid kvs)). x < y"
    by blast
  have ne: "drop mid kvs \<noteq> []" using m by simp
  then have h: "hd (drop mid kvs) \<in> set (drop mid kvs)" by simp
  then show "hd (drop mid kvs) \<in> set kvs" by (rule in_set_dropD)
  show "\<forall>x \<in> set (take mid kvs). fst x < fst (hd (drop mid kvs))"
    using 3 h by simp
  obtain y ys where d: "drop mid kvs = y # ys" using ne by (cases "drop mid kvs") auto
  show "\<forall>x \<in> set (drop mid kvs). fst (hd (drop mid kvs)) \<le> fst x"
    using 2 unfolding d by auto
qed

lemma upper_le_trans: "q \<le> k \<Longrightarrow> upper_le k hi \<Longrightarrow> upper_le q hi"
  by (auto simp add: upper_le_def split: option.splits)

lemma upper_ok_le: "upper_ok x hi \<Longrightarrow> upper_le x hi"
  by (auto simp add: upper_le_def upper_ok_def split: option.splits)

text \<open>Cutting the keys and children of an internal node at a key.\<close>

lemma ordered_list_split:
  fixes ts :: "('k::linorder, 'v) atree list"
  shows "ordered_list lo hi ks ts \<Longrightarrow> mid < length ks
   \<Longrightarrow> ordered_list lo (Some (ks ! mid)) (take mid ks) (take (Suc mid) ts)
      \<and> ordered_list (Some (ks ! mid)) hi (drop (Suc mid) ks) (drop (Suc mid) ts)
      \<and> lower_ok lo (ks ! mid) \<and> upper_le (ks ! mid) hi"
proof (induction ks arbitrary: ts mid lo)
  case Nil
  then show ?case by simp
next
  case (Cons k ks)
  from Cons.prems(1) obtain t ts' where ts: "ts = t # ts'" and a: "lower_ok lo k" "upper_le k hi"
    and o: "ordered lo (Some k) t" "ordered_list (Some k) hi ks ts'"
    by (auto split: list.splits)
  show ?case
  proof (cases mid)
    case 0
    then show ?thesis using ts a o by simp
  next
    case (Suc m)
    then have m: "m < length ks" using Cons.prems(2) by simp
    from Cons.IH[OF o(2) m] have ih:
      "ordered_list (Some k) (Some (ks ! m)) (take m ks) (take (Suc m) ts')"
      "ordered_list (Some (ks ! m)) hi (drop (Suc m) ks) (drop (Suc m) ts')"
      "lower_ok (Some k) (ks ! m)" "upper_le (ks ! m) hi" by simp_all
    have kq: "k \<le> ks ! m" using ih(3) by (simp add: lower_ok_def)
    have "lower_ok lo (ks ! m)" using a(1) kq by (rule lower_ok_trans)
    moreover have "upper_le k (Some (ks ! m))" using kq by (simp add: upper_le_def)
    ultimately show ?thesis using Suc ts a o ih by simp
  qed
qed

lemma ains_node:
  "ains_list ord n ks ts key val = ((ks1, ts1), n1, b1)
   \<Longrightarrow> ains ord n (ANode a ks ts) key val
       = (if b1 \<and> \<not> length ks1 < ord
          then (ANode a (take (length ks1 div 2) ks1) (take (Suc (length ks1 div 2)) ts1), Suc n1,
                Some (ks1 ! (length ks1 div 2),
                      ANode n1 (drop (Suc (length ks1 div 2)) ks1)
                        (drop (Suc (length ks1 div 2)) ts1)))
          else (ANode a ks1 ts1, n1, None))"
  by (simp split: bool.splits)

lemma leaf_bounds_iff: "list_all P (map fst kvs) \<longleftrightarrow> (\<forall>x \<in> set kvs. P (fst x))"
  by (simp add: list_all_iff)

text \<open>Insertion of a key that is not in the tree keeps the order; when the node splits, the
  promoted key separates the two parts.\<close>

lemma ordered_ains:
  fixes t :: "('k::linorder, 'v) atree" and ts :: "('k, 'v) atree list"
  shows "ordered lo hi t \<Longrightarrow> lower_ok lo key \<Longrightarrow> upper_ok key hi
      \<Longrightarrow> key \<notin> fst ` set (pairs t) \<Longrightarrow> 0 < ord
      \<Longrightarrow> ains ord n t key val = (t', n', res)
      \<Longrightarrow> (case res of
             None \<Rightarrow> ordered lo hi t'
           | Some (q, r) \<Rightarrow> lower_ok lo q \<and> upper_le q hi
                             \<and> ordered lo (Some q) t' \<and> ordered (Some q) hi r)"
    and "ordered_list lo hi ks ts \<Longrightarrow> lower_ok lo key \<Longrightarrow> upper_ok key hi
      \<Longrightarrow> key \<notin> fst ` set (concat (map pairs ts)) \<Longrightarrow> 0 < ord
      \<Longrightarrow> ains_list ord n ks ts key val = ((ks', ts'), n', b)
      \<Longrightarrow> ordered_list lo hi ks' ts'"
proof (induction ord n t key val and ord n ks ts key val
    arbitrary: lo hi t' n' res and lo hi ks' ts' n' b rule: ains_ains_list.induct)
  case (1 ord n a kvs nxt key val)
  define kvs1 where "kvs1 = take (lower_bound_idx (map fst kvs) key) kvs
      @ (key, val) # drop (lower_bound_idx (map fst kvs) key) kvs"
  from "1.prems"(1) have s: "sorted_wrt (<) (map fst kvs)"
    and bd: "\<forall>x \<in> set kvs. lower_ok lo (fst x) \<and> upper_ok (fst x) hi"
    by (simp_all add: list_all_iff)
  have s': "sorted_wrt (<) (map fst kvs1)"
    unfolding kvs1_def using leaf_insert_sorted[OF s] "1.prems"(4) by simp
  have bd': "\<forall>x \<in> set kvs1. lower_ok lo (fst x) \<and> upper_ok (fst x) hi"
    unfolding kvs1_def set_take_drop_ins using bd "1.prems"(2,3) by simp
  have len: "length kvs1 = Suc (length kvs)" unfolding kvs1_def by simp
  have e: "ains ord n (ALeaf a kvs nxt) key val =
      (if length kvs1 < ord then (ALeaf a kvs1 nxt, n, None)
       else (ALeaf a (take (ord div 2) kvs1) (Some n), Suc n,
             Some (fst (hd (drop (ord div 2) kvs1)), ALeaf n (drop (ord div 2) kvs1) nxt)))"
    unfolding kvs1_def by (simp add: Let_def)
  show ?case
  proof (cases "length kvs1 < ord")
    case True
    then have r: "res = None" "t' = ALeaf a kvs1 nxt"
      using "1.prems"(6) unfolding e by simp_all
    show ?thesis unfolding r option.case ordered.simps leaf_bounds_iff using s' bd' by blast
  next
    case False
    let ?m = "ord div 2"
    let ?q = "fst (hd (drop ?m kvs1))"
    from False have r: "res = Some (?q, ALeaf n (drop ?m kvs1) nxt)"
      "t' = ALeaf a (take ?m kvs1) (Some n)"
      using "1.prems"(6) unfolding e by simp_all
    have m: "?m < length kvs1" using False "1.prems"(5) by simp
    note sp = leaf_split_sorted[OF s' m]
    have q: "lower_ok lo ?q" "upper_ok ?q hi" using sp(5) bd' by blast+
    have l: "\<forall>x \<in> set (take ?m kvs1). lower_ok lo (fst x) \<and> upper_ok (fst x) (Some ?q)"
      using sp(3) bd' by (auto simp add: upper_ok_def dest: in_set_takeD)
    have u: "\<forall>x \<in> set (drop ?m kvs1). lower_ok (Some ?q) (fst x) \<and> upper_ok (fst x) hi"
      using sp(4) bd' by (auto simp add: lower_ok_def dest: in_set_dropD)
    show ?thesis unfolding r option.case prod.case ordered.simps leaf_bounds_iff
      using sp(1,2) q(1) upper_ok_le[OF q(2)] l u by blast
  qed
next
  case (2 ord n a ks ts key val)
  obtain ks1 ts1 n1 b1 where l: "ains_list ord n ks ts key val = ((ks1, ts1), n1, b1)"
    by (metis surj_pair)
  have o: "ordered_list lo hi ks1 ts1"
    using "2.IH"[OF _ "2.prems"(2,3) _ "2.prems"(5) l] "2.prems"(1,4) by simp
  show ?case
  proof (cases "b1 \<and> \<not> length ks1 < ord")
    case False
    then have "res = None" "t' = ANode a ks1 ts1"
      using "2.prems"(6) unfolding ains_node[OF l] by auto
    then show ?thesis using o by simp
  next
    case True
    let ?m = "length ks1 div 2"
    from True have r: "res = Some (ks1 ! ?m, ANode n1 (drop (Suc ?m) ks1) (drop (Suc ?m) ts1))"
      "t' = ANode a (take ?m ks1) (take (Suc ?m) ts1)"
      using "2.prems"(6) unfolding ains_node[OF l] by auto
    have "0 < length ks1" using True "2.prems"(5) by linarith
    then have m: "?m < length ks1" by simp
    from ordered_list_split[OF o m] show ?thesis unfolding r by simp
  qed
next
  case (3 ord n ks key val)
  then show ?case by (cases ks) simp_all
next
  case (4 ord n t ts key val)
  from "4.prems"(1) have ts: "ts = []" and o: "ordered lo hi t" by (auto split: list.splits)
  obtain t1 n1 r1 where a: "ains ord n t key val = (t1, n1, r1)" by (metis surj_pair)
  have k: "key \<notin> fst ` set (pairs t)" using "4.prems"(4) by auto
  note ih = "4.IH"[OF o "4.prems"(2,3) k "4.prems"(5) a]
  show ?case
  proof (cases r1)
    case None
    then show ?thesis using ih a "4.prems"(6) ts by auto
  next
    case (Some qr)
    obtain q r where "qr = (q, r)" by (cases qr)
    then show ?thesis using ih a "4.prems"(6) ts Some by auto
  qed
next
  case (5 ord n k ks t ts key val)
  from "5.prems"(1) have a: "lower_ok lo k" "upper_le k hi"
    and o: "ordered lo (Some k) t" "ordered_list (Some k) hi ks ts" by auto
  show ?case
  proof (cases "k \<le> key")
    case True
    obtain ks1 ts1 n1 b1 where l: "ains_list ord n ks ts key val = ((ks1, ts1), n1, b1)"
      by (metis surj_pair)
    have k: "key \<notin> fst ` set (concat (map pairs ts))" using "5.prems"(4) by auto
    have lk: "lower_ok (Some k) key" using True by (simp add: lower_ok_def)
    note ih = "5.IH"(1)[OF True o(2) lk "5.prems"(3) k "5.prems"(5) l]
    show ?thesis using ih a o(1) l True "5.prems"(6) by auto
  next
    case False
    obtain t1 n1 r1 where ai: "ains ord n t key val = (t1, n1, r1)" by (metis surj_pair)
    have k: "key \<notin> fst ` set (pairs t)" using "5.prems"(4) by auto
    have uk: "upper_ok key (Some k)" using False by (simp add: upper_ok_def)
    note ih = "5.IH"(2)[OF False o(1) "5.prems"(2) uk k "5.prems"(5) ai]
    show ?thesis
    proof (cases r1)
      case None
      then show ?thesis using ih ai False a o(2) "5.prems"(6) by auto
    next
      case (Some qr)
      obtain q r where qr: "qr = (q, r)" by (cases qr)
      from ih Some qr have i: "lower_ok lo q" "upper_le q (Some k)"
        "ordered lo (Some q) t1" "ordered (Some q) (Some k) r" by simp_all
      have qk: "q \<le> k" using i(2) by (simp add: upper_le_def)
      have "upper_le q hi" using qk a(2) by (rule upper_le_trans)
      moreover have "lower_ok (Some q) k" using qk by (simp add: lower_ok_def)
      ultimately show ?thesis using i a o(2) ai False Some qr "5.prems"(6) by auto
    qed
  qed
qed

text \<open>The recursion over the keys of a node inserts into the child the index loop picks, and
  puts the promoted key and the sibling next to it.\<close>

lemma res_trees_simps [simp]:
  "res_trees t None = [t]" "res_trees t (Some (q, r)) = [t, r]"
  by (simp_all add: res_trees_def)

lemma ains_list_nth:
  "length ts = Suc (length ks)
   \<Longrightarrow> ains_list ord n ks ts key val
       = (case ains ord n (ts ! upper_bound_idx ks key) key val of
            (t', n', res) \<Rightarrow>
              ((case res of
                  None \<Rightarrow> ks
                | Some qr \<Rightarrow> take (upper_bound_idx ks key) ks @ fst qr
                               # drop (upper_bound_idx ks key) ks,
                take (upper_bound_idx ks key) ts @ res_trees t' res
                  @ drop (Suc (upper_bound_idx ks key)) ts),
               n', res \<noteq> None))"
proof (induction ks arbitrary: ts)
  case Nil
  then obtain t where "ts = [t]" by (cases ts) auto
  then show ?case by (auto split: prod.splits option.splits)
next
  case (Cons k ks)
  then obtain t ts' where ts: "ts = t # ts'" and len: "length ts' = Suc (length ks)"
    by (cases ts) auto
  show ?case
  proof (cases "k \<le> key")
    case True
    then show ?thesis unfolding ts using Cons.IH[OF len]
      by (auto split: prod.splits option.splits)
  next
    case False
    then show ?thesis unfolding ts by (auto split: prod.splits option.splits)
  qed
qed

lemma ains_leaf:
  "kvs1 = take (lower_bound_idx (map fst kvs) key) kvs
            @ (key, val) # drop (lower_bound_idx (map fst kvs) key) kvs
   \<Longrightarrow> ains ord n (ALeaf a kvs nxt) key val =
     (if length kvs1 < ord then (ALeaf a kvs1 nxt, n, None)
      else (ALeaf a (take (ord div 2) kvs1) (Some n), Suc n,
            Some (fst (hd (drop (ord div 2) kvs1)), ALeaf n (drop (ord div 2) kvs1) nxt)))"
  by (simp add: Let_def)

text \<open>What an insertion into the children does to a node, by whether the child was split.\<close>

lemma ains_node_nth:
  assumes len: "length ts = Suc (length ks)"
    and c: "ains ord n (ts ! upper_bound_idx ks key) key val = (tc, n1, rc)"
  shows "ains_list ord n ks ts key val
      = ((case rc of None \<Rightarrow> ks
          | Some qr \<Rightarrow> take (upper_bound_idx ks key) ks @ fst qr # drop (upper_bound_idx ks key) ks,
          take (upper_bound_idx ks key) ts @ res_trees tc rc
            @ drop (Suc (upper_bound_idx ks key)) ts),
         n1, rc \<noteq> None)"
  using ains_list_nth[OF len, of ord n key val] c by simp

subsection \<open>Insertion keeps the shape\<close>

lemma ains_shape:
  "shape ord t \<Longrightarrow> 3 \<le> ord \<Longrightarrow> ains ord n t key val = (t', n', res)
   \<Longrightarrow> list_all (shape ord) (res_trees t' res) \<and> raddr t' = raddr t \<and> n \<le> n'"
proof (induction t arbitrary: n t' n' res)
  case (ALeaf a kvs nxt)
  define kvs1 where "kvs1 = take (lower_bound_idx (map fst kvs) key) kvs
            @ (key, val) # drop (lower_bound_idx (map fst kvs) key) kvs"
  have len: "length kvs1 = Suc (length kvs)" unfolding kvs1_def by simp
  from ALeaf.prems(1) have "length kvs1 \<le> ord" using len by simp
  with ALeaf.prems(2,3) show ?case unfolding ains_leaf[OF kvs1_def]
    by (auto split: if_splits)
next
  case (ANode a ks ts)
  let ?i = "upper_bound_idx ks key"
  from ANode.prems(1) have ks: "ks \<noteq> []" "length ks < ord" and len: "length ts = Suc (length ks)"
    and sh: "list_all (shape ord) ts" by simp_all
  have i: "?i < length ts" using upper_bound_idx_le[of ks key] len by simp
  obtain tc n1 rc where c: "ains ord n (ts ! ?i) key val = (tc, n1, rc)"
    by (cases "ains ord n (ts ! ?i) key val") auto
  have shc: "shape ord (ts ! ?i)" using sh i by (simp add: list_all_length)
  have ih: "list_all (shape ord) (res_trees tc rc)" "raddr tc = raddr (ts ! ?i)" "n \<le> n1"
    using ANode.IH[OF nth_mem[OF i] shc ANode.prems(2) c] by simp_all
  note e = ains_node_nth[OF len c]
  define ks1 where "ks1 = (case rc of None \<Rightarrow> ks
          | Some qr \<Rightarrow> take ?i ks @ fst qr # drop ?i ks)"
  define ts1 where "ts1 = take ?i ts @ res_trees tc rc @ drop (Suc ?i) ts"
  have e1: "ains_list ord n ks ts key val = ((ks1, ts1), n1, rc \<noteq> None)"
    unfolding e ks1_def ts1_def ..
  have sh1: "list_all (shape ord) ts1"
    unfolding ts1_def using sh ih(1)
    by (auto simp: list_all_iff dest: in_set_takeD in_set_dropD)
  have lks1: "length ks1 = (if rc = None then length ks else Suc (length ks))"
    unfolding ks1_def using i len by (auto split: option.splits)
  have lts1: "length ts1 = Suc (length ks1)"
    unfolding ts1_def lks1 using i len by (cases rc) (auto simp: res_trees_def)
  have ks1: "ks1 \<noteq> []" using lks1 ks by (auto split: if_splits)
  show ?case
  proof (cases "rc = None \<or> length ks1 < ord")
    case True
    then have "ains ord n (ANode a ks ts) key val = (ANode a ks1 ts1, n1, None)"
      using True unfolding ains_node[OF e1] by auto
    with ANode.prems(3) have "t' = ANode a ks1 ts1" "n' = n1" "res = None" by simp_all
    moreover have "length ks1 < ord" using True lks1 ks by (auto split: if_splits)
    ultimately show ?thesis using sh1 lts1 ks1 ih(3) by simp
  next
    case False
    then have full: "length ks1 = ord" using lks1 ks by (auto split: if_splits)
    let ?m = "ord div 2"
    from False have "ains ord n (ANode a ks ts) key val
        = (ANode a (take ?m ks1) (take (Suc ?m) ts1), Suc n1,
           Some (ks1 ! ?m, ANode n1 (drop (Suc ?m) ks1) (drop (Suc ?m) ts1)))"
      using False full unfolding ains_node[OF e1] by auto
    with ANode.prems(3) have r: "t' = ANode a (take ?m ks1) (take (Suc ?m) ts1)" "n' = Suc n1"
      "res = Some (ks1 ! ?m, ANode n1 (drop (Suc ?m) ks1) (drop (Suc ?m) ts1))" by simp_all
    have m: "0 < ?m" "Suc ?m < ord" using ANode.prems(2) by auto
    have "shape ord (ANode a (take ?m ks1) (take (Suc ?m) ts1))"
      using sh1 lts1 full m
      by (auto simp: list_all_iff min_def dest: in_set_takeD)
    moreover have "shape ord (ANode n1 (drop (Suc ?m) ks1) (drop (Suc ?m) ts1))"
      using sh1 lts1 full m
      by (auto simp: list_all_iff dest: in_set_dropD)
    ultimately show ?thesis unfolding r using ih(3) by simp
  qed
qed

text \<open>The two outcomes of an insertion below an internal node.\<close>

lemma ains_node_cases:
  assumes sh: "shape ord (ANode a ks ts)" and ord: "3 \<le> ord"
    and r: "ains ord n (ANode a ks ts) key val = (t', n', res)"
  obtains (keep) tc n1 rc where
      "upper_bound_idx ks key < length ts"
      "ains ord n (ts ! upper_bound_idx ks key) key val = (tc, n1, rc)"
      "t' = ANode a (node_keys ks (upper_bound_idx ks key) rc)
                    (node_children ts (upper_bound_idx ks key) tc rc)"
      "n' = n1" "res = None"
      "length (node_keys ks (upper_bound_idx ks key) rc) < ord"
      "length (node_children ts (upper_bound_idx ks key) tc rc)
         = Suc (length (node_keys ks (upper_bound_idx ks key) rc))"
  | (split) tc n1 q r where
      "upper_bound_idx ks key < length ts"
      "ains ord n (ts ! upper_bound_idx ks key) key val = (tc, n1, Some (q, r))"
      "t' = ANode a (take (ord div 2) (node_keys ks (upper_bound_idx ks key) (Some (q, r))))
                    (take (Suc (ord div 2))
                       (node_children ts (upper_bound_idx ks key) tc (Some (q, r))))"
      "n' = Suc n1"
      "res = Some (node_keys ks (upper_bound_idx ks key) (Some (q, r)) ! (ord div 2),
                   ANode n1 (drop (Suc (ord div 2))
                               (node_keys ks (upper_bound_idx ks key) (Some (q, r))))
                            (drop (Suc (ord div 2))
                               (node_children ts (upper_bound_idx ks key) tc (Some (q, r)))))"
      "length (node_keys ks (upper_bound_idx ks key) (Some (q, r))) = ord"
      "length (node_children ts (upper_bound_idx ks key) tc (Some (q, r))) = Suc ord"
proof -
  let ?i = "upper_bound_idx ks key"
  from sh have ks: "ks \<noteq> []" "length ks < ord" and len: "length ts = Suc (length ks)"
    by simp_all
  have i: "?i < length ts" using upper_bound_idx_le[of ks key] len by simp
  obtain tc n1 rc where c: "ains ord n (ts ! ?i) key val = (tc, n1, rc)"
    by (cases "ains ord n (ts ! ?i) key val") auto
  let ?ks1 = "node_keys ks ?i rc" and ?ts1 = "node_children ts ?i tc rc"
  have e1: "ains_list ord n ks ts key val = ((?ks1, ?ts1), n1, rc \<noteq> None)"
    unfolding ains_node_nth[OF len c] node_keys_def node_children_def ..
  have lks1: "length ?ks1 = (if rc = None then length ks else Suc (length ks))"
    unfolding node_keys_def using i len by (auto split: option.splits)
  have lts1: "length ?ts1 = Suc (length ?ks1)"
    unfolding node_children_def lks1 using i len by (cases rc) (auto simp: res_trees_def)
  show thesis
  proof (cases "rc = None \<or> length ?ks1 < ord")
    case True
    then have "ains ord n (ANode a ks ts) key val = (ANode a ?ks1 ?ts1, n1, None)"
      unfolding ains_node[OF e1] by auto
    with r have "t' = ANode a ?ks1 ?ts1" "n' = n1" "res = None" by simp_all
    moreover have "length ?ks1 < ord" using True lks1 ks by (auto split: if_splits)
    ultimately show thesis using keep[OF i c] lts1 by simp
  next
    case False
    then obtain q r' where rc: "rc = Some (q, r')" by (cases rc) auto
    from False have full: "length ?ks1 = ord" using lks1 ks by (auto split: if_splits)
    from False have "ains ord n (ANode a ks ts) key val
        = (ANode a (take (ord div 2) ?ks1) (take (Suc (ord div 2)) ?ts1), Suc n1,
           Some (?ks1 ! (ord div 2),
                 ANode n1 (drop (Suc (ord div 2)) ?ks1) (drop (Suc (ord div 2)) ?ts1)))"
      using full unfolding ains_node[OF e1] by auto
    with r have "t' = ANode a (take (ord div 2) ?ks1) (take (Suc (ord div 2)) ?ts1)"
      "n' = Suc n1"
      "res = Some (?ks1 ! (ord div 2),
                 ANode n1 (drop (Suc (ord div 2)) ?ks1) (drop (Suc (ord div 2)) ?ts1))"
      by simp_all
    then show thesis using split[OF i c[unfolded rc]] full lts1 unfolding rc by simp
  qed
qed

lemma concat_map_node_children:
  "concat (map f (node_children ts i tc rc))
     = concat (map f (take i ts)) @ concat (map f (res_trees tc rc))
         @ concat (map f (drop (Suc i) ts))"
  by (simp add: node_children_def)

lemma concat_map_take_drop:
  "concat (map f (take m xs)) @ concat (map f (drop m xs)) = concat (map f xs)"
  by (metis append_take_drop_id concat_append map_append)

subsection \<open>Insertion allocates fresh addresses\<close>

lemma distinct_mid:
  "distinct (a # xs @ b # ys)
     = (a \<noteq> b \<and> a \<notin> set (xs @ ys) \<and> b \<notin> set (xs @ ys) \<and> distinct (xs @ ys))"
  by auto

lemma set_mid: "set (a # xs @ b # ys) = insert a (insert b (set (xs @ ys)))"
  by auto

lemma addrs_replace_mid:
  fixes n n1 :: nat
  assumes d: "distinct (a # P @ C @ S)" and b: "\<forall>b\<in>set (a # P @ C @ S). b < n"
    and d': "distinct C'" and s': "set C' = set C \<union> {n..<n1}"
  shows "distinct (a # P @ C' @ S)"
    and "set (a # P @ C' @ S) = set (a # P @ C @ S) \<union> {n..<n1}"
    and "\<forall>b\<in>set (a # P @ C' @ S). b < max n n1"
proof -
  have b': "a < n" "\<And>x. x \<in> set P \<Longrightarrow> x < n" "\<And>x. x \<in> set C \<Longrightarrow> x < n"
    "\<And>x. x \<in> set S \<Longrightarrow> x < n"
    using b by simp_all
  have f: "set P \<inter> {n..<n1} = {}" "set S \<inter> {n..<n1} = {}" "a \<notin> {n..<n1}"
    using b'(1) b'(2) b'(4) by (fastforce simp: disjoint_iff)+
  show "distinct (a # P @ C' @ S)" using d d' f by (auto simp: s')
  show "set (a # P @ C' @ S) = set (a # P @ C @ S) \<union> {n..<n1}" by (auto simp: s')
  show "\<forall>b\<in>set (a # P @ C' @ S). b < max n n1" using b' by (fastforce simp: s')
qed

lemma ains_addrs:
  "shape ord t \<Longrightarrow> 3 \<le> ord \<Longrightarrow> distinct (addrs t) \<Longrightarrow> \<forall>b\<in>set (addrs t). b < n
   \<Longrightarrow> ains ord n t key val = (t', n', res)
   \<Longrightarrow> distinct (concat (map addrs (res_trees t' res)))
       \<and> set (concat (map addrs (res_trees t' res))) = set (addrs t) \<union> {n..<n'} \<and> n \<le> n'"
proof (induction t arbitrary: n t' n' res)
  case (ALeaf a kvs nxt)
  define kvs1 where "kvs1 = take (lower_bound_idx (map fst kvs) key) kvs
            @ (key, val) # drop (lower_bound_idx (map fst kvs) key) kvs"
  from ALeaf.prems(4,5) show ?case unfolding ains_leaf[OF kvs1_def]
    by (auto split: if_splits)
next
  case (ANode a ks ts)
  let ?i = "upper_bound_idx ks key"
  let ?P = "concat (map addrs (take ?i ts))" and ?S = "concat (map addrs (drop (Suc ?i) ts))"
  from ANode.prems(1) have sh: "list_all (shape ord) ts" by simp
  from ANode.prems(1,2,5) show ?case
  proof (cases rule: ains_node_cases)
    case (keep tc n1 rc)
    let ?C = "concat (map addrs (res_trees tc rc))"
    have split: "addrs (ANode a ks ts) = a # ?P @ addrs (ts ! ?i) @ ?S"
      using concat_map_nth[OF keep(1), of addrs] by simp
    have shc: "shape ord (ts ! ?i)" using sh keep(1) by (simp add: list_all_length)
    have dc: "distinct (addrs (ts ! ?i))" and bc: "\<forall>b\<in>set (addrs (ts ! ?i)). b < n"
      using ANode.prems(3,4) unfolding split by auto
    have ih: "distinct ?C" "set ?C = set (addrs (ts ! ?i)) \<union> {n..<n1}" "n \<le> n1"
      using ANode.IH[OF nth_mem[OF keep(1)] shc ANode.prems(2) dc bc keep(2)] by simp_all
    have new: "addrs t' = a # ?P @ ?C @ ?S"
      unfolding keep(3) by (simp add: concat_map_node_children)
    have "distinct (a # ?P @ ?C @ ?S)"
      using addrs_replace_mid(1)[OF ANode.prems(3,4)[unfolded split] ih(1,2)] .
    moreover have "set (a # ?P @ ?C @ ?S) = set (addrs (ANode a ks ts)) \<union> {n..<n1}"
      unfolding split using addrs_replace_mid(2)[OF ANode.prems(3,4)[unfolded split] ih(1,2)] .
    ultimately show ?thesis unfolding keep(5) keep(4) using new ih(3) by simp
  next
    case (split tc n1 q r)
    let ?C = "concat (map addrs (res_trees tc (Some (q, r))))"
    let ?ts1 = "node_children ts ?i tc (Some (q, r))"
    let ?X1 = "concat (map addrs (take (Suc (ord div 2)) ?ts1))"
    let ?X2 = "concat (map addrs (drop (Suc (ord div 2)) ?ts1))"
    have old: "addrs (ANode a ks ts) = a # ?P @ addrs (ts ! ?i) @ ?S"
      using concat_map_nth[OF split(1), of addrs] by simp
    have shc: "shape ord (ts ! ?i)" using sh split(1) by (simp add: list_all_length)
    have dc: "distinct (addrs (ts ! ?i))" and bc: "\<forall>b\<in>set (addrs (ts ! ?i)). b < n"
      using ANode.prems(3,4) unfolding old by auto
    have ih: "distinct ?C" "set ?C = set (addrs (ts ! ?i)) \<union> {n..<n1}" "n \<le> n1"
      using ANode.IH[OF nth_mem[OF split(1)] shc ANode.prems(2) dc bc split(2)] by simp_all
    have X: "?X1 @ ?X2 = ?P @ ?C @ ?S"
      unfolding concat_map_take_drop by (rule concat_map_node_children)
    have new: "concat (map addrs (res_trees t' res)) = a # ?X1 @ n1 # ?X2"
      unfolding split(3) split(5) by simp
    note m = addrs_replace_mid[OF ANode.prems(3,4)[unfolded old] ih(1,2)]
    have mx: "max n n1 = n1" using ih(3) by simp
    have "a < n" using ANode.prems(4) by simp
    then have an: "a \<noteq> n1" using ih(3) by simp
    have nn: "n1 \<notin> set (?P @ ?C @ ?S)" using m(3) unfolding mx by auto
    have "distinct (a # ?X1 @ n1 # ?X2)"
      unfolding distinct_mid X using m(1) an nn by simp
    moreover have "set (a # ?X1 @ n1 # ?X2) = set (addrs (ANode a ks ts)) \<union> {n..<Suc n1}"
    proof -
      have "set (a # ?X1 @ n1 # ?X2) = insert n1 (set (a # ?P @ ?C @ ?S))"
        unfolding set_mid X by auto
      also have "\<dots> = insert n1 (set (addrs (ANode a ks ts)) \<union> {n..<n1})"
        unfolding m(2) old ..
      also have "\<dots> = set (addrs (ANode a ks ts)) \<union> {n..<Suc n1}"
        using ih(3) by auto
      finally show ?thesis .
    qed
    ultimately show ?thesis unfolding new split(4) using ih(3) by simp
  qed
qed

subsection \<open>The leaves after an insertion\<close>

lemma ains_leaves_node:
  "concat (map leaves (res_trees (ANode a ks ts) None)) = concat (map leaves ts)"
  "concat (map leaves (res_trees (ANode a (take m ks) (take (Suc m) ts))
                         (Some (q, ANode b (drop (Suc m) ks) (drop (Suc m) ts)))))
     = concat (map leaves ts)"
  by (simp_all add: concat_map_take_drop)

subsection \<open>Insertion adds the pair and keeps the leaf chain\<close>

lemma linked_split:
  "linked (pre @ (a, kvs, nx) # post) e
   \<Longrightarrow> linked (pre @ (a, k1, Some n) # (n, k2, nx) # post) e"
proof (induction pre)
  case Nil
  then show ?case by (cases post) simp_all
next
  case (Cons l pre)
  show ?case
  proof (cases pre)
    case Nil
    with Cons show ?thesis by (cases post) simp_all
  next
    case (Cons l' pre')
    with Cons.prems Cons.IH show ?thesis by simp
  qed
qed

lemma linked_same:
  "linked (pre @ (a, kvs, nx) # post) e \<Longrightarrow> linked (pre @ (a, kvs', nx) # post) e"
  using linked_links[of "pre @ (a, kvs, nx) # post" "pre @ (a, kvs', nx) # post" e] by simp

lemma ains_leaves:
  "shape ord t \<Longrightarrow> 3 \<le> ord \<Longrightarrow> ains ord n t key val = (t', n', res)
   \<Longrightarrow> set (leaf_pairs (concat (map leaves (res_trees t' res))))
         = insert (key, val) (set (pairs t))
       \<and> length (leaf_pairs (concat (map leaves (res_trees t' res)))) = Suc (length (pairs t))
       \<and> (\<forall>pre post e. linked (pre @ leaves t @ post) e
             \<longrightarrow> linked (pre @ concat (map leaves (res_trees t' res)) @ post) e)"
proof (induction t arbitrary: n t' n' res)
  case (ALeaf a kvs nxt)
  define kvs1 where "kvs1 = take (lower_bound_idx (map fst kvs) key) kvs
            @ (key, val) # drop (lower_bound_idx (map fst kvs) key) kvs"
  have s: "set kvs1 = insert (key, val) (set kvs)" unfolding kvs1_def by (rule set_take_drop_ins)
  have l: "length kvs1 = Suc (length kvs)" unfolding kvs1_def by simp
  show ?case
  proof (cases "length kvs1 < ord")
    case True
    with ALeaf.prems(3) have r: "t' = ALeaf a kvs1 nxt" "res = None"
      unfolding ains_leaf[OF kvs1_def] by simp_all
    show ?thesis unfolding r using s l by (auto intro: linked_same)
  next
    case False
    with ALeaf.prems(3) have r: "t' = ALeaf a (take (ord div 2) kvs1) (Some n)"
      "res = Some (fst (hd (drop (ord div 2) kvs1)), ALeaf n (drop (ord div 2) kvs1) nxt)"
      unfolding ains_leaf[OF kvs1_def] by simp_all
    have "set (take (ord div 2) kvs1 @ drop (ord div 2) kvs1) = insert (key, val) (set kvs)"
      "length (take (ord div 2) kvs1 @ drop (ord div 2) kvs1) = Suc (length kvs)"
      using s l by simp_all
    then show ?thesis unfolding r by (auto intro: linked_split simp del: append_take_drop_id)
  qed
next
  case (ANode a ks ts)
  let ?i = "upper_bound_idx ks key"
  let ?P = "concat (map leaves (take ?i ts))" and ?S = "concat (map leaves (drop (Suc ?i) ts))"
  from ANode.prems(1) have sh: "list_all (shape ord) ts" by simp
  have main: "set (leaf_pairs (?P @ C @ ?S)) = insert (key, val) (set (pairs (ANode a ks ts)))
       \<and> length (leaf_pairs (?P @ C @ ?S)) = Suc (length (pairs (ANode a ks ts)))
       \<and> (\<forall>pre post e. linked (pre @ leaves (ANode a ks ts) @ post) e
             \<longrightarrow> linked (pre @ (?P @ C @ ?S) @ post) e)"
    if i: "?i < length ts" and c: "ains ord n (ts ! ?i) key val = (tc, n1, rc)"
      and C: "C = concat (map leaves (res_trees tc rc))" for tc n1 rc C
  proof -
    have old: "leaves (ANode a ks ts) = ?P @ leaves (ts ! ?i) @ ?S"
      using concat_map_nth[OF i, of leaves] by simp
    have shc: "shape ord (ts ! ?i)" using sh i by (simp add: list_all_length)
    have ih: "set (leaf_pairs C) = insert (key, val) (set (pairs (ts ! ?i)))"
      "length (leaf_pairs C) = Suc (length (pairs (ts ! ?i)))"
      "\<And>pre post e. linked (pre @ leaves (ts ! ?i) @ post) e \<Longrightarrow> linked (pre @ C @ post) e"
      using ANode.IH[OF nth_mem[OF i] shc ANode.prems(2) c] unfolding C by blast+
    have p: "pairs (ANode a ks ts) = leaf_pairs ?P @ pairs (ts ! ?i) @ leaf_pairs ?S"
      unfolding pairs_def old by simp
    have "linked (pre @ (?P @ C @ ?S) @ post) e"
      if "linked (pre @ leaves (ANode a ks ts) @ post) e" for pre post e
      using ih(3)[of "pre @ ?P" "?S @ post" e] that unfolding old by simp
    then show ?thesis unfolding p using ih(1,2) by auto
  qed
  from ANode.prems(1,2,3) show ?case
  proof (cases rule: ains_node_cases)
    case (keep tc n1 rc)
    show ?thesis unfolding keep(3) keep(5) ains_leaves_node concat_map_node_children
      using main[OF keep(1,2) refl] .
  next
    case (split tc n1 q r)
    show ?thesis unfolding split(3) split(5) ains_leaves_node concat_map_node_children
      using main[OF split(1,2) refl] .
  qed
qed

subsection \<open>\<^verbatim>\<open>insert_recursive\<close> on the heap acts as on the tree\<close>

lemma repr_cong: "repr h t \<Longrightarrow> \<forall>b\<in>set (addrs t). h' b = h b \<Longrightarrow> repr h' t"
proof (induction t)
  case (ALeaf a kvs nxt)
  then show ?case by simp
next
  case (ANode a ks ts)
  have "repr h' t" if "t \<in> set ts" for t
    using ANode.IH[OF that] ANode.prems that by (auto simp: list_all_iff)
  then show ?case using ANode.prems by (simp add: list_all_iff)
qed

lemma map_update_same: "(map f ts)[i := f (ts ! i)] = map f ts"
  by (simp add: map_update[symmetric])

lemma map_raddr_node_children:
  assumes "i < length ts"
  shows "map raddr (node_children ts i tc None) = (map raddr ts)[i := raddr tc]"
    and "map raddr (node_children ts i tc (Some (q, r)))
           = take (Suc i) ((map raddr ts)[i := raddr tc]) @ raddr r # drop (Suc i) (map raddr ts)"
  using assms
  by (simp_all add: node_children_def upd_conv_take_nth_drop take_map drop_map
      take_Suc_conv_app_nth)

lemma insert_recursive_repr:
  "repr h t \<Longrightarrow> shape ord t \<Longrightarrow> 3 \<le> ord \<Longrightarrow> distinct (addrs t) \<Longrightarrow> \<forall>b\<in>set (addrs t). b < n
   \<Longrightarrow> ains ord n t key val = (t', n', res)
   \<Longrightarrow> \<exists>h'. insert_recursive ord (h, n) (raddr t) key val
              = Some ((h', n'), map_option (\<lambda>qr. (raddr (snd qr), fst qr)) res)
          \<and> list_all (repr h') (res_trees t' res)
          \<and> (\<forall>b. b \<notin> set (addrs t) \<longrightarrow> b < n \<longrightarrow> h' b = h b)"
proof (induction t arbitrary: t' n' res)
  case (ALeaf a kvs nxt)
  define kvs1 where "kvs1 = take (lower_bound_idx (map fst kvs) key) kvs
            @ (key, val) # drop (lower_bound_idx (map fst kvs) key) kvs"
  have l: "length kvs1 = Suc (length kvs)" unfolding kvs1_def by simp
  from ALeaf.prems(1) have ha: "h a = Some (LeafN kvs nxt)" by simp
  from ALeaf.prems(5) have an: "a < n" by simp
  show ?case
  proof (cases "length kvs1 < ord")
    case True
    with ALeaf.prems(6) have r: "t' = ALeaf a kvs1 nxt" "n' = n" "res = None"
      unfolding ains_leaf[OF kvs1_def] by simp_all
    have "insert_recursive ord (h, n) a key val = Some ((h(a \<mapsto> LeafN kvs1 nxt), n), None)"
      using True l ha kvs1_def by (subst insert_recursive.simps) (simp add: Let_def)
    then show ?thesis unfolding r by simp
  next
    case False
    with ALeaf.prems(6) have r: "t' = ALeaf a (take (ord div 2) kvs1) (Some n)" "n' = Suc n"
      "res = Some (fst (hd (drop (ord div 2) kvs1)), ALeaf n (drop (ord div 2) kvs1) nxt)"
      unfolding ains_leaf[OF kvs1_def] by simp_all
    let ?h' = "(h(n \<mapsto> LeafN (drop (ord div 2) kvs1) nxt))
                  (a \<mapsto> LeafN (take (ord div 2) kvs1) (Some n))"
    have "insert_recursive ord (h, n) a key val
            = Some ((?h', Suc n), Some (n, fst (hd (drop (ord div 2) kvs1))))"
      using False l ha kvs1_def
      by (subst insert_recursive.simps) (simp add: Let_def split_leaf_def)
    then show ?thesis unfolding r using an by auto
  qed
next
  case (ANode a ks ts)
  let ?i = "upper_bound_idx ks key"
  let ?cs = "map raddr ts"
  from ANode.prems(1) have ha: "h a = Some (InternalN ks ?cs)" and rts: "list_all (repr h) ts"
    by simp_all
  from ANode.prems(2) have sh: "list_all (shape ord) ts" and len: "length ts = Suc (length ks)"
    by simp_all
  from ANode.prems(5) have an: "a < n" by simp
  have common: "\<exists>h1. insert_recursive ord (h, n) (?cs ! ?i) key val
              = Some ((h1, n1), map_option (\<lambda>qr. (raddr (snd qr), fst qr)) rc)
          \<and> list_all (repr h1) (node_children ts ?i tc rc)
          \<and> (\<forall>b. b \<notin> set (addrs (ANode a ks ts)) \<longrightarrow> b < n \<longrightarrow> h1 b = h b)
          \<and> h1 a = Some (InternalN ks ?cs)
          \<and> (\<forall>c\<in>set (node_children ts ?i tc rc). a \<notin> set (addrs c) \<and> n1 \<notin> set (addrs c))
          \<and> raddr tc = raddr (ts ! ?i) \<and> n \<le> n1"
    if i: "?i < length ts" and c: "ains ord n (ts ! ?i) key val = (tc, n1, rc)" for tc n1 rc
  proof -
    have old: "addrs (ANode a ks ts)
        = a # concat (map addrs (take ?i ts)) @ addrs (ts ! ?i) @ concat (map addrs (drop (Suc ?i) ts))"
      using concat_map_nth[OF i, of addrs] by simp
    have shc: "shape ord (ts ! ?i)" using sh i by (simp add: list_all_length)
    have rc: "repr h (ts ! ?i)" using rts i by (simp add: list_all_length)
    have dc: "distinct (addrs (ts ! ?i))" and bc: "\<forall>b\<in>set (addrs (ts ! ?i)). b < n"
      using ANode.prems(4,5) unfolding old by auto
    from ANode.IH[OF nth_mem[OF i] rc shc ANode.prems(3) dc bc c]
    obtain h1 where h1: "insert_recursive ord (h, n) (raddr (ts ! ?i)) key val
              = Some ((h1, n1), map_option (\<lambda>qr. (raddr (snd qr), fst qr)) rc)"
      "list_all (repr h1) (res_trees tc rc)"
      "\<And>b. b \<notin> set (addrs (ts ! ?i)) \<Longrightarrow> b < n \<Longrightarrow> h1 b = h b"
      by blast
    note s = ains_shape[OF shc ANode.prems(3) c]
    note ad = ains_addrs[OF shc ANode.prems(3) dc bc c]
    have a_nc: "a \<notin> set (addrs (ts ! ?i))" using ANode.prems(4) unfolding old by auto
    have frame_a: "h1 a = Some (InternalN ks ?cs)" using h1(3)[OF a_nc an] ha by simp
    have other: "repr h1 u \<and> a \<notin> set (addrs u) \<and> n1 \<notin> set (addrs u)"
      if u: "u \<in> set (take ?i ts) \<or> u \<in> set (drop (Suc ?i) ts)" for u
    proof -
      have uts: "u \<in> set ts" using u by (auto dest: in_set_takeD in_set_dropD)
      have ru: "repr h u" using rts uts by (simp add: list_all_iff)
      have sub: "set (addrs u) \<subseteq> set (concat (map addrs (take ?i ts)))
                   \<union> set (concat (map addrs (drop (Suc ?i) ts)))"
        using u by auto
      have dis: "set (addrs u) \<inter> set (addrs (ts ! ?i)) = {}"
        using sub ANode.prems(4) unfolding old by (auto simp del: set_concat)
      have lt: "\<forall>b\<in>set (addrs u). b < n"
        using sub ANode.prems(5) unfolding old by (auto simp del: set_concat)
      have "\<forall>b\<in>set (addrs u). h1 b = h b" using dis lt h1(3) by blast
      then have "repr h1 u" using ru by (rule repr_cong[rotated])
      moreover have "a \<notin> set (addrs u)"
        using sub ANode.prems(4) unfolding old by (auto simp del: set_concat)
      moreover have "n1 \<notin> set (addrs u)" using lt s by auto
      ultimately show ?thesis by simp
    qed
    have new: "a \<notin> set (addrs u) \<and> n1 \<notin> set (addrs u)" if u: "u \<in> set (res_trees tc rc)" for u
    proof -
      have "set (addrs u) \<subseteq> set (addrs (ts ! ?i)) \<union> {n..<n1}"
        using ad u by auto
      moreover have "n \<le> n1" using s by simp
      ultimately show ?thesis using a_nc an bc by fastforce
    qed
    have 1: "list_all (repr h1) (node_children ts ?i tc rc)"
      unfolding node_children_def using other h1(2) by (auto simp: list_all_iff)
    have 2: "\<forall>c\<in>set (node_children ts ?i tc rc). a \<notin> set (addrs c) \<and> n1 \<notin> set (addrs c)"
      unfolding node_children_def using other new by auto
    have 3: "\<forall>b. b \<notin> set (addrs (ANode a ks ts)) \<longrightarrow> b < n \<longrightarrow> h1 b = h b"
      using h1(3) unfolding old by simp
    show ?thesis using h1(1) 1 2 3 frame_a s i by (intro exI[of _ h1]) simp
  qed
  have frame2: "list_all (repr (h1(b := x))) us"
    if "list_all (repr h1) us" "\<forall>c\<in>set us. b \<notin> set (addrs c)"
    for h1 :: "('a, 'b) heap" and us b x
    using that by (auto simp: list_all_iff intro: repr_frame)
  have ilen: "?i < length ?cs" using upper_bound_idx_le[of ks key] len by simp
  from ANode.prems(2,3,6) show ?case
  proof (cases rule: ains_node_cases)
    case (keep tc n1 rc)
    from common[OF keep(1,2)] obtain h1 where h1:
      "insert_recursive ord (h, n) (?cs ! ?i) key val
              = Some ((h1, n1), map_option (\<lambda>qr. (raddr (snd qr), fst qr)) rc)"
      "list_all (repr h1) (node_children ts ?i tc rc)"
      "\<forall>b. b \<notin> set (addrs (ANode a ks ts)) \<longrightarrow> b < n \<longrightarrow> h1 b = h b"
      "h1 a = Some (InternalN ks ?cs)"
      "\<forall>c\<in>set (node_children ts ?i tc rc). a \<notin> set (addrs c) \<and> n1 \<notin> set (addrs c)"
      "raddr tc = raddr (ts ! ?i)" "n \<le> n1"
      by blast
    show ?thesis
    proof (cases rc)
      case None
      have cs: "map raddr (node_children ts ?i tc None) = ?cs"
        unfolding map_raddr_node_children(1)[OF keep(1)] h1(6) map_update_same ..
      have run: "insert_recursive ord (h, n) a key val = Some ((h1, n1), None)"
        using ha ilen h1(1) unfolding None
        by (subst insert_recursive.simps) (simp add: Let_def)
      have "repr h1 t'"
        unfolding keep(3) None repr.simps cs node_keys_def
        using h1(4) h1(2)[unfolded None] by simp
      then show ?thesis unfolding keep(4,5) using run h1(3) by (intro exI[of _ h1]) simp
    next
      case (Some qr)
      obtain q r where qr: "qr = (q, r)" by (cases qr)
      note rc = Some[unfolded qr]
      let ?ks1 = "node_keys ks ?i (Some (q, r))"
      let ?ts1 = "node_children ts ?i tc (Some (q, r))"
      have cs: "map raddr ?ts1 = take (Suc ?i) ?cs @ raddr r # drop (Suc ?i) ?cs"
        unfolding map_raddr_node_children(2)[OF keep(1)] h1(6) map_update_same ..
      have ks1: "?ks1 = take ?i ks @ q # drop ?i ks" by (simp add: node_keys_def)
      let ?h' = "h1(a \<mapsto> InternalN ?ks1 (map raddr ?ts1))"
      have lt: "length (take ?i ks @ q # drop ?i ks) < ord" using keep(6) unfolding rc ks1 .
      have run: "insert_recursive ord (h, n) a key val = Some ((?h', n1), None)"
        using ha ilen h1(1)[unfolded rc] h1(4) lt unfolding cs ks1
        by (subst insert_recursive.simps) (simp add: Let_def)
      have "list_all (repr ?h') ?ts1"
        using frame2[OF h1(2)[unfolded rc]] h1(5)[unfolded rc] by blast
      then have "repr ?h' t'" unfolding keep(3) rc repr.simps by simp
      then have B: "list_all (repr ?h') (res_trees t' res)"
        unfolding keep(5) by (simp only: res_trees_simps list.pred_inject simp_thms)
      have C: "\<forall>b. b \<notin> set (addrs (ANode a ks ts)) \<longrightarrow> b < n \<longrightarrow> ?h' b = h b"
        using h1(3) by simp
      have A: "insert_recursive ord (h, n) (raddr (ANode a ks ts)) key val
              = Some ((?h', n'), map_option (\<lambda>qr. (raddr (snd qr), fst qr)) res)"
        unfolding keep(4,5) using run by simp
      show ?thesis using A B C by blast
    qed
  next
    case (split tc n1 q r)
    from common[OF split(1,2)] obtain h1 where h1:
      "insert_recursive ord (h, n) (?cs ! ?i) key val
              = Some ((h1, n1), Some (raddr r, q))"
      "list_all (repr h1) (node_children ts ?i tc (Some (q, r)))"
      "\<forall>b. b \<notin> set (addrs (ANode a ks ts)) \<longrightarrow> b < n \<longrightarrow> h1 b = h b"
      "h1 a = Some (InternalN ks ?cs)"
      "\<forall>c\<in>set (node_children ts ?i tc (Some (q, r))). a \<notin> set (addrs c) \<and> n1 \<notin> set (addrs c)"
      "raddr tc = raddr (ts ! ?i)" "n \<le> n1"
      by auto
    let ?ks1 = "node_keys ks ?i (Some (q, r))"
    let ?ts1 = "node_children ts ?i tc (Some (q, r))"
    let ?m = "ord div 2"
    have cs: "map raddr ?ts1 = take (Suc ?i) ?cs @ raddr r # drop (Suc ?i) ?cs"
      unfolding map_raddr_node_children(2)[OF split(1)] h1(6) map_update_same ..
    have ks1: "?ks1 = take ?i ks @ q # drop ?i ks" by (simp add: node_keys_def)
    let ?h2 = "h1(n1 \<mapsto> InternalN (drop (Suc ?m) ?ks1) (drop (Suc ?m) (map raddr ?ts1)))"
    let ?h' = "?h2(a \<mapsto> InternalN (take ?m ?ks1) (take (Suc ?m) (map raddr ?ts1)))"
    have full: "length (take ?i ks @ q # drop ?i ks) = ord" using split(6) unfolding ks1 .
    have run: "insert_recursive ord (h, n) a key val
        = Some ((?h', Suc n1), Some (n1, ?ks1 ! ?m))"
      using ha ilen h1(1) h1(4) full unfolding cs ks1
      by (subst insert_recursive.simps) (simp add: Let_def split_internal_def)
    have an1: "a \<noteq> n1" using an h1(7) by simp
    have "list_all (repr ?h2) ?ts1" using frame2[OF h1(2)] h1(5) by blast
    then have all: "list_all (repr ?h') ?ts1" using frame2 h1(5) by blast
    have R1: "repr ?h' t'"
      unfolding split(3) repr.simps using all
      by (auto simp: list_all_iff take_map dest: in_set_takeD)
    have R2: "repr ?h' (ANode n1 (drop (Suc ?m) ?ks1) (drop (Suc ?m) ?ts1))"
      unfolding repr.simps using all an1
      by (auto simp: list_all_iff drop_map dest: in_set_dropD)
    have C: "\<forall>b. b \<notin> set (addrs (ANode a ks ts)) \<longrightarrow> b < n \<longrightarrow> ?h' b = h b"
      using h1(3) h1(7) by simp
    have B: "list_all (repr ?h') (res_trees t' res)"
      unfolding split(5) using R1 R2 by (simp only: res_trees_simps list.pred_inject simp_thms)
    have A: "insert_recursive ord (h, n) (raddr (ANode a ks ts)) key val
              = Some ((?h', n'), map_option (\<lambda>qr. (raddr (snd qr), fst qr)) res)"
      unfolding split(4,5) using run by simp
    show ?thesis using A B C by blast
  qed
qed

subsection \<open>The operations keep the invariant\<close>

lemma bp_inv_new:
  "BPlusTree_new ord = Inr T \<Longrightarrow> 0 < ord \<Longrightarrow> bp_inv ord T (ALeaf 0 [] None)"
  by (auto simp: BPlusTree_new_def bp_inv_def lower_ok_def upper_ok_def)

lemma tree_search_inv:
  assumes "bp_inv ord T t"
  shows "tree_search T key = Some (map_of (pairs t) key)"
proof -
  from assms have r: "repr (heap T) t" and sh: "shape ord t" and rt: "raddr t = root T"
    and o: "ordered None None t" by (simp_all add: bp_inv_def)
  note d = descend_ub_repr[OF r sh, of key, unfolded rt]
  show ?thesis unfolding tree_search_def using d adescend_ub_lookup(1)[OF o, of key]
    by (simp add: leaf_lookup_map_of)
qed

lemma ordered_distinct_keys: "ordered lo hi t \<Longrightarrow> distinct (map fst (pairs t))"
  using ordered_sorted(1)[of lo hi t] strict_sorted_iff[of "map fst (pairs t)"] by simp

lemma tree_insert_inv:
  assumes inv: "bp_inv ord T t" and ord: "3 \<le> ord" and fresh: "map_of (pairs t) key = None"
  shows "\<exists>T' t'. tree_insert ord T key val = Some T' \<and> bp_inv ord T' t'
            \<and> map_of (pairs t') = (map_of (pairs t))(key \<mapsto> val)
            \<and> set (pairs t') = insert (key, val) (set (pairs t))"
proof -
  from inv have r: "repr (heap T) t" and sh: "shape ord t" and rt: "raddr t = root T"
    and o: "ordered None None t" and d: "distinct (addrs t)"
    and b: "\<forall>b\<in>set (addrs t). b < next_addr T" and l: "linked (leaves t) None"
    and sz: "tsize T = length (pairs t)"
    by (simp_all add: bp_inv_def list_all_iff)
  let ?n = "next_addr T"
  obtain t1 n1 res where a: "ains ord ?n t key val = (t1, n1, res)"
    by (cases "ains ord ?n t key val") auto
  have nk: "key \<notin> fst ` set (pairs t)" using fresh by (simp add: map_of_eq_None_iff)
  have ord0: "0 < ord" using ord by simp
  note S = ains_shape[OF sh ord a]
  note A = ains_addrs[OF sh ord d b a]
  note L = ains_leaves[OF sh ord a]
  have O: "case res of None \<Rightarrow> ordered None None t1
              | Some (q, r) \<Rightarrow> lower_ok None q \<and> upper_le q None \<and> ordered None (Some q) t1
                                \<and> ordered (Some q) None r"
    using ordered_ains(1)[OF o _ _ nk ord0 a] by (simp add: lower_ok_def upper_ok_def)
  from insert_recursive_repr[OF r sh ord d b a] obtain h' where
    run: "insert_recursive ord (heap T, ?n) (root T) key val
              = Some ((h', n1), map_option (\<lambda>qr. (raddr (snd qr), fst qr)) res)"
    and R: "list_all (repr h') (res_trees t1 res)"
    unfolding rt by blast
  have Llink: "linked (concat (map leaves (res_trees t1 res))) None"
    using L l by (metis append_Nil append_Nil2)
  show ?thesis
  proof (cases res)
    case None
    let ?T' = "T\<lparr>heap := h', next_addr := n1, tsize := Suc (tsize T)\<rparr>"
    have ti: "tree_insert ord T key val = Some ?T'"
      unfolding tree_insert_def run None by simp
    have p: "set (pairs t1) = insert (key, val) (set (pairs t))"
      "length (pairs t1) = Suc (length (pairs t))"
      using L unfolding None by (simp_all add: pairs_def)
    have lt: "\<forall>a\<in>set (addrs t1). a < n1"
      using A b unfolding None by fastforce
    have "bp_inv ord ?T' t1"
      unfolding bp_inv_def using R S A O Llink p(2) rt sz lt unfolding None
      by (simp add: list_all_iff)
    moreover have "map_of (pairs t1) = (map_of (pairs t))(key \<mapsto> val)"
    proof -
      have o1: "ordered None None t1" using O unfolding None by simp
      have "map_of (pairs t1) = map_of ((key, val) # pairs t)"
        using ordered_distinct_keys[OF o1] ordered_distinct_keys[OF o] nk p(1)
        by (intro map_of_inject_set[THEN iffD2]) auto
      then show ?thesis by simp
    qed
    ultimately show ?thesis using ti p(1) by blast
  next
    case (Some qr)
    obtain q r where qr: "qr = (q, r)" by (cases qr)
    note res = Some[unfolded qr]
    let ?h = "h'(n1 \<mapsto> InternalN [q] [root T, raddr r])"
    let ?T' = "T\<lparr>heap := ?h, root := n1, next_addr := Suc n1, tsize := Suc (tsize T)\<rparr>"
    let ?t' = "ANode n1 [q] [t1, r]"
    have ti: "tree_insert ord T key val = Some ?T'"
      unfolding tree_insert_def run res by simp
    have p: "set (pairs ?t') = insert (key, val) (set (pairs t))"
      "length (pairs ?t') = Suc (length (pairs t))"
      using L unfolding res by (simp_all add: pairs_def)
    have A': "distinct (addrs t1 @ addrs r)"
      "set (addrs t1 @ addrs r) = set (addrs t) \<union> {?n..<n1}" "?n \<le> n1"
      using A unfolding res by simp_all
    have lt: "\<forall>b\<in>set (addrs t1 @ addrs r). b < n1" unfolding A'(2) using b A'(3) by auto
    then have n1: "n1 \<notin> set (addrs t1)" "n1 \<notin> set (addrs r)" by auto
    have R': "repr ?h t1" "repr ?h r"
      using R n1 unfolding res by (auto intro: repr_frame)
    have rt1: "raddr t1 = root T" using S rt by simp
    have i1: "repr (heap ?T') ?t'" unfolding repr.simps using R' rt1 by simp
    have i2: "shape ord ?t'" using S ord unfolding res by simp
    have i3: "distinct (addrs ?t')" using A'(1) n1 by simp
    have i4: "list_all (\<lambda>a. a < next_addr ?T') (addrs ?t')"
      using lt by (auto simp: list_all_iff intro!: less_SucI)
    have o': "ordered None None ?t'" using O unfolding res by simp
    have i5: "linked (leaves ?t') None" using Llink unfolding res by simp
    have i6: "raddr ?t' = root ?T'" by simp
    have i7: "tsize ?T' = length (pairs ?t')" using p(2) sz by simp
    have "bp_inv ord ?T' ?t'"
      unfolding bp_inv_def using i1 i6 i2 i3 i4 o' i5 i7 by blast
    moreover have "map_of (pairs ?t') = (map_of (pairs t))(key \<mapsto> val)"
    proof -
      have "map_of (pairs ?t') = map_of ((key, val) # pairs t)"
        using ordered_distinct_keys[OF o'] ordered_distinct_keys[OF o] nk p(1)
        by (intro map_of_inject_set[THEN iffD2]) auto
      then show ?thesis by simp
    qed
    ultimately show ?thesis using ti p(1) by blast
  qed
qed

text \<open>The leaf reached by the descent is sorted and has room.\<close>

lemma leaf_reached_sorted:
  fixes t :: "('k::linorder, 'v) atree" and ts :: "('k, 'v) atree list"
  shows "ordered lo hi t \<Longrightarrow> sorted_wrt (<) (map fst (fst (snd (adescend_ub t key))))"
    and "ordered_list lo hi ks ts
      \<Longrightarrow> sorted_wrt (<) (map fst (fst (snd (adescend_ub_list ks ts key))))"
proof (induction t key and ks ts key arbitrary: lo hi and lo hi
    rule: adescend_ub_adescend_ub_list.induct)
  case (1 a kvs nxt key)
  then show ?case by simp
next
  case (2 a ks ts key)
  then show ?case by simp
next
  case (3 ks key)
  then show ?case by simp
next
  case (4 t ts key)
  then show ?case by (cases ts) auto
next
  case (5 k ks t ts key)
  then show ?case by (auto split: if_splits)
qed

lemma leaf_reached_small:
  "shape ord t \<Longrightarrow> length (fst (snd (adescend_ub t key))) < ord"
proof (induction t)
  case (ALeaf a kvs nxt)
  then show ?case by simp
next
  case (ANode a ks ts)
  let ?i = "upper_bound_idx ks key"
  from ANode.prems have len: "length ts = Suc (length ks)" and sh: "list_all (shape ord) ts"
    by simp_all
  have i: "?i < length ts" using upper_bound_idx_le[of ks key] len by simp
  have "shape ord (ts ! ?i)" using sh i by (simp add: list_all_length)
  from ANode.IH[OF nth_mem[OF i] this] show ?case
    by (simp add: adescend_ub_list_nth[OF len])
qed

lemma leaf_remove_None: "(leaf_remove kvs key = None) = (map_of kvs key = None)"
  by (induction kvs) auto

lemma leaf_remove_Some:
  fixes kvs :: "(('k::linorder) \<times> 'v) list"
  shows "leaf_remove kvs key = Some kvs' \<Longrightarrow> sorted_wrt (<) (map fst kvs)
   \<Longrightarrow> sorted_wrt (<) (map fst kvs') \<and> set (map fst kvs') \<subseteq> set (map fst kvs)
       \<and> Suc (length kvs') = length kvs \<and> map_of kvs' = (map_of kvs)(key := None)"
proof (induction kvs arbitrary: kvs')
  case Nil
  then show ?case by simp
next
  case (Cons kv kvs)
  obtain k v where kv: "kv = (k, v)" by (cases kv)
  show ?case
  proof (cases "k = key")
    case True
    with Cons.prems kv have e: "kvs' = kvs" by simp
    have "\<forall>x\<in>set kvs. key < fst x" using Cons.prems(2) True kv by simp
    then have "key \<notin> fst ` set kvs" by fastforce
    then have "map_of kvs key = None" by (simp add: map_of_eq_None_iff)
    then have m: "map_of kvs' = (map_of (kv # kvs))(key := None)"
      unfolding kv True e by (auto simp: fun_eq_iff)
    have "sorted_wrt (<) (map fst kvs')" "set (map fst kvs') \<subseteq> set (map fst (kv # kvs))"
      "Suc (length kvs') = length (kv # kvs)"
      unfolding e using Cons.prems(2) by auto
    with m show ?thesis by blast
  next
    case False
    with Cons.prems(1) kv obtain r where r: "leaf_remove kvs key = Some r" "kvs' = (k, v) # r"
      by auto
    from Cons.prems(2) have s: "sorted_wrt (<) (map fst kvs)" by simp
    note ih = Cons.IH[OF r(1) s]
    have sub: "set (map fst r) \<subseteq> set (map fst kvs)" using ih by simp
    have "\<forall>x\<in>set (map fst kvs). k < x" using Cons.prems(2) unfolding kv by simp
    then have "\<forall>x\<in>set (map fst r). k < x" using sub by blast
    then have "sorted_wrt (<) (map fst kvs')" using ih unfolding r(2) by simp
    moreover have "map_of kvs' = (map_of (kv # kvs))(key := None)"
      using ih False unfolding r(2) kv by (auto simp: fun_eq_iff)
    moreover have "set (map fst kvs') \<subseteq> set (map fst (kv # kvs))"
      "Suc (length kvs') = length (kv # kvs)"
      using ih unfolding r(2) kv by auto
    ultimately show ?thesis by blast
  qed
qed

lemma leaf_update_None: "(leaf_update kvs key val = None) = (map_of kvs key = None)"
  by (induction kvs) auto

lemma leaf_update_Some:
  "leaf_update kvs key val = Some kvs'
   \<Longrightarrow> map fst kvs' = map fst kvs \<and> map_of kvs' = (map_of kvs)(key \<mapsto> val)"
proof (induction kvs arbitrary: kvs')
  case Nil
  then show ?case by simp
next
  case (Cons kv kvs)
  obtain k v where kv: "kv = (k, v)" by (cases kv)
  show ?case
  proof (cases "k = key")
    case True
    with Cons.prems kv show ?thesis by (auto simp: fun_eq_iff)
  next
    case False
    with Cons.prems(1) kv obtain r where r: "leaf_update kvs key val = Some r" "kvs' = (k, v) # r"
      by auto
    from Cons.IH[OF r(1)] False show ?thesis unfolding r(2) kv by (auto simp: fun_eq_iff)
  qed
qed

lemma length_pairs_dom:
  "ordered lo hi t \<Longrightarrow> length (pairs t) = card (dom (map_of (pairs t)))"
  using ordered_distinct_keys[of lo hi t] distinct_card[of "map fst (pairs t)"]
  by (simp add: dom_map_of_conv_image_fst)

text \<open>Replacing the pairs of the leaf reached, by pairs with keys among the old ones.\<close>

lemma bp_inv_areplace:
  assumes inv: "bp_inv ord T t"
    and s: "sorted_wrt (<) (map fst kvs')"
    and sub: "set (map fst kvs') \<subseteq> set (map fst (fst (snd (adescend_ub t key))))"
    and len: "length kvs' < ord"
    and h: "h' = (heap T)(fst (adescend_ub t key) \<mapsto> LeafN kvs' (snd (snd (adescend_ub t key))))"
    and n: "n = length (pairs (areplace t key kvs'))"
  shows "bp_inv ord (T\<lparr>heap := h', tsize := n\<rparr>) (areplace t key kvs')"
proof -
  from inv have r: "repr (heap T) t" and sh: "shape ord t" and rt: "raddr t = root T"
    and o: "ordered None None t" and d: "distinct (addrs t)"
    and b: "list_all (\<lambda>a. a < next_addr T) (addrs t)" and l: "linked (leaves t) None"
    by (simp_all add: bp_inv_def)
  let ?T = "T\<lparr>heap := h', tsize := n\<rparr>" and ?t = "areplace t key kvs'"
  have i1: "repr (heap ?T) ?t" using repr_areplace[OF r sh d, of key kvs'] h by simp
  have i2: "raddr ?t = root ?T" using rt by simp
  have i3: "shape ord ?t" using shape_areplace[OF sh len] .
  have i4: "distinct (addrs ?t)" using d addrs_areplace[OF sh] by simp
  have i5: "list_all (\<lambda>a. a < next_addr ?T) (addrs ?t)" using b addrs_areplace[OF sh] by simp
  have i6: "ordered None None ?t" using ordered_areplace(1)[OF o s sub] .
  have i7: "linked (leaves ?t) None"
    using l linked_links[OF links_areplace[OF sh, of key kvs'], of None] by simp
  have i8: "tsize ?T = length (pairs ?t)" using n by simp
  show ?thesis unfolding bp_inv_def using i1 i2 i3 i4 i5 i6 i7 i8 by blast
qed

lemma tree_remove_inv:
  assumes inv: "bp_inv ord T t"
  shows "(map_of (pairs t) key = None \<longrightarrow> tree_remove T key = Some (False, T))
       \<and> (map_of (pairs t) key \<noteq> None \<longrightarrow>
            (\<exists>T' t'. tree_remove T key = Some (True, T') \<and> bp_inv ord T' t'
               \<and> map_of (pairs t') = (map_of (pairs t))(key := None)
               \<and> Suc (tsize T') = tsize T))"
proof -
  from inv have r: "repr (heap T) t" and sh: "shape ord t" and rt: "raddr t = root T"
    and o: "ordered None None t" and sz: "tsize T = length (pairs t)"
    by (simp_all add: bp_inv_def)
  let ?a = "fst (adescend_ub t key)" and ?kvs = "fst (snd (adescend_ub t key))"
  let ?nx = "snd (snd (adescend_ub t key))"
  note rr = remove_recursive_repr[OF r sh, of key, unfolded rt]
  note lk = adescend_ub_lookup(1)[OF o, of key]
  show ?thesis
  proof (cases "leaf_remove ?kvs key")
    case None
    then have "map_of (pairs t) key = None" using lk by (simp add: leaf_remove_None)
    moreover have "tree_remove T key = Some (False, T)"
      unfolding tree_remove_def rr None by simp
    ultimately show ?thesis by simp
  next
    case (Some kvs')
    then have pres: "map_of (pairs t) key \<noteq> None"
      using lk leaf_remove_None[of ?kvs key] by simp
    note f = leaf_remove_Some[OF Some leaf_reached_sorted(1)[OF o]]
    let ?h = "(heap T)(?a \<mapsto> LeafN kvs' ?nx)"
    let ?t' = "areplace t key kvs'"
    have len: "length kvs' < ord" using f leaf_reached_small[OF sh, of key] by simp
    have m: "map_of (pairs ?t') = (map_of (pairs t))(key := None)"
    proof
      fix k'
      have "map_of (pairs ?t') k' = (if k' = key then map_of kvs' key else map_of (pairs t) k')"
        using map_of_areplace(1)[OF o, of k' key kvs'] f by simp
      then show "map_of (pairs ?t') k' = ((map_of (pairs t))(key := None)) k'" using f by simp
    qed
    have o': "ordered None None ?t'" using ordered_areplace(1)[OF o] f by blast
    have dm: "dom (map_of (pairs ?t')) = dom (map_of (pairs t)) - {key}" unfolding m by auto
    have "key \<in> dom (map_of (pairs t))" using pres by auto
    moreover have "finite (dom (map_of (pairs t)))" by (rule finite_dom_map_of)
    ultimately have "Suc (card (dom (map_of (pairs ?t')))) = card (dom (map_of (pairs t)))"
      unfolding dm by (rule card_Suc_Diff1[rotated])
    then have n: "Suc (length (pairs ?t')) = length (pairs t)"
      using length_pairs_dom[OF o] length_pairs_dom[OF o'] by simp
    let ?n = "if tsize T = 0 then 2 ^ 64 - 1 else tsize T - 1"
    have nz: "tsize T \<noteq> 0" "tsize T - 1 = length (pairs ?t')" using n sz by linarith+
    then have n': "?n = length (pairs ?t')" by (simp only: if_False)
    have sn: "Suc ?n = tsize T" unfolding n' using n sz by simp
    have inv': "bp_inv ord (T\<lparr>heap := ?h, tsize := ?n\<rparr>) ?t'"
      using bp_inv_areplace[OF inv _ _ len refl n'] f by blast
    then have r': "repr ?h ?t'" and sh': "shape ord ?t'" and rt': "raddr ?t' = root T"
      by (simp_all add: bp_inv_def)
    have root: "\<exists>kvs nx. ?h (root T) = Some (LeafN kvs nx)
                  \<or> (\<exists>k ks cs. ?h (root T) = Some (InternalN (k # ks) cs))"
    proof (cases ?t')
      case (ALeaf a kvs nx)
      then show ?thesis using r' rt' by auto
    next
      case (ANode a ks ts)
      then show ?thesis using r' rt' sh' by (cases ks) auto
    qed
    have "tree_remove T key = Some (True, T\<lparr>heap := ?h, tsize := ?n\<rparr>)"
      unfolding tree_remove_def rr Some using root by (auto simp: Let_def)
    moreover have "Suc (tsize (T\<lparr>heap := ?h, tsize := ?n\<rparr>)) = tsize T"
    proof -
      have sel: "tsize (T\<lparr>heap := h, tsize := x\<rparr>) = x" for h x by simp
      show ?thesis unfolding sel using sn .
    qed
    ultimately show ?thesis using inv' m pres by blast
  qed
qed

lemma tree_update_inv:
  assumes inv: "bp_inv ord T t"
  shows "(map_of (pairs t) key = None \<longrightarrow> tree_update T key val = Some (False, T))
       \<and> (map_of (pairs t) key \<noteq> None \<longrightarrow>
            (\<exists>T' t'. tree_update T key val = Some (True, T') \<and> bp_inv ord T' t'
               \<and> map_of (pairs t') = (map_of (pairs t))(key \<mapsto> val)
               \<and> tsize T' = tsize T))"
proof -
  from inv have r: "repr (heap T) t" and sh: "shape ord t" and rt: "raddr t = root T"
    and o: "ordered None None t" and sz: "tsize T = length (pairs t)"
    by (simp_all add: bp_inv_def)
  let ?a = "fst (adescend_ub t key)" and ?kvs = "fst (snd (adescend_ub t key))"
  let ?nx = "snd (snd (adescend_ub t key))"
  note dr = descend_ub_repr[OF r sh, of key, unfolded rt]
  note lk = adescend_ub_lookup(1)[OF o, of key]
  show ?thesis
  proof (cases "leaf_update ?kvs key val")
    case None
    then have "map_of (pairs t) key = None" using lk by (simp add: leaf_update_None)
    moreover have "tree_update T key val = Some (False, T)"
      unfolding tree_update_def using dr None by simp
    ultimately show ?thesis by simp
  next
    case (Some kvs')
    then have pres: "map_of (pairs t) key \<noteq> None"
      using lk leaf_update_None[of ?kvs key val] by simp
    note f = leaf_update_Some[OF Some]
    let ?h = "(heap T)(?a \<mapsto> LeafN kvs' ?nx)"
    let ?t' = "areplace t key kvs'"
    have len: "length kvs' < ord"
      using f leaf_reached_small[OF sh, of key] by (metis length_map)
    have s: "sorted_wrt (<) (map fst kvs')" using f leaf_reached_sorted(1)[OF o, of key] by simp
    have sub: "set (map fst kvs') \<subseteq> set (map fst ?kvs)" using f by simp
    have m: "map_of (pairs ?t') = (map_of (pairs t))(key \<mapsto> val)"
    proof
      fix k'
      have "map_of (pairs ?t') k' = (if k' = key then map_of kvs' key else map_of (pairs t) k')"
        using map_of_areplace(1)[OF o, of k' key kvs'] f by simp
      then show "map_of (pairs ?t') k' = ((map_of (pairs t))(key \<mapsto> val)) k'" using f by simp
    qed
    have o': "ordered None None ?t'" using ordered_areplace(1)[OF o s sub] .
    have "dom (map_of (pairs ?t')) = dom (map_of (pairs t))" unfolding m using pres by auto
    then have n: "tsize T = length (pairs ?t')"
      using length_pairs_dom[OF o] length_pairs_dom[OF o'] sz by simp
    have eq: "T\<lparr>heap := ?h, tsize := tsize T\<rparr> = T\<lparr>heap := ?h\<rparr>" by simp
    have inv': "bp_inv ord (T\<lparr>heap := ?h\<rparr>) ?t'"
      using bp_inv_areplace[OF inv s sub len refl n] unfolding eq .
    have "tree_update T key val = Some (True, T\<lparr>heap := ?h\<rparr>)"
      unfolding tree_update_def using dr Some by simp
    then show ?thesis using inv' m pres by auto
  qed
qed

subsection \<open>\<^verbatim>\<open>range\<close>\<close>

text \<open>The lower-bound descent reaches a leaf with no key of the range to its left.\<close>

lemma adescend_lb_suffix:
  fixes t :: "('k::linorder, 'v) atree" and ts :: "('k, 'v) atree list"
  shows "ordered lo0 hi0 t
      \<Longrightarrow> \<exists>pre. leaves t = pre @ adescend_lb t key
                \<and> (\<forall>x\<in>fst ` set (leaf_pairs pre). x < key)"
    and "ordered_list lo0 hi0 ks ts
      \<Longrightarrow> \<exists>pre. concat (map leaves ts) = pre @ adescend_lb_list ks ts key
                \<and> (\<forall>x\<in>fst ` set (leaf_pairs pre). x < key)"
proof (induction t key and ks ts key arbitrary: lo0 hi0 and lo0 hi0
    rule: adescend_lb_adescend_lb_list.induct)
  case (1 a kvs nxt key)
  show ?case by simp
next
  case (2 a ks ts key)
  then show ?case by simp
next
  case (3 ks key)
  show ?case by simp
next
  case (4 t ts key)
  from 4(2) have ts: "ts = []" and o: "ordered lo0 hi0 t"
    by (auto split: list.splits)
  from 4(1)[OF o] show ?case unfolding ts by simp
next
  case (5 k ks t ts key)
  from 5(3) have ot: "ordered lo0 (Some k) t" and os: "ordered_list (Some k) hi0 ks ts"
    by simp_all
  show ?case
  proof (cases "key > k")
    case True
    from 5(1)[OF True os] obtain pre where
      pre: "concat (map leaves ts) = pre @ adescend_lb_list ks ts key"
      "\<forall>x\<in>fst ` set (leaf_pairs pre). x < key" by blast
    have "\<forall>x\<in>fst ` set (pairs t). x < k"
      using ordered_bounds(1)[OF ot] by (simp add: upper_ok_def)
    then have "\<forall>x\<in>fst ` set (leaf_pairs (leaves t)). x < key"
      using True unfolding pairs_def by fastforce
    then have "\<forall>x\<in>fst ` set (leaf_pairs (leaves t @ pre)). x < key"
      using pre(2) by auto
    moreover have "concat (map leaves (t # ts)) = (leaves t @ pre) @ adescend_lb_list (k # ks) (t # ts) key"
      using True pre(1) by simp
    ultimately show ?thesis by blast
  next
    case False
    from 5(2)[OF False ot] obtain pre where
      pre: "leaves t = pre @ adescend_lb t key"
      "\<forall>x\<in>fst ` set (leaf_pairs pre). x < key" by blast
    have "concat (map leaves (t # ts)) = pre @ adescend_lb_list (k # ks) (t # ts) key"
      using False pre(1) by simp
    then show ?thesis using pre(2) by blast
  qed
qed

lemma adescend_lb_list_nth:
  "length ts = Suc (length ks)
   \<Longrightarrow> adescend_lb_list ks ts key
       = adescend_lb (ts ! lower_bound_idx ks key) key
           @ concat (map leaves (drop (Suc (lower_bound_idx ks key)) ts))"
proof (induction ks arbitrary: ts)
  case Nil
  then show ?case by (cases ts) auto
next
  case (Cons k ks)
  then obtain t ts' where ts: "ts = t # ts'" and len: "length ts' = Suc (length ks)"
    by (cases ts) auto
  show ?case unfolding ts using Cons.IH[OF len] by simp
qed

lemma descend_lb_repr:
  "repr h t \<Longrightarrow> shape ord t
   \<Longrightarrow> adescend_lb t key \<noteq> []
       \<and> descend_lb h (raddr t) key = Some (fst (hd (adescend_lb t key)))"
proof (induction t)
  case (ALeaf a kvs nxt)
  then show ?case by (subst descend_lb.simps) simp
next
  case (ANode a ks ts)
  let ?i = "lower_bound_idx ks key"
  from ANode.prems have len: "length ts = Suc (length ks)" and sh: "list_all (shape ord) ts"
    and ha: "h a = Some (InternalN ks (map raddr ts))" and rs: "list_all (repr h) ts"
    by simp_all
  have i: "?i < length ts" using lower_bound_idx_le[of ks key] len by simp
  have "shape ord (ts ! ?i)" "repr h (ts ! ?i)" using sh rs i by (simp_all add: list_all_length)
  from ANode.IH[OF nth_mem[OF i] this(2,1)]
  have ih: "adescend_lb (ts ! ?i) key \<noteq> []"
    "descend_lb h (raddr (ts ! ?i)) key = Some (fst (hd (adescend_lb (ts ! ?i) key)))"
    by simp_all
  have "descend_lb h a key = Some (fst (hd (adescend_lb (ts ! ?i) key)))"
    using ha i ih(2) by (subst descend_lb.simps) (simp add: Let_def)
  then show ?case using ih(1) by (simp add: adescend_lb_list_nth[OF len])
qed

lemma repr_leaves:
  "repr h t \<Longrightarrow> \<forall>l\<in>set (leaves t). h (fst l) = Some (LeafN (fst (snd l)) (snd (snd l)))"
proof (induction t)
  case (ALeaf a kvs nxt)
  then show ?case by simp
next
  case (ANode a ks ts)
  then show ?case by (auto simp: list_all_iff)
qed

text \<open>The scan of the leaves along the chain is the scan of their pairs.\<close>

lemma range_leaf_append:
  "range_leaf (xs @ ys) lo hi acc
     = (if fst (range_leaf xs lo hi acc) then range_leaf xs lo hi acc
        else range_leaf ys lo hi (snd (range_leaf xs lo hi acc)))"
  by (induction xs lo hi acc rule: range_leaf.induct) auto

lemma linked_suffix: "linked (pre @ ls) e \<Longrightarrow> linked ls e"
proof (induction pre)
  case Nil
  then show ?case by simp
next
  case (Cons l pre)
  then show ?case by (cases "pre @ ls") auto
qed

lemma range_walk_leaves:
  "linked ls None
   \<Longrightarrow> \<forall>l\<in>set ls. h (fst l) = Some (LeafN (fst (snd l)) (snd (snd l)))
   \<Longrightarrow> range_walk h (case ls of [] \<Rightarrow> None | l # _ \<Rightarrow> Some (fst l)) lo hi acc
       = Some (snd (range_leaf (leaf_pairs ls) lo hi acc))"
proof (induction ls arbitrary: acc)
  case Nil
  show ?case by (subst range_walk.simps) simp
next
  case (Cons l ls)
  obtain a kvs nx where l: "l = (a, kvs, nx)" by (cases l)
  from Cons.prems(2) have ha: "h a = Some (LeafN kvs nx)" unfolding l by simp
  have nx: "nx = (case ls of [] \<Rightarrow> None | l' # _ \<Rightarrow> Some (fst l'))" and lk: "linked ls None"
    using Cons.prems(1) unfolding l by (cases ls; simp)+
  have ih: "range_walk h nx lo hi acc'
       = Some (snd (range_leaf (leaf_pairs ls) lo hi acc'))" for acc'
    unfolding nx using Cons.IH[OF lk] Cons.prems(2) by simp
  show ?case unfolding l
    by (subst range_walk.simps) (simp add: ha ih Let_def range_leaf_append)
qed

lemma range_leaf_sorted:
  fixes xs :: "(('k::linorder) \<times> 'v) list"
  shows "sorted_wrt (<) (map fst xs)
   \<Longrightarrow> snd (range_leaf xs lo hi acc) = acc @ filter (\<lambda>kv. lo \<le> fst kv \<and> fst kv \<le> hi) xs"
proof (induction xs arbitrary: acc)
  case Nil
  show ?case by simp
next
  case (Cons kv xs)
  obtain k v where kv: "kv = (k, v)" by (cases kv)
  from Cons.prems have s: "sorted_wrt (<) (map fst xs)" and gt: "\<forall>x\<in>set xs. k < fst x"
    unfolding kv by simp_all
  show ?case
  proof (cases "k > hi")
    case True
    have "filter (\<lambda>kv. lo \<le> fst kv \<and> fst kv \<le> hi) xs = []"
      using gt True by (fastforce simp: filter_empty_conv)
    moreover have "\<not> k \<le> hi" using True by (simp add: not_le)
    ultimately show ?thesis unfolding kv using True by simp
  next
    case False
    then have "k \<le> hi" by (simp add: not_less)
    then show ?thesis unfolding kv using False Cons.IH[OF s] by simp
  qed
qed

lemma tree_range_inv:
  assumes inv: "bp_inv ord T t"
  shows "tree_range T lo hi = Some (filter (\<lambda>kv. lo \<le> fst kv \<and> fst kv \<le> hi) (pairs t))"
proof -
  from inv have r: "repr (heap T) t" and sh: "shape ord t" and rt: "raddr t = root T"
    and o: "ordered None None t" and l: "linked (leaves t) None"
    by (simp_all add: bp_inv_def)
  let ?L = "adescend_lb t lo"
  let ?P = "\<lambda>kv. lo \<le> fst kv \<and> fst kv \<le> hi"
  from adescend_lb_suffix(1)[OF o, of lo] obtain pre where
    pre: "leaves t = pre @ ?L" "\<forall>x\<in>fst ` set (leaf_pairs pre). x < lo" by blast
  note d = descend_lb_repr[OF r sh, of lo, unfolded rt]
  have lk: "linked ?L None" using l unfolding pre(1) by (rule linked_suffix)
  have hp: "\<forall>l\<in>set ?L. heap T (fst l) = Some (LeafN (fst (snd l)) (snd (snd l)))"
    using repr_leaves[OF r] unfolding pre(1) by simp
  have start: "(case ?L of [] \<Rightarrow> None | l # _ \<Rightarrow> Some (fst l)) = Some (fst (hd ?L))"
    using d by (cases ?L) simp_all
  have p: "pairs t = leaf_pairs pre @ leaf_pairs ?L" unfolding pairs_def pre(1) by simp
  have s: "sorted_wrt (<) (map fst (leaf_pairs ?L))"
    using ordered_sorted(1)[OF o] unfolding p by (simp add: sorted_wrt_append)
  have "filter ?P (leaf_pairs pre) = []"
    using pre(2) by (fastforce simp: filter_empty_conv)
  then have f: "filter ?P (pairs t) = filter ?P (leaf_pairs ?L)" unfolding p by simp
  have "tree_range T lo hi = range_walk (heap T) (Some (fst (hd ?L))) lo hi []"
    unfolding tree_range_def using d by simp
  also have "\<dots> = Some (snd (range_leaf (leaf_pairs ?L) lo hi []))"
    using range_walk_leaves[OF lk hp, of lo hi "[]"] unfolding start .
  also have "\<dots> = Some (filter ?P (pairs t))"
    unfolding range_leaf_sorted[OF s] f by simp
  finally show ?thesis .
qed

subsection \<open>Sequences of operations\<close>

lemma tree_apply_inv:
  assumes inv: "bp_inv ord T t" and ord: "3 \<le> ord"
    and fresh: "fresh_inserts [op] (map_of (pairs t))"
  shows "\<exists>T' t'. tree_apply ord T op = Some T' \<and> bp_inv ord T' t'
           \<and> map_of (pairs t') = contents_apply (map_of (pairs t)) op"
proof (cases op)
  case (Insert k v)
  with fresh have "map_of (pairs t) k = None" by simp
  from tree_insert_inv[OF inv ord this, of v] show ?thesis unfolding Insert by auto
next
  case (Update k v)
  show ?thesis
  proof (cases "map_of (pairs t) k = None")
    case True
    then show ?thesis unfolding Update using tree_update_inv[OF inv, of k v] inv by auto
  next
    case False
    then show ?thesis unfolding Update using tree_update_inv[OF inv, of k v] by auto
  qed
next
  case (Remove k)
  show ?thesis
  proof (cases "map_of (pairs t) k = None")
    case True
    then have "(map_of (pairs t))(k := None) = map_of (pairs t)" by (auto simp: fun_eq_iff)
    then show ?thesis unfolding Remove using True tree_remove_inv[OF inv, of k] inv by auto
  next
    case False
    then show ?thesis unfolding Remove using tree_remove_inv[OF inv, of k] by auto
  qed
qed

lemma fresh_inserts_Cons:
  "fresh_inserts (op # ops) m
     = (fresh_inserts [op] m \<and> fresh_inserts ops (contents_apply m op))"
  by (cases op) simp_all

lemma tree_run_inv:
  "bp_inv ord T t \<Longrightarrow> 3 \<le> ord \<Longrightarrow> fresh_inserts ops (map_of (pairs t))
   \<Longrightarrow> \<exists>T' t'. tree_run ord ops T = Some T' \<and> bp_inv ord T' t'
          \<and> map_of (pairs t') = contents_after ops (map_of (pairs t))"
proof (induction ops arbitrary: T t)
  case Nil
  then show ?case by auto
next
  case (Cons op ops)
  from Cons.prems(3) have f: "fresh_inserts [op] (map_of (pairs t))"
    "fresh_inserts ops (contents_apply (map_of (pairs t)) op)"
    unfolding fresh_inserts_Cons[of op ops] by simp_all
  from tree_apply_inv[OF Cons.prems(1,2) f(1)] obtain T1 t1 where
    1: "tree_apply ord T op = Some T1" "bp_inv ord T1 t1"
    "map_of (pairs t1) = contents_apply (map_of (pairs t)) op" by blast
  from Cons.IH[OF 1(2) Cons.prems(2)] f(2) 1(3) obtain T' t' where
    2: "tree_run ord ops T1 = Some T'" "bp_inv ord T' t'"
    "map_of (pairs t') = contents_after ops (map_of (pairs t1))" by auto
  show ?case using 1(1,3) 2 by auto
qed

lemma contents_after_append:
  "contents_after (xs @ ys) m = contents_after ys (contents_after xs m)"
  by (induction xs arbitrary: m) simp_all

lemma contents_after_untouched:
  "k \<notin> op_key ` set ops \<Longrightarrow> contents_after ops m k = m k"
proof (induction ops arbitrary: m)
  case Nil
  show ?case by simp
next
  case (Cons op ops)
  then have "contents_after ops (contents_apply m op) k = contents_apply m op k" by simp
  moreover have "contents_apply m op k = m k" using Cons.prems by (cases op) auto
  ultimately show ?case by simp
qed

lemma insert_all_run: "insert_all ord kvs T = tree_run ord (map (\<lambda>kv. Insert (fst kv) (snd kv)) kvs) T"
  by (induction kvs arbitrary: T) (auto split: option.splits)

lemma fresh_inserts_distinct:
  "distinct (map fst kvs) \<Longrightarrow> dom m \<inter> fst ` set kvs = {}
   \<Longrightarrow> fresh_inserts (map (\<lambda>kv. Insert (fst kv) (snd kv)) kvs) m"
proof (induction kvs arbitrary: m)
  case Nil
  show ?case by simp
next
  case (Cons kv kvs)
  obtain k v where kv: "kv = (k, v)" by (cases kv)
  have d: "distinct (map fst kvs)" and nk: "k \<notin> fst ` set kvs"
    using Cons.prems(1) unfolding kv by simp_all
  have "dom (m(k \<mapsto> v)) \<inter> fst ` set kvs = {}" using Cons.prems(2) nk unfolding kv by auto
  from Cons.IH[OF d this]
  have "fresh_inserts (map (\<lambda>kv. Insert (fst kv) (snd kv)) kvs) (m(k \<mapsto> v))" .
  moreover have "m k = None" using Cons.prems(2) unfolding kv by auto
  ultimately show ?case unfolding kv by (simp only: list.map fst_conv snd_conv fresh_inserts.simps simp_thms)
qed

lemma contents_after_inserts:
  "distinct (map fst kvs) \<Longrightarrow> dom m \<inter> fst ` set kvs = {}
   \<Longrightarrow> contents_after (map (\<lambda>kv. Insert (fst kv) (snd kv)) kvs) m = m ++ map_of kvs"
proof (induction kvs arbitrary: m)
  case Nil
  show ?case by simp
next
  case (Cons kv kvs)
  obtain k v where kv: "kv = (k, v)" by (cases kv)
  have d: "distinct (map fst kvs)" and nk: "k \<notin> fst ` set kvs"
    using Cons.prems(1) unfolding kv by simp_all
  have dm: "dom (m(k \<mapsto> v)) \<inter> fst ` set kvs = {}"
    using Cons.prems(2) nk unfolding kv by auto
  have "k \<notin> dom (map_of kvs)" using nk by (simp add: dom_map_of_conv_image_fst)
  then have e: "m(k \<mapsto> v) ++ map_of kvs = m ++ map_of ((k, v) # kvs)"
    by (auto simp: fun_eq_iff map_add_def split: option.splits)
  have "contents_after (map (\<lambda>kv. Insert (fst kv) (snd kv)) (kv # kvs)) m
      = contents_after (map (\<lambda>kv. Insert (fst kv) (snd kv)) kvs) (m(k \<mapsto> v))"
    unfolding kv by (simp only: list.map fst_conv snd_conv contents_after.simps contents_apply.simps)
  also have "\<dots> = m(k \<mapsto> v) ++ map_of kvs" by (rule Cons.IH[OF d dm])
  finally show ?case unfolding e kv .
qed

lemma tree_run_new:
  assumes ord: "3 \<le> ord" and new: "BPlusTree_new ord = Inr T0"
    and fresh: "fresh_inserts ops Map.empty"
  shows "\<exists>T t. tree_run ord ops T0 = Some T \<and> bp_inv ord T t
           \<and> map_of (pairs t) = contents_after ops Map.empty"
proof -
  have "bp_inv ord T0 (ALeaf 0 [] None)" using bp_inv_new[OF new] ord by simp
  from tree_run_inv[OF this ord, of ops] fresh show ?thesis by simp
qed

lemma contents_after_insert_last:
  "k \<notin> op_key ` set post \<Longrightarrow> contents_after (pre @ Insert k v # post) m k = Some v"
  by (simp add: contents_after_append contents_after_untouched)

lemma pairs_sort_key:
  fixes xs :: "(('k::linorder) \<times> 'v) list"
  assumes s: "sorted_wrt (<) (map fst xs)" and d: "distinct (map fst kvs)"
    and m: "map_of xs = map_of kvs"
  shows "xs = sort_key fst kvs"
proof -
  have dx: "distinct (map fst xs)" using s strict_sorted_iff[of "map fst xs"] by simp
  have sx: "sorted (map fst xs)" using s strict_sorted_iff[of "map fst xs"] by simp
  have se: "set xs = set kvs" using map_of_inject_set[OF dx d] m by simp
  have inj: "inj_on fst (set kvs)" and dk: "distinct kvs" using d by (simp_all add: distinct_map)
  have "distinct (map fst (sort_key fst kvs))" using inj dk by (simp add: distinct_map)
  then show ?thesis
    using inj sx dx se
    by (intro map_sorted_distinct_set_unique[of fst]) simp_all
qed

text \<open>Claim C2. A tree of order at least 3 (the least order the specification admits) starts
  empty; a sequence of \<^verbatim>\<open>insert\<close>, \<^verbatim>\<open>update\<close> and \<^verbatim>\<open>remove\<close> calls in which every \<^verbatim>\<open>insert\<close> is
  of a key not in the tree at that time runs to the end, and afterwards \<^verbatim>\<open>search\<close> returns
  for every key what the calls left under it. In particular, for a pair \<^verbatim>\<open>(k, v)\<close> inserted
  by a call after which no call updates or removes \<^verbatim>\<open>k\<close>, \<^verbatim>\<open>search(k)\<close> returns \<^verbatim>\<open>v\<close>, across
  all the splits of leaves and internal nodes the calls cause.\<close>

theorem C2_point_round_trip:
  assumes "3 \<le> ord" and "BPlusTree_new ord = Inr T0" and "fresh_inserts ops Map.empty"
  shows "\<exists>T. tree_run ord ops T0 = Some T
      \<and> (\<forall>k. tree_search T k = Some (contents_after ops Map.empty k))
      \<and> (\<forall>pre k v post. ops = pre @ Insert k v # post \<and> k \<notin> op_key ` set post
            \<longrightarrow> tree_search T k = Some (Some v))"
proof -
  from tree_run_new[OF assms] obtain T t where
    T: "tree_run ord ops T0 = Some T" "bp_inv ord T t"
    "map_of (pairs t) = contents_after ops Map.empty" by blast
  have s: "tree_search T k = Some (contents_after ops Map.empty k)" for k
    using tree_search_inv[OF T(2), of k] T(3) by simp
  have "tree_search T k = Some (Some v)"
    if "ops = pre @ Insert k v # post \<and> k \<notin> op_key ` set post" for pre k v post
    using s[of k] that contents_after_insert_last[of k post pre v Map.empty] by simp
  with T(1) s show ?thesis by blast
qed

theorem C2_point_round_trip_witness:
  "3 \<le> (4::nat)
   \<and> BPlusTree_new 4
       = Inr (\<lparr>heap = [0 \<mapsto> LeafN [] None], root = 0, tsize = 0, next_addr = 1\<rparr>
               :: (int, int) BPlusTree)
   \<and> fresh_inserts [Insert 10 1, Insert 20 2, Insert 5 3, Insert 15 4, Insert 25 5,
         Insert 30 6, Insert (1::int) (7::int), Update 20 9, Remove 5] Map.empty
   \<and> (\<exists>T. tree_run 4 [Insert 10 1, Insert 20 2, Insert 5 3, Insert 15 4, Insert 25 5,
              Insert 30 6, Insert 1 7, Update 20 9, Remove 5]
             (\<lparr>heap = [0 \<mapsto> LeafN [] None], root = 0, tsize = 0, next_addr = 1\<rparr>
               :: (int, int) BPlusTree) = Some T
        \<and> tree_search T 10 = Some (Some 1) \<and> tree_search T 15 = Some (Some 4)
        \<and> tree_search T 30 = Some (Some 6) \<and> tree_search T 1 = Some (Some 7)
        \<and> tree_search T 20 = Some (Some 9) \<and> tree_search T 5 = Some None
        \<and> tree_search T 7 = Some None)"
  using C2_point_round_trip[of 4
      "\<lparr>heap = [0 \<mapsto> LeafN [] None], root = 0, tsize = 0, next_addr = 1\<rparr>
         :: (int, int) BPlusTree"
      "[Insert 10 1, Insert 20 2, Insert 5 3, Insert 15 4, Insert 25 5,
        Insert 30 6, Insert 1 7, Update 20 9, Remove 5]"]
  by (auto simp: BPlusTree_new_def)

text \<open>Claim C3. For a tree of order at least 3 built by inserting pairs with distinct keys,
  \<^verbatim>\<open>range(lo, hi)\<close> returns exactly the inserted pairs with \<^verbatim>\<open>lo \<le> key \<le> hi\<close>, in ascending
  order of the keys: the inserted pairs sorted by key, filtered by the bounds. For the keys
  1 to 20 and \<^verbatim>\<open>range(5, 10)\<close> these are the six pairs of the keys 5 to 10.\<close>

theorem C3_range:
  assumes "3 \<le> ord" and "BPlusTree_new ord = Inr T0" and "distinct (map fst kvs)"
  shows "\<exists>T. insert_all ord kvs T0 = Some T
      \<and> tree_range T lo hi
          = Some (filter (\<lambda>kv. lo \<le> fst kv \<and> fst kv \<le> hi) (sort_key fst kvs))"
proof -
  let ?ops = "map (\<lambda>kv. Insert (fst kv) (snd kv)) kvs"
  have f: "fresh_inserts ?ops Map.empty" using fresh_inserts_distinct[OF assms(3)] by simp
  from tree_run_new[OF assms(1,2) f] obtain T t where
    T: "tree_run ord ?ops T0 = Some T" "bp_inv ord T t"
    "map_of (pairs t) = contents_after ?ops Map.empty" by blast
  have m: "map_of (pairs t) = map_of kvs"
    unfolding T(3) using contents_after_inserts[OF assms(3), of Map.empty] by simp
  have "ordered None None t" using T(2) by (simp add: bp_inv_def)
  from pairs_sort_key[OF ordered_sorted(1)[OF this] assms(3) m]
  have "pairs t = sort_key fst kvs" .
  then show ?thesis using tree_range_inv[OF T(2), of lo hi] T(1) by (simp add: insert_all_run)
qed

theorem C3_range_witness:
  "3 \<le> (4::nat)
   \<and> BPlusTree_new 4
       = Inr (\<lparr>heap = [0 \<mapsto> LeafN [] None], root = 0, tsize = 0, next_addr = 1\<rparr>
               :: (int, int) BPlusTree)
   \<and> distinct (map fst [(1::int, 10::int), (2, 20), (3, 30), (4, 40), (5, 50), (6, 60),
         (7, 70), (8, 80), (9, 90), (10, 100), (11, 110), (12, 120), (13, 130), (14, 140),
         (15, 150), (16, 160), (17, 170), (18, 180), (19, 190), (20, 200)])
   \<and> (\<exists>T. insert_all 4 [(1, 10), (2, 20), (3, 30), (4, 40), (5, 50), (6, 60),
         (7, 70), (8, 80), (9, 90), (10, 100), (11, 110), (12, 120), (13, 130), (14, 140),
         (15, 150), (16, 160), (17, 170), (18, 180), (19, 190), (20, 200)]
             (\<lparr>heap = [0 \<mapsto> LeafN [] None], root = 0, tsize = 0, next_addr = 1\<rparr>
               :: (int, int) BPlusTree) = Some T
        \<and> tree_range T 5 10
            = Some [(5, 50), (6, 60), (7, 70), (8, 80), (9, 90), (10, 100)])"
  using C3_range[of 4
      "\<lparr>heap = [0 \<mapsto> LeafN [] None], root = 0, tsize = 0, next_addr = 1\<rparr>
         :: (int, int) BPlusTree"
      "[(1, 10), (2, 20), (3, 30), (4, 40), (5, 50), (6, 60),
         (7, 70), (8, 80), (9, 90), (10, 100), (11, 110), (12, 120), (13, 130), (14, 140),
         (15, 150), (16, 160), (17, 170), (18, 180), (19, 190), (20, 200)]" 5 10]
  by (simp add: BPlusTree_new_def)

text \<open>Claim C10. For a tree of order at least 3 reached by a sequence of calls in which
  every \<^verbatim>\<open>insert\<close> is of a key not in the tree at that time, and any key \<^verbatim>\<open>k\<close>: \<^verbatim>\<open>search(k)\<close>
  returns what the calls left under \<^verbatim>\<open>k\<close>; if that is nothing, \<^verbatim>\<open>remove(k)\<close> returns false and
  leaves the tree as it is; otherwise \<^verbatim>\<open>remove(k)\<close> returns true, the size goes down by one,
  \<^verbatim>\<open>search(k)\<close> returns nothing afterwards and \<^verbatim>\<open>search\<close> of every other key returns what it
  returned before. No node is merged or rebalanced, and earlier removals of the sequence may
  have left leaves underfull or empty.\<close>

theorem C10_remove_preserves:
  assumes "3 \<le> ord" and "BPlusTree_new ord = Inr T0" and "fresh_inserts ops Map.empty"
  shows "\<exists>T. tree_run ord ops T0 = Some T
      \<and> tree_search T k = Some (contents_after ops Map.empty k)
      \<and> (if tree_search T k = Some None
          then tree_remove T k = Some (False, T)
          else (\<exists>T'. tree_remove T k = Some (True, T') \<and> Suc (tsize T') = tsize T
                  \<and> tree_search T' k = Some None
                  \<and> (\<forall>k'. k' \<noteq> k \<longrightarrow> tree_search T' k' = tree_search T k')))"
proof -
  from tree_run_new[OF assms] obtain T t where
    T: "tree_run ord ops T0 = Some T" "bp_inv ord T t"
    "map_of (pairs t) = contents_after ops Map.empty" by blast
  have s: "tree_search T k' = Some (map_of (pairs t) k')" for k'
    using tree_search_inv[OF T(2)] .
  note r = tree_remove_inv[OF T(2), of k]
  have "if tree_search T k = Some None
          then tree_remove T k = Some (False, T)
          else (\<exists>T'. tree_remove T k = Some (True, T') \<and> Suc (tsize T') = tsize T
                  \<and> tree_search T' k = Some None
                  \<and> (\<forall>k'. k' \<noteq> k \<longrightarrow> tree_search T' k' = tree_search T k'))"
  proof (cases "map_of (pairs t) k = None")
    case True
    then show ?thesis using r s[of k] by simp
  next
    case False
    with r obtain T' t' where
      T': "tree_remove T k = Some (True, T')" "bp_inv ord T' t'"
      "map_of (pairs t') = (map_of (pairs t))(k := None)" "Suc (tsize T') = tsize T"
      by blast
    have s': "tree_search T' k' = Some (((map_of (pairs t))(k := None)) k')" for k'
      using tree_search_inv[OF T'(2), of k'] T'(3) by simp
    have "tree_search T' k = Some None" using s'[of k] by simp
    moreover have "\<forall>k'. k' \<noteq> k \<longrightarrow> tree_search T' k' = tree_search T k'"
      using s' s by simp
    ultimately show ?thesis using False T'(1,4) s[of k] by simp
  qed
  then show ?thesis using T(1) s[of k] T(3) by auto
qed

theorem C10_remove_preserves_witness:
  "3 \<le> (4::nat)
   \<and> BPlusTree_new 4
       = Inr (\<lparr>heap = [0 \<mapsto> LeafN [] None], root = 0, tsize = 0, next_addr = 1\<rparr>
               :: (int, int) BPlusTree)
   \<and> fresh_inserts [Insert 10 1, Insert 20 2, Insert 5 3, Insert 15 4, Insert 25 5,
         Insert 30 6, Insert (1::int) (7::int), Remove 15] Map.empty
   \<and> (\<exists>T. tree_run 4 [Insert 10 1, Insert 20 2, Insert 5 3, Insert 15 4, Insert 25 5,
              Insert 30 6, Insert 1 7, Remove 15]
             (\<lparr>heap = [0 \<mapsto> LeafN [] None], root = 0, tsize = 0, next_addr = 1\<rparr>
               :: (int, int) BPlusTree) = Some T
        \<and> tree_search T 20 = Some (Some 2)
        \<and> tree_search T 20 \<noteq> Some None
        \<and> (\<exists>T'. tree_remove T 20 = Some (True, T') \<and> Suc (tsize T') = tsize T
              \<and> tree_search T' 20 = Some None))"
  using C10_remove_preserves[of 4
      "\<lparr>heap = [0 \<mapsto> LeafN [] None], root = 0, tsize = 0, next_addr = 1\<rparr>
         :: (int, int) BPlusTree"
      "[Insert 10 1, Insert 20 2, Insert 5 3, Insert 15 4, Insert 25 5,
        Insert 30 6, Insert 1 7, Remove 15]" 20]
  by (auto simp: BPlusTree_new_def)

subsection \<open>The tree operations return, whatever the keys\<close>

lemma bp_inv_winv: "bp_inv ord T t \<Longrightarrow> bp_winv ord T t"
  by (simp add: bp_inv_def bp_winv_def)

lemma tree_insert_winv:
  assumes inv: "bp_winv ord T t" and ord: "3 \<le> ord"
  shows "\<exists>T' t'. tree_insert ord T key val = Some T' \<and> bp_winv ord T' t'
           \<and> set (pairs t') = insert (key, val) (set (pairs t))"
proof -
  from inv have r: "repr (heap T) t" and sh: "shape ord t" and rt: "raddr t = root T"
    and d: "distinct (addrs t)"
    and b: "\<forall>b\<in>set (addrs t). b < next_addr T" and l: "linked (leaves t) None"
    by (simp_all add: bp_winv_def list_all_iff)
  let ?n = "next_addr T"
  obtain t1 n1 res where a: "ains ord ?n t key val = (t1, n1, res)"
    by (cases "ains ord ?n t key val") auto
  note S = ains_shape[OF sh ord a]
  note A = ains_addrs[OF sh ord d b a]
  note L = ains_leaves[OF sh ord a]
  from insert_recursive_repr[OF r sh ord d b a] obtain h' where
    run: "insert_recursive ord (heap T, ?n) (root T) key val
              = Some ((h', n1), map_option (\<lambda>qr. (raddr (snd qr), fst qr)) res)"
    and R: "list_all (repr h') (res_trees t1 res)"
    unfolding rt by blast
  have Llink: "linked (concat (map leaves (res_trees t1 res))) None"
    using L l by (metis append_Nil append_Nil2)
  show ?thesis
  proof (cases res)
    case None
    let ?T' = "T\<lparr>heap := h', next_addr := n1, tsize := Suc (tsize T)\<rparr>"
    have ti: "tree_insert ord T key val = Some ?T'"
      unfolding tree_insert_def run None by simp
    have p: "set (pairs t1) = insert (key, val) (set (pairs t))"
      using L unfolding None by (simp_all add: pairs_def)
    have lt: "\<forall>a\<in>set (addrs t1). a < n1"
      using A b unfolding None by fastforce
    have "bp_winv ord ?T' t1"
      unfolding bp_winv_def using R S A Llink rt lt unfolding None
      by (simp add: list_all_iff)
    then show ?thesis using ti p by blast
  next
    case (Some qr)
    obtain q r where qr: "qr = (q, r)" by (cases qr)
    note res = Some[unfolded qr]
    let ?h = "h'(n1 \<mapsto> InternalN [q] [root T, raddr r])"
    let ?T' = "T\<lparr>heap := ?h, root := n1, next_addr := Suc n1, tsize := Suc (tsize T)\<rparr>"
    let ?t' = "ANode n1 [q] [t1, r]"
    have ti: "tree_insert ord T key val = Some ?T'"
      unfolding tree_insert_def run res by simp
    have p: "set (pairs ?t') = insert (key, val) (set (pairs t))"
      using L unfolding res by (simp_all add: pairs_def)
    have A': "distinct (addrs t1 @ addrs r)"
      "set (addrs t1 @ addrs r) = set (addrs t) \<union> {?n..<n1}" "?n \<le> n1"
      using A unfolding res by simp_all
    have lt: "\<forall>b\<in>set (addrs t1 @ addrs r). b < n1" unfolding A'(2) using b A'(3) by auto
    then have n1: "n1 \<notin> set (addrs t1)" "n1 \<notin> set (addrs r)" by auto
    have R': "repr ?h t1" "repr ?h r"
      using R n1 unfolding res by (auto intro: repr_frame)
    have rt1: "raddr t1 = root T" using S rt by simp
    have i1: "repr (heap ?T') ?t'" unfolding repr.simps using R' rt1 by simp
    have i2: "shape ord ?t'" using S ord unfolding res by simp
    have i3: "distinct (addrs ?t')" using A'(1) n1 by simp
    have i4: "list_all (\<lambda>a. a < next_addr ?T') (addrs ?t')"
      using lt by (auto simp: list_all_iff intro!: less_SucI)
    have i5: "linked (leaves ?t') None" using Llink unfolding res by simp
    have i6: "raddr ?t' = root ?T'" by simp
    have "bp_winv ord ?T' ?t'"
      unfolding bp_winv_def using i1 i6 i2 i3 i4 i5 by blast
    then show ?thesis using ti p by blast
  qed
qed

lemma bp_winv_areplace:
  assumes inv: "bp_winv ord T t"
    and len: "length kvs' < ord"
    and h: "h' = (heap T)(fst (adescend_ub t key) \<mapsto> LeafN kvs' (snd (snd (adescend_ub t key))))"
  shows "bp_winv ord (T\<lparr>heap := h', tsize := n\<rparr>) (areplace t key kvs')"
proof -
  from inv have r: "repr (heap T) t" and sh: "shape ord t" and rt: "raddr t = root T"
    and d: "distinct (addrs t)"
    and b: "list_all (\<lambda>a. a < next_addr T) (addrs t)" and l: "linked (leaves t) None"
    by (simp_all add: bp_winv_def)
  let ?T = "T\<lparr>heap := h', tsize := n\<rparr>" and ?t = "areplace t key kvs'"
  have i1: "repr (heap ?T) ?t" using repr_areplace[OF r sh d, of key kvs'] h by simp
  have i2: "raddr ?t = root ?T" using rt by simp
  have i3: "shape ord ?t" using shape_areplace[OF sh len] .
  have i4: "distinct (addrs ?t)" using d addrs_areplace[OF sh] by simp
  have i5: "list_all (\<lambda>a. a < next_addr ?T) (addrs ?t)" using b addrs_areplace[OF sh] by simp
  have i7: "linked (leaves ?t) None"
    using l linked_links[OF links_areplace[OF sh, of key kvs'], of None] by simp
  show ?thesis unfolding bp_winv_def using i1 i2 i3 i4 i5 i7 by blast
qed

lemma leaf_remove_length: "leaf_remove kvs key = Some kvs' \<Longrightarrow> Suc (length kvs') = length kvs"
  by (induction kvs arbitrary: kvs') (auto split: if_splits)

lemma leaf_update_length: "leaf_update kvs key val = Some kvs' \<Longrightarrow> length kvs' = length kvs"
  by (induction kvs arbitrary: kvs') (auto split: if_splits)

lemma tree_remove_winv:
  assumes inv: "bp_winv ord T t"
  shows "\<exists>b T' t'. tree_remove T key = Some (b, T') \<and> bp_winv ord T' t'"
proof -
  from inv have r: "repr (heap T) t" and sh: "shape ord t" and rt: "raddr t = root T"
    by (simp_all add: bp_winv_def)
  let ?a = "fst (adescend_ub t key)" and ?kvs = "fst (snd (adescend_ub t key))"
  let ?nx = "snd (snd (adescend_ub t key))"
  note rr = remove_recursive_repr[OF r sh, of key, unfolded rt]
  show ?thesis
  proof (cases "leaf_remove ?kvs key")
    case None
    have "tree_remove T key = Some (False, T)"
      unfolding tree_remove_def rr None by simp
    then show ?thesis using inv by blast
  next
    case (Some kvs')
    let ?h = "(heap T)(?a \<mapsto> LeafN kvs' ?nx)"
    let ?t' = "areplace t key kvs'"
    let ?n = "if tsize T = 0 then 2 ^ 64 - 1 else tsize T - 1"
    have len: "length kvs' < ord"
      using leaf_remove_length[OF Some] leaf_reached_small[OF sh, of key] by simp
    have inv': "bp_winv ord (T\<lparr>heap := ?h, tsize := ?n\<rparr>) ?t'"
      using bp_winv_areplace[where key = key, OF inv len refl] .
    then have r': "repr ?h ?t'" and sh': "shape ord ?t'" and rt': "raddr ?t' = root T"
      by (simp_all add: bp_winv_def)
    have root: "\<exists>kvs nx. ?h (root T) = Some (LeafN kvs nx)
                  \<or> (\<exists>k ks cs. ?h (root T) = Some (InternalN (k # ks) cs))"
    proof (cases ?t')
      case (ALeaf a kvs nx)
      then show ?thesis using r' rt' by auto
    next
      case (ANode a ks ts)
      then show ?thesis using r' rt' sh' by (cases ks) auto
    qed
    have "tree_remove T key = Some (True, T\<lparr>heap := ?h, tsize := ?n\<rparr>)"
      unfolding tree_remove_def rr Some using root by (auto simp: Let_def)
    then show ?thesis using inv' by blast
  qed
qed

lemma tree_update_winv:
  assumes inv: "bp_winv ord T t"
  shows "\<exists>b T' t'. tree_update T key val = Some (b, T') \<and> bp_winv ord T' t'"
proof -
  from inv have r: "repr (heap T) t" and sh: "shape ord t" and rt: "raddr t = root T"
    by (simp_all add: bp_winv_def)
  let ?a = "fst (adescend_ub t key)" and ?kvs = "fst (snd (adescend_ub t key))"
  let ?nx = "snd (snd (adescend_ub t key))"
  note dr = descend_ub_repr[OF r sh, of key, unfolded rt]
  show ?thesis
  proof (cases "leaf_update ?kvs key val")
    case None
    have "tree_update T key val = Some (False, T)"
      unfolding tree_update_def using dr None by simp
    then show ?thesis using inv by blast
  next
    case (Some kvs')
    let ?h = "(heap T)(?a \<mapsto> LeafN kvs' ?nx)"
    have len: "length kvs' < ord"
      using leaf_update_length[OF Some] leaf_reached_small[OF sh, of key] by simp
    have eq: "T\<lparr>heap := ?h, tsize := tsize T\<rparr> = T\<lparr>heap := ?h\<rparr>" by simp
    have inv': "bp_winv ord (T\<lparr>heap := ?h\<rparr>) (areplace t key kvs')"
      using bp_winv_areplace[where key = key and n = "tsize T", OF inv len refl] unfolding eq .
    have "tree_update T key val = Some (True, T\<lparr>heap := ?h\<rparr>)"
      unfolding tree_update_def using dr Some by simp
    then show ?thesis using inv' by blast
  qed
qed

section \<open>The repository: proofs\<close>

subsection \<open>Reading what was written\<close>

lemma length_le_bytes [simp]: "length (le_bytes k n) = k"
  by (induction k arbitrary: n) simp_all

lemma le_nat_le_bytes: "le_nat (le_bytes k n) = n mod 256 ^ k"
proof (induction k arbitrary: n)
  case 0
  show ?case by simp
next
  case (Suc k)
  have "le_nat (le_bytes (Suc k) n) = n mod 256 + 256 * ((n div 256) mod 256 ^ k)"
    using Suc.IH[of "n div 256"] by simp
  also have "\<dots> = n mod 256 ^ Suc k"
    by (simp add: mod_mult2_eq)
  finally show ?case .
qed

lemma le_nat_bound: "le_nat s < 256 ^ length s"
proof (induction s)
  case Nil
  show ?case by simp
next
  case (Cons c s)
  have "of_char c < (256::nat)" by (rule nat_of_char_less_256)
  then have "of_char c + 256 * le_nat s < 256 + 256 * le_nat s" by (rule add_strict_right_mono)
  also have "\<dots> = 256 * Suc (le_nat s)" by simp
  also have "\<dots> \<le> 256 * 256 ^ length s"
    using Cons by (intro mult_le_mono2) simp
  finally show ?case by simp
qed

lemma read_bytes_append: "n = length a \<Longrightarrow> read_bytes n (a @ r) = Some (a, r)"
  by (simp add: read_bytes_def)

lemma read_u64_write [simp]: "read_u64 (write_u64 w @ r) = Some (w, r)"
proof -
  have "unat w < 2 ^ 64" using unsigned_less[of w, where 'a = nat] by simp
  then have "unat w mod 256 ^ 8 = unat w" by simp
  then show ?thesis
    by (simp add: read_u64_def write_u64_def read_bytes_append le_nat_le_bytes)
qed

lemma read_u32_write [simp]: "read_u32 (write_u32 w @ r) = Some (w, r)"
proof -
  have "unat w < 2 ^ 32" using unsigned_less[of w, where 'a = nat] by simp
  then have "unat w mod 256 ^ 4 = unat w" by simp
  then show ?thesis
    by (simp add: read_u32_def write_u32_def read_bytes_append le_nat_le_bytes)
qed

lemma read_string_write [simp]:
  "string_ok s \<Longrightarrow> read_string (write_string s @ r) = Some (s, r)"
proof -
  assume "string_ok s"
  then have "length s mod 256 ^ 8 = length s" by (simp add: string_ok_def)
  then show ?thesis
    by (simp add: read_string_def write_string_def read_bytes_append le_nat_le_bytes)
qed

lemma read_string_ok: "read_string s = Some (x, r) \<Longrightarrow> string_ok x"
proof -
  assume a: "read_string s = Some (x, r)"
  then obtain b r0 where b: "read_bytes 8 s = Some (b, r0)" "read_bytes (le_nat b) r0 = Some (x, r)"
    by (auto simp: read_string_def split: option.splits)
  from b(1) have "length b = 8" by (auto simp: read_bytes_def split: if_splits)
  then have "le_nat b < 256 ^ 8" using le_nat_bound[of b] by simp
  moreover from b(2) have "length x = le_nat b" by (auto simp: read_bytes_def split: if_splits)
  ultimately show ?thesis by (simp add: string_ok_def)
qed

lemma read_customer_write:
  assumes "customer_ok c"
  shows "read_customer (write_customer c @ r) = Some (c, r)"
  using assms by (simp add: read_customer_def write_customer_def customer_ok_def)

lemma read_customer_ok:
  assumes "read_customer s = Some (c, r)"
  shows "customer_ok c"
  using assms unfolding read_customer_def customer_ok_def
  by (auto simp: bind_eq_Some_conv dest!: read_string_ok)

subsection \<open>The cache mirrors the map\<close>

lemma del_key_subset: "set (del_key k es) \<subseteq> set es"
  by (auto simp: del_key_def)

lemma del_key_absent: "k \<notin> fst ` set es \<Longrightarrow> del_key k es = es"
  by (induction es) (auto simp: del_key_def)

lemma lru_absent: "lru_inv c \<Longrightarrow> lru_map c k = None \<Longrightarrow> k \<notin> fst ` set (lru_entries c)"
  using map_None_iff[of c k] by (simp add: keys_entries)

lemma lru_get_total:
  assumes inv: "lru_inv c"
  shows "\<exists>r c'. lru_get k c = Some (r, c') \<and> lru_inv c'
           \<and> set (lru_entries c') \<subseteq> set (lru_entries c)
           \<and> (case r of None \<Rightarrow> lru_map c k = None | Some v \<Rightarrow> (k, v) \<in> set (lru_entries c))"
proof (cases "lru_map c k")
  case None
  show ?thesis using lru_get_miss[OF inv None] inv None by (simp add: lru_entries_def)
next
  case (Some it)
  from lru_get_hit[OF inv Some] obtain v c' where
    h: "lru_get k c = Some (Some v, c')" "lru_inv c'" "(k, v) \<in> set (lru_entries c)"
    "lru_entries c' = (k, v) # del_key k (lru_entries c)" by blast
  have "set (lru_entries c') \<subseteq> set (lru_entries c)"
    unfolding h(4) using h(3) del_key_subset[of k "lru_entries c"] by auto
  then show ?thesis using h(1,2,3) by simp
qed

lemma lru_put_total:
  assumes inv: "lru_inv c"
  shows "\<exists>c'. lru_put k w c = Some c' \<and> lru_inv c'
           \<and> set (lru_entries c') \<subseteq> insert (k, w) (set (del_key k (lru_entries c)))
           \<and> (k, w) \<in> set (lru_entries c')"
proof (cases "lru_map c k")
  case (Some it)
  from lru_put_existing[OF inv Some, of w] show ?thesis by auto
next
  case None
  note a = del_key_absent[OF lru_absent[OF inv None]]
  show ?thesis
  proof (cases "length (lru_list c) = capacity c")
    case True
    from lru_put_new_full[OF inv None True, of w] obtain c' where
      p: "lru_put k w c = Some c'" "lru_inv c'"
      "lru_entries c' = (k, w) # butlast (lru_entries c)" by blast
    have "set (butlast (lru_entries c)) \<subseteq> set (lru_entries c)"
      by (auto dest: in_set_butlastD)
    then show ?thesis using p unfolding a by auto
  next
    case False
    from lru_put_new_room[OF inv None False, of w] show ?thesis unfolding a by auto
  qed
qed

lemma lru_evict_total:
  assumes inv: "lru_inv c"
  shows "\<exists>b c'. lru_evict k c = Some (b, c') \<and> lru_inv c'
           \<and> set (lru_entries c') \<subseteq> set (del_key k (lru_entries c))"
proof (cases "lru_map c k")
  case (Some it)
  from lru_evict_present[OF inv Some] show ?thesis by auto
next
  case None
  show ?thesis
    using lru_evict_absent[OF None] inv del_key_absent[OF lru_absent[OF inv None]]
    by (intro exI[of _ False] exI[of _ c]) simp
qed

lemma del_key_fst: "e \<in> set (del_key k es) \<Longrightarrow> fst e \<noteq> k \<and> e \<in> set es"
  by (auto simp: del_key_def)

lemma flush_fields [simp]:
  "store (snd (flush ord w r)) = store r" "cache (snd (flush ord w r)) = cache r"
  "index (snd (flush ord w r)) = index r"
  by (simp_all add: flush_def)

lemma cache_inv_put:
  assumes inv: "cache_inv r" and p: "lru_put k c (cache r) = Some ca"
    and s: "store r' = (store r)(k \<mapsto> c)" and c: "cache r' = ca"
  shows "cache_inv r'"
proof -
  from inv have li: "lru_inv (cache r)"
    and m: "\<And>e. e \<in> set (lru_entries (cache r)) \<Longrightarrow> store r (fst e) = Some (snd e)"
    by (simp_all add: cache_inv_def)
  from lru_put_total[OF li, of k c] p have
    q: "lru_inv ca" "set (lru_entries ca) \<subseteq> insert (k, c) (set (del_key k (lru_entries (cache r))))"
    by auto
  have "store r' (fst e) = Some (snd e)" if "e \<in> set (lru_entries ca)" for e
  proof (cases "e = (k, c)")
    case True
    then show ?thesis by (simp add: s)
  next
    case False
    then have "e \<in> set (del_key k (lru_entries (cache r)))" using q(2) that by auto
    then show ?thesis using del_key_fst[of e k] m[of e] by (simp add: s)
  qed
  then show ?thesis using q(1) by (simp add: cache_inv_def c)
qed

lemma cache_inv_flush: "cache_inv (snd (flush ord w r)) = cache_inv r"
  by (simp add: cache_inv_def)

lemma store_inv_flush: "store_inv (snd (flush ord w r)) = store_inv r"
  by (simp add: store_inv_def)

lemma snd_flush_cases:
  "(case flush ord w r of (Returned u, r') \<Rightarrow> Some (Returned True, r')
    | (Thrown e, r') \<Rightarrow> Some (Thrown e, r'))
     = Some (if w then Returned True
             else Thrown (RuntimeError ''Cannot open customer data file for writing''),
             snd (flush ord w r))"
  by (simp add: flush_def)

text \<open>\<^verbatim>\<open>find_by_id\<close>: with a cache that mirrors the map the call returns the entry of the map,
  and leaves the map, the index and the file as they are.\<close>

lemma find_by_id_inv:
  assumes inv: "cache_inv r"
  shows "\<exists>r'. find_by_id k r = Some (Returned (store r k), r') \<and> cache_inv r'
           \<and> store r' = store r \<and> index r' = index r \<and> data_file r' = data_file r
           \<and> (store r k \<noteq> None \<longrightarrow> lru_contains k (cache r'))"
proof -
  from inv have li: "lru_inv (cache r)"
    and m: "\<And>e. e \<in> set (lru_entries (cache r)) \<Longrightarrow> store r (fst e) = Some (snd e)"
    by (simp_all add: cache_inv_def)
  from lru_get_total[OF li, of k] obtain res ca where
    g: "lru_get k (cache r) = Some (res, ca)" "lru_inv ca"
    "set (lru_entries ca) \<subseteq> set (lru_entries (cache r))"
    "case res of None \<Rightarrow> lru_map (cache r) k = None
       | Some v \<Rightarrow> (k, v) \<in> set (lru_entries (cache r))" by blast
  have ci: "cache_inv (r\<lparr>cache := ca\<rparr>)" using g(2,3) m by (auto simp: cache_inv_def)
  show ?thesis
  proof (cases res)
    case (Some v)
    then have kv: "(k, v) \<in> set (lru_entries (cache r))" using g(4) by simp
    then have sv: "store r k = Some v" using m[of "(k, v)"] by simp
    have "k \<in> set (lru_keys ca)"
    proof -
      from lru_get_hit[OF li, of k] kv li obtain it where "lru_map (cache r) k = Some it"
        using lru_absent[OF li, of k] by (cases "lru_map (cache r) k") force+
      from lru_get_hit[OF li this] g(1) show ?thesis by (auto simp: keys_entries)
    qed
    then have "lru_contains k ca" using map_None_iff[OF g(2), of k] by (simp add: lru_contains_def)
    then show ?thesis unfolding find_by_id_def g(1) Some using ci sv by simp
  next
    case None
    show ?thesis
    proof (cases "store r k")
      case N: None
      show ?thesis unfolding find_by_id_def g(1) None N using ci by simp
    next
      case (Some c)
      from lru_put_total[OF g(2), of k c] obtain ca' where
        p: "lru_put k c ca = Some ca'" "lru_inv ca'" "(k, c) \<in> set (lru_entries ca')" by blast
      have "store r k = Some c \<Longrightarrow> (store r)(k \<mapsto> c) = store r" by (auto simp: fun_eq_iff)
      then have "cache_inv (r\<lparr>cache := ca'\<rparr>)"
        using cache_inv_put[OF ci, of k c ca' "r\<lparr>cache := ca'\<rparr>"] p(1) Some by simp
      moreover have "lru_contains k ca'"
        using map_None_iff[OF p(2), of k] p(3) by (force simp: lru_contains_def keys_entries)
      ultimately show ?thesis by (simp add: find_by_id_def g(1) None Some p(1))
    qed
  qed
qed

subsection \<open>Every call returns or throws\<close>

lemma index_inv_flush: "index_inv (snd (flush ord w r)) = index_inv r"
  by (simp add: index_inv_def)

lemma store_inv_put:
  assumes "store_inv r" and "customer_ok c" and "store r' = (store r)(customer_id c \<mapsto> c)"
  shows "store_inv r'"
  using assms by (auto simp: store_inv_def)

lemma store_inv_del:
  assumes "store_inv r" and "store r' = (store r)(k := None)"
  shows "store_inv r'"
  using assms by (auto simp: store_inv_def split: if_splits)

lemma save_total:
  assumes ci: "cache_inv r" and ii: "index_inv r"
  shows "\<exists>t ca. tree_insert 4 (index r) (sint (customer_id c)) (sint (customer_id c)) = Some t
           \<and> lru_put (customer_id c) c (cache r) = Some ca
           \<and> save ord w c r
               = Some (flush ord w
                         (r\<lparr>store := (store r)(customer_id c \<mapsto> c), index := t, cache := ca\<rparr>))
           \<and> index_inv (r\<lparr>store := (store r)(customer_id c \<mapsto> c), index := t, cache := ca\<rparr>)
           \<and> cache_inv (r\<lparr>store := (store r)(customer_id c \<mapsto> c), index := t, cache := ca\<rparr>)"
proof -
  from ii obtain t0 where w: "bp_winv 4 (index r) t0" by (auto simp: index_inv_def)
  from tree_insert_winv[OF w, of "sint (customer_id c)" "sint (customer_id c)"] obtain t t' where
    t: "tree_insert 4 (index r) (sint (customer_id c)) (sint (customer_id c)) = Some t"
    "bp_winv 4 t t'" by auto
  from ci have li: "lru_inv (cache r)" by (simp add: cache_inv_def)
  from lru_put_total[OF li, of "customer_id c" c] obtain ca where
    p: "lru_put (customer_id c) c (cache r) = Some ca" by blast
  let ?r = "r\<lparr>store := (store r)(customer_id c \<mapsto> c), index := t, cache := ca\<rparr>"
  have "cache_inv ?r" by (rule cache_inv_put[OF ci p]) simp_all
  moreover have "index_inv ?r" using t(2) by (auto simp: index_inv_def)
  moreover have "save ord w c r = Some (flush ord w ?r)" by (simp add: save_def t(1) p)
  ultimately show ?thesis using t(1) p by blast
qed

lemma repo_apply_total:
  assumes ci: "cache_inv r" and ii: "index_inv r"
  shows "\<exists>r'. repo_apply x r = Some r' \<and> cache_inv r' \<and> index_inv r'
           \<and> (op_ok x \<longrightarrow> store_inv r \<longrightarrow> store_inv r')"
proof (cases x)
  case (CallSave ord w c)
  from save_total[OF ci ii, of c ord w] obtain t ca where
    s: "save ord w c r
               = Some (flush ord w
                         (r\<lparr>store := (store r)(customer_id c \<mapsto> c), index := t, cache := ca\<rparr>))"
    "index_inv (r\<lparr>store := (store r)(customer_id c \<mapsto> c), index := t, cache := ca\<rparr>)"
    "cache_inv (r\<lparr>store := (store r)(customer_id c \<mapsto> c), index := t, cache := ca\<rparr>)"
    by blast
  let ?r = "r\<lparr>store := (store r)(customer_id c \<mapsto> c), index := t, cache := ca\<rparr>"
  have s': "store_inv (snd (flush ord w ?r))" if "customer_ok c" "store_inv r"
    unfolding store_inv_flush by (rule store_inv_put[OF that(2,1)]) simp
  have ra: "repo_apply x r = Some (snd (flush ord w ?r))" unfolding CallSave using s(1) by simp
  have c'': "cache_inv (snd (flush ord w ?r))" using s(3) by (simp add: cache_inv_flush)
  have i'': "index_inv (snd (flush ord w ?r))" using s(2) by (simp add: index_inv_flush)
  have ok: "op_ok x = customer_ok c" unfolding CallSave by simp
  show ?thesis using ra c'' i'' s' unfolding ok by blast
next
  case (CallUpdate ord w c)
  show ?thesis
  proof (cases "store r (customer_id c) = None")
    case True
    then show ?thesis unfolding CallUpdate using ci ii by (simp add: update_def)
  next
    case False
    from ii obtain t0 where w0: "bp_winv 4 (index r) t0" by (auto simp: index_inv_def)
    from tree_update_winv[OF w0, of "sint (customer_id c)" "sint (customer_id c)"]
    obtain b t t' where
      t: "tree_update (index r) (sint (customer_id c)) (sint (customer_id c)) = Some (b, t)"
      "bp_winv 4 t t'" by auto
    from ci have li: "lru_inv (cache r)" by (simp add: cache_inv_def)
    from lru_put_total[OF li, of "customer_id c" c] obtain ca where
      p: "lru_put (customer_id c) c (cache r) = Some ca" by blast
    let ?r = "r\<lparr>store := (store r)(customer_id c \<mapsto> c), index := t, cache := ca\<rparr>"
    have c': "cache_inv ?r" by (rule cache_inv_put[OF ci p]) simp_all
    have i': "index_inv ?r" using t(2) by (auto simp: index_inv_def)
    have s': "store_inv (snd (flush ord w ?r))" if "customer_ok c" "store_inv r"
      unfolding store_inv_flush by (rule store_inv_put[OF that(2,1)]) simp
    have ra: "repo_apply x r = Some (snd (flush ord w ?r))"
      unfolding CallUpdate using False by (auto simp: update_def t(1) p snd_flush_cases)
    have c'': "cache_inv (snd (flush ord w ?r))" using c' by (simp add: cache_inv_flush)
    have i'': "index_inv (snd (flush ord w ?r))" using i' by (simp add: index_inv_flush)
    have ok: "op_ok x = customer_ok c" unfolding CallUpdate by simp
    show ?thesis using ra c'' i'' s' unfolding ok by blast
  qed
next
  case (CallRemove ord w k)
  show ?thesis
  proof (cases "store r k = None")
    case True
    then show ?thesis unfolding CallRemove using ci ii by (simp add: remove_def)
  next
    case False
    from ii obtain t0 where w0: "bp_winv 4 (index r) t0" by (auto simp: index_inv_def)
    from tree_remove_winv[OF w0, of "sint k"]
    obtain b t t' where
      t: "tree_remove (index r) (sint k) = Some (b, t)" "bp_winv 4 t t'" by auto
    from ci have li: "lru_inv (cache r)"
      and m: "\<And>e. e \<in> set (lru_entries (cache r)) \<Longrightarrow> store r (fst e) = Some (snd e)"
      by (simp_all add: cache_inv_def)
    from lru_evict_total[OF li, of k] obtain b' ca where
      p: "lru_evict k (cache r) = Some (b', ca)" "lru_inv ca"
      "set (lru_entries ca) \<subseteq> set (del_key k (lru_entries (cache r)))" by blast
    let ?r = "r\<lparr>store := (store r)(k := None), index := t, cache := ca\<rparr>"
    have "((store r)(k := None)) (fst e) = Some (snd e)" if "e \<in> set (lru_entries ca)" for e
      using del_key_fst[of e k "lru_entries (cache r)"] p(3) that m[of e] by auto
    then have c': "cache_inv ?r" using p(2) by (simp add: cache_inv_def)
    have i': "index_inv ?r" using t(2) by (auto simp: index_inv_def)
    have s': "store_inv (snd (flush ord w ?r))" if "store_inv r"
      unfolding store_inv_flush by (rule store_inv_del[OF that]) simp
    have ra: "repo_apply x r = Some (snd (flush ord w ?r))"
      unfolding CallRemove using False by (auto simp: remove_def t(1) p(1) snd_flush_cases)
    have c'': "cache_inv (snd (flush ord w ?r))" using c' by (simp add: cache_inv_flush)
    have i'': "index_inv (snd (flush ord w ?r))" using i' by (simp add: index_inv_flush)
    show ?thesis using ra c'' i'' s' by blast
  qed
next
  case (CallFindById k)
  from find_by_id_inv[OF ci, of k] obtain r' where
    f: "find_by_id k r = Some (Returned (store r k), r')" "cache_inv r'" "store r' = store r"
    "index r' = index r" by blast
  have "index_inv r'" using ii f(4) by (simp add: index_inv_def)
  moreover have "store_inv r'" if "store_inv r" using that f(3) by (simp add: store_inv_def)
  ultimately show ?thesis unfolding CallFindById using f(1,2) by simp
qed

lemma repo_run_total:
  "cache_inv r \<Longrightarrow> index_inv r
   \<Longrightarrow> \<exists>r'. repo_run xs r = Some r' \<and> cache_inv r' \<and> index_inv r'
          \<and> (list_all op_ok xs \<longrightarrow> store_inv r \<longrightarrow> store_inv r')"
proof (induction xs arbitrary: r)
  case Nil
  then show ?case by simp
next
  case (Cons x xs)
  from repo_apply_total[OF Cons.prems, of x] obtain r1 where
    1: "repo_apply x r = Some r1" "cache_inv r1" "index_inv r1"
    "op_ok x \<longrightarrow> store_inv r \<longrightarrow> store_inv r1" by blast
  from Cons.IH[OF 1(2,3)] obtain r' where
    2: "repo_run xs r1 = Some r'" "cache_inv r'" "index_inv r'"
    "list_all op_ok xs \<longrightarrow> store_inv r1 \<longrightarrow> store_inv r'" by blast
  show ?case using 1(1,4) 2 by simp
qed

text \<open>Loading: the records read are entered under their ids; the cache stays empty.\<close>

lemma load_records_inv:
  "load_records n s r = Some r' \<Longrightarrow> index_inv r \<Longrightarrow> store_inv r
   \<Longrightarrow> cache r' = cache r \<and> data_file r' = data_file r \<and> index_inv r' \<and> store_inv r'"
proof (induction n arbitrary: s r)
  case 0
  then show ?case by simp
next
  case (Suc n)
  from Suc.prems(1) obtain c s' t where
    a: "read_customer s = Some (c, s')"
    "tree_insert 4 (index r) (sint (customer_id c)) (sint (customer_id c)) = Some t"
    "load_records n s' (r\<lparr>store := (store r)(customer_id c \<mapsto> c), index := t\<rparr>) = Some r'"
    by (auto split: option.splits)
  let ?r = "r\<lparr>store := (store r)(customer_id c \<mapsto> c), index := t\<rparr>"
  from Suc.prems(2) obtain t0 where w0: "bp_winv 4 (index r) t0" by (auto simp: index_inv_def)
  from tree_insert_winv[OF w0, of "sint (customer_id c)" "sint (customer_id c)"] a(2)
  have i: "index_inv ?r" by (auto simp: index_inv_def)
  have s: "store_inv ?r"
    by (rule store_inv_put[OF Suc.prems(3) read_customer_ok[OF a(1)]]) simp
  from Suc.IH[OF a(3) i s] show ?case by simp
qed

lemma repo_new_inv:
  assumes "CustomerRepository_new f = Some (Inr r0)"
  shows "cache_inv r0 \<and> index_inv r0 \<and> store_inv r0 \<and> data_file r0 = f
       \<and> lru_list (cache r0) = [] \<and> capacity (cache r0) = 256"
proof -
  obtain T0 :: "(int, int) BPlusTree" where T0: "BPlusTree_new 4 = Inr T0"
    by (simp add: BPlusTree_new_def)
  obtain c0 :: "(int64, Customer) LRUCache" where c0: "LRUCache_new 256 = Inr c0"
    by (simp add: LRUCache_new_def)
  let ?r = "\<lparr>data_file = f, store = Map.empty, index = T0, cache = c0\<rparr>"
  from assms have l: "load_all ?r = Some r0"
    unfolding CustomerRepository_new_def T0 c0 by auto
  have i: "index_inv ?r" using bp_inv_winv[OF bp_inv_new[OF T0]] by (auto simp: index_inv_def)
  have s: "store_inv ?r" by (simp add: store_inv_def)
  note n = lru_new_inv[OF c0]
  have "cache r0 = c0 \<and> data_file r0 = f \<and> index_inv r0 \<and> store_inv r0"
  proof (cases f)
    case None
    with l i s show ?thesis by (auto simp: load_all_def)
  next
    case (Some bytes)
    with l have "load_records (le_nat (take 8 bytes)) (drop 8 bytes) ?r = Some r0"
      by (simp add: load_all_def)
    from load_records_inv[OF this i s] show ?thesis by simp
  qed
  then show ?thesis using n by (simp add: cache_inv_def lru_entries_def)
qed

subsection \<open>Writing the map and loading it again\<close>

lemma load_records_written:
  "list_all customer_ok cs \<Longrightarrow> index_inv r
   \<Longrightarrow> \<exists>r'. load_records (length cs) (concat (map write_customer cs) @ rest) r = Some r'
          \<and> store r' = fold (\<lambda>c m. m(customer_id c \<mapsto> c)) cs (store r)
          \<and> cache r' = cache r \<and> data_file r' = data_file r \<and> index_inv r'"
proof (induction cs arbitrary: r)
  case Nil
  then show ?case by simp
next
  case (Cons c cs)
  from Cons.prems(1) have ok: "customer_ok c" "list_all customer_ok cs" by simp_all
  from Cons.prems(2) obtain t0 where w0: "bp_winv 4 (index r) t0" by (auto simp: index_inv_def)
  from tree_insert_winv[OF w0, of "sint (customer_id c)" "sint (customer_id c)"] obtain t t' where
    t: "tree_insert 4 (index r) (sint (customer_id c)) (sint (customer_id c)) = Some t"
    "bp_winv 4 t t'" by auto
  let ?r = "r\<lparr>store := (store r)(customer_id c \<mapsto> c), index := t\<rparr>"
  have i: "index_inv ?r" using t(2) by (auto simp: index_inv_def)
  from Cons.IH[OF ok(2) i] obtain r' where
    r': "load_records (length cs) (concat (map write_customer cs) @ rest) ?r = Some r'"
    "store r' = fold (\<lambda>c m. m(customer_id c \<mapsto> c)) cs (store ?r)"
    "cache r' = cache ?r" "data_file r' = data_file ?r" "index_inv r'" by blast
  have rd: "read_customer (concat (map write_customer (c # cs)) @ rest)
      = Some (c, concat (map write_customer cs) @ rest)"
    using read_customer_write[OF ok(1), of "concat (map write_customer cs) @ rest"] by simp
  have 1: "load_records (length (c # cs)) (concat (map write_customer (c # cs)) @ rest) r = Some r'"
    using r'(1) by (simp only: length_Cons load_records.simps rd t(1) option.case prod.case)
  have 2: "store r' = fold (\<lambda>c m. m(customer_id c \<mapsto> c)) (c # cs) (store r)"
    unfolding r'(2) by simp
  have 3: "cache r' = cache r" "data_file r' = data_file r" using r'(3,4) by simp_all
  show ?case using 1 2 3 r'(5) by blast
qed

lemma fold_put_ids:
  "\<forall>k\<in>set ks. customer_id (g k) = k
   \<Longrightarrow> fold (\<lambda>c m. m(customer_id c \<mapsto> c)) (map g ks) m0
       = (\<lambda>k. if k \<in> set ks then Some (g k) else m0 k)"
proof (induction ks arbitrary: m0)
  case Nil
  show ?case by simp
next
  case (Cons k ks)
  have "fold (\<lambda>c m. m(customer_id c \<mapsto> c)) (map g (k # ks)) m0
      = fold (\<lambda>c m. m(customer_id c \<mapsto> c)) (map g ks) (m0(k \<mapsto> g k))"
    using Cons.prems by simp
  also have "\<dots> = (\<lambda>j. if j \<in> set ks then Some (g j) else (m0(k \<mapsto> g k)) j)"
    by (rule Cons.IH) (use Cons.prems in simp)
  also have "\<dots> = (\<lambda>j. if j \<in> set (k # ks) then Some (g j) else m0 j)"
    by (auto simp: fun_eq_iff)
  finally show ?case .
qed

text \<open>The file \<^verbatim>\<open>flush\<close> writes, loaded into a new repository, gives the map back.\<close>

lemma flush_load:
  assumes si: "store_inv r" and io: "iteration_order (store r) ord"
  shows "\<exists>r2. CustomerRepository_new (data_file (snd (flush ord True r))) = Some (Inr r2)
           \<and> store r2 = store r"
proof -
  let ?g = "\<lambda>k. the (store r k)"
  let ?cs = "map ?g ord"
  from io have d: "distinct ord" and s: "set ord = dom (store r)" and l: "length ord < 2 ^ 64"
    by (simp_all add: iteration_order_def)
  have g: "store r k = Some (?g k)" if "k \<in> set ord" for k using that s by auto
  have ids: "\<forall>k\<in>set ord. customer_id (?g k) = k" using g si by (auto simp: store_inv_def)
  have oks: "list_all customer_ok ?cs"
    using g si by (auto simp: store_inv_def list_all_iff)
  have "(case store r k of None \<Rightarrow> [] | Some c \<Rightarrow> write_customer c) = write_customer (?g k)"
    if "k \<in> set ord" for k using that s by (auto simp: domIff)
  then have "map (\<lambda>k. case store r k of None \<Rightarrow> [] | Some c \<Rightarrow> write_customer c) ord
      = map (\<lambda>k. write_customer (?g k)) ord"
    by (intro map_cong refl)
  then have me: "map write_customer ?cs
      = map (\<lambda>k. case store r k of None \<Rightarrow> [] | Some c \<Rightarrow> write_customer c) ord"
    by (simp add: comp_def)
  have fl: "data_file (snd (flush ord True r))
      = Some (le_bytes 8 (length ?cs) @ concat (map write_customer ?cs))"
    unfolding me by (simp add: flush_def)
  obtain T0 :: "(int, int) BPlusTree" where T0: "BPlusTree_new 4 = Inr T0"
    by (simp add: BPlusTree_new_def)
  obtain c0 :: "(int64, Customer) LRUCache" where c0: "LRUCache_new 256 = Inr c0"
    by (simp add: LRUCache_new_def)
  let ?f = "le_bytes 8 (length ?cs) @ concat (map write_customer ?cs)"
  let ?r = "\<lparr>data_file = Some ?f, store = Map.empty, index = T0, cache = c0\<rparr>"
  have i: "index_inv ?r" using bp_inv_winv[OF bp_inv_new[OF T0]] by (auto simp: index_inv_def)
  from load_records_written[OF oks i, of "[]"] obtain r2 where
    r2: "load_records (length ?cs) (concat (map write_customer ?cs)) ?r = Some r2"
    "store r2 = fold (\<lambda>c m. m(customer_id c \<mapsto> c)) ?cs Map.empty" by auto
  have cnt: "le_nat (le_bytes 8 (length ord)) = length ord"
    using l by (simp add: le_nat_le_bytes)
  have "load_all ?r = Some r2"
    using r2(1) by (simp add: load_all_def cnt)
  then have "CustomerRepository_new (Some ?f) = Some (Inr r2)"
    by (simp add: CustomerRepository_new_def T0 c0)
  moreover have "store r2 = store r"
  proof
    fix k
    show "store r2 k = store r k"
      unfolding r2(2) fold_put_ids[OF ids] using g[of k] s by (auto simp: domIff)
  qed
  ultimately show ?thesis unfolding fl by blast
qed

lemma repo_reach:
  assumes "CustomerRepository_new f = Some (Inr r0)"
  shows "\<exists>r. repo_run xs r0 = Some r \<and> cache_inv r \<and> index_inv r
           \<and> (list_all op_ok xs \<longrightarrow> store_inv r)"
  using repo_new_inv[OF assms] repo_run_total[of r0 xs] by blast

text \<open>Claim C1. A repository is constructed over a data directory and any sequence of calls
  is made on it. Then \<^verbatim>\<open>save\<close> of a customer, with a writable file, returns; a new repository
  constructed from the file that \<^verbatim>\<open>save\<close> has written holds the same map as the old one, and
  its \<^verbatim>\<open>find_by_id\<close> of the id returns the customer saved, equal in every field.
  \<^verbatim>\<open>read_customer\<close> reads back what \<^verbatim>\<open>write_customer\<close> has written, whatever follows it. The
  strings of the customers passed in have lengths that a \<^verbatim>\<open>std::string\<close> can have, and \<^verbatim>\<open>ord\<close> is
  the order in which \<^verbatim>\<open>flush\<close> iterates over the map.\<close>

theorem C1_persistence_round_trip:
  assumes "CustomerRepository_new f = Some (Inr r0)" and "list_all op_ok xs"
    and "customer_ok c"
  shows "\<exists>r. repo_run xs r0 = Some r
      \<and> (iteration_order ((store r)(customer_id c \<mapsto> c)) ord \<longrightarrow>
           (\<exists>r1 r2 r3. save ord True c r = Some (Returned (), r1)
              \<and> CustomerRepository_new (data_file r1) = Some (Inr r2)
              \<and> store r2 = store r1
              \<and> find_by_id (customer_id c) r2 = Some (Returned (Some c), r3)))
      \<and> (\<forall>rest. read_customer (write_customer c @ rest) = Some (c, rest))"
proof -
  from repo_reach[OF assms(1), of xs] assms(2) obtain r where
    r: "repo_run xs r0 = Some r" "cache_inv r" "index_inv r" "store_inv r" by blast
  have "\<exists>r1 r2 r3. save ord True c r = Some (Returned (), r1)
              \<and> CustomerRepository_new (data_file r1) = Some (Inr r2)
              \<and> store r2 = store r1
              \<and> find_by_id (customer_id c) r2 = Some (Returned (Some c), r3)"
    if io: "iteration_order ((store r)(customer_id c \<mapsto> c)) ord"
  proof -
    from save_total[OF r(2,3), of c ord True] obtain t ca where
      s: "save ord True c r
               = Some (flush ord True
                         (r\<lparr>store := (store r)(customer_id c \<mapsto> c), index := t, cache := ca\<rparr>))"
      by blast
    let ?r = "r\<lparr>store := (store r)(customer_id c \<mapsto> c), index := t, cache := ca\<rparr>"
    let ?r1 = "snd (flush ord True ?r)"
    have s1: "save ord True c r = Some (Returned (), ?r1)" unfolding s by (simp add: flush_def)
    have si: "store_inv ?r" by (rule store_inv_put[OF r(4) assms(3)]) simp
    have io': "iteration_order (store ?r) ord" using io by simp
    from flush_load[OF si io'] obtain r2 where
      r2: "CustomerRepository_new (data_file ?r1) = Some (Inr r2)" "store r2 = store ?r" by blast
    from repo_new_inv[OF r2(1)] have "cache_inv r2" by simp
    from find_by_id_inv[OF this, of "customer_id c"] obtain r3 where
      "find_by_id (customer_id c) r2 = Some (Returned (store r2 (customer_id c)), r3)" by blast
    moreover have "store r2 (customer_id c) = Some c" unfolding r2(2) by simp
    moreover have "store r2 = store ?r1" unfolding r2(2) by simp
    ultimately show ?thesis using s1 r2(1) by auto
  qed
  then show ?thesis using r(1) read_customer_write[OF assms(3)] by blast
qed

theorem C1_persistence_round_trip_witness:
  "CustomerRepository_new None = Some (Inr empty_repository)
   \<and> list_all op_ok [] \<and> customer_ok example_customer
   \<and> (\<exists>r r1 r2 r3. repo_run [] empty_repository = Some r
        \<and> iteration_order ((store r)(7 \<mapsto> example_customer)) [7]
        \<and> save [7] True example_customer r = Some (Returned (), r1)
        \<and> CustomerRepository_new (data_file r1) = Some (Inr r2)
        \<and> store r2 = store r1
        \<and> find_by_id 7 r2 = Some (Returned (Some example_customer), r3))"
proof -
  have n: "CustomerRepository_new None = Some (Inr empty_repository)"
    by (simp add: CustomerRepository_new_def BPlusTree_new_def LRUCache_new_def load_all_def
        empty_repository_def)
  have ok: "customer_ok example_customer"
    by (simp add: customer_ok_def string_ok_def example_customer_def)
  have id: "customer_id example_customer = 7" by (simp add: example_customer_def)
  have io: "iteration_order ((store empty_repository)(7 \<mapsto> example_customer)) [7]"
    by (simp add: iteration_order_def empty_repository_def)
  from C1_persistence_round_trip[of None empty_repository "[]" example_customer "[7]"]
  show ?thesis using n ok io unfolding id by auto
qed

text \<open>Claim C8. In every state a repository reaches, from its construction over any data
  directory by any sequence of calls, \<^verbatim>\<open>find_by_id\<close> returns without throwing, and returns the
  entry of the authoritative map: nothing if the id is absent, the stored record if it is
  present, also when the cache does not hold it; then the cache holds it afterwards. The
  call leaves the map, the index and the file as they are.\<close>

theorem C8_find_by_id:
  assumes "CustomerRepository_new f = Some (Inr r0)"
  shows "\<exists>r r'. repo_run xs r0 = Some r
      \<and> find_by_id k r = Some (Returned (store r k), r')
      \<and> store r' = store r \<and> index r' = index r \<and> data_file r' = data_file r
      \<and> (store r k \<noteq> None \<longrightarrow> lru_contains k (cache r'))"
proof -
  from repo_reach[OF assms, of xs] obtain r where
    r: "repo_run xs r0 = Some r" "cache_inv r" by blast
  from find_by_id_inv[OF r(2), of k] r(1) show ?thesis by blast
qed

theorem C8_find_by_id_witness:
  "CustomerRepository_new None = Some (Inr empty_repository)
   \<and> (\<exists>r r'. repo_run [CallSave [7] True example_customer, CallRemove [] True 7,
                        CallSave [7] True example_customer] empty_repository = Some r
        \<and> find_by_id 7 r = Some (Returned (store r 7), r')
        \<and> store r' = store r \<and> index r' = index r \<and> data_file r' = data_file r)"
proof -
  have n: "CustomerRepository_new None = Some (Inr empty_repository)"
    by (simp add: CustomerRepository_new_def BPlusTree_new_def LRUCache_new_def load_all_def
        empty_repository_def)
  from C8_find_by_id[OF n, of "[CallSave [7] True example_customer, CallRemove [] True 7,
                        CallSave [7] True example_customer]" 7]
  show ?thesis using n by blast
qed

text \<open>Claim C9, at a failing input. On a repository constructed without a data file, \<^verbatim>\<open>save\<close>
  is called twice with the same customer. The map holds the customer once, under its id; the
  index holds the id twice and has size 2; \<^verbatim>\<open>find_range\<close> returns the customer twice. After
  a \<^verbatim>\<open>remove\<close> of the id the map is empty and the index still holds the id once.\<close>

theorem C9_double_save:
  "CustomerRepository_new None = Some (Inr empty_repository)
   \<and> map_option
        (\<lambda>r. (store r 7, tsize (index r), tree_for_each (index r), find_range 7 7 r))
        (repo_run [CallSave [7] True example_customer, CallSave [7] True example_customer]
           empty_repository)
      = Some (Some example_customer, 2, Some [(7, 7), (7, 7)],
              Some [example_customer, example_customer])
   \<and> map_option
        (\<lambda>r. (store r 7, tsize (index r), tree_for_each (index r), find_range 7 7 r))
        (repo_run [CallSave [7] True example_customer, CallSave [7] True example_customer,
                   CallRemove [] True 7]
           empty_repository)
      = Some (None, 1, Some [(7, 7)], Some [])"
  by (simp add: CustomerRepository_new_def BPlusTree_new_def LRUCache_new_def load_all_def
      empty_repository_def example_customer_def save_def remove_def flush_def lru_defs
      tree_insert_def insert_recursive.simps tree_range_def descend_lb.simps range_walk.simps
      tree_remove_def remove_recursive.simps
      tree_for_each_def descend_left.simps chain_walk.simps split_leaf_def split_internal_def
      find_range_def Let_def)

section \<open>Construction parameters\<close>

text \<open>Claim C7, as stated, fails for the tree: its constructor has no check of \<^verbatim>\<open>Order\<close>, so
  with \<^verbatim>\<open>Order = 2\<close> (below 3) it returns an empty tree instead of raising.\<close>

theorem C7_config_counterexample:
  "(BPlusTree_new 2 :: error + (int, int) BPlusTree)
     = Inr \<lparr>heap = [0 \<mapsto> LeafN [] None], root = 0, tsize = 0, next_addr = 1\<rparr>
   \<and> \<not> isl (BPlusTree_new 2 :: error + (int, int) BPlusTree)"
  by (simp add: BPlusTree_new_def)

text \<open>Claim C7, amended. An \<^verbatim>\<open>LRUCache\<close> of capacity 0 and a \<^verbatim>\<open>SnowflakeGenerator\<close> with a
  worker id below 0 or above \<^const>\<open>MAX_WORKER\<close> raise \<^verbatim>\<open>invalid_argument\<close> in the
  constructor, and a parameter that is accepted is stored as given, neither clamped nor
  replaced. The constructor of \<^verbatim>\<open>BPlusTree\<close> does not check \<^verbatim>\<open>Order\<close>: for every value it
  builds the empty tree, one empty leaf.\<close>

theorem C7_config:
  "(LRUCache_new 0 :: error + ('k, 'v) LRUCache) = Inl (InvalidArgument ''LRU capacity must be > 0'')
   \<and> (0 < cap \<longrightarrow> (\<exists>c :: ('k, 'v) LRUCache. LRUCache_new cap = Inr c \<and> capacity c = cap))
   \<and> (word_sless wid 0 \<or> word_sless MAX_WORKER wid
        \<longrightarrow> SnowflakeGenerator_new wid = Inl (InvalidArgument ''Worker ID out of range [0, 1023]''))
   \<and> (word_sle 0 wid \<and> word_sle wid MAX_WORKER
        \<longrightarrow> (\<exists>g. SnowflakeGenerator_new wid = Inr g \<and> sg_worker_id g = wid))
   \<and> (BPlusTree_new ord :: error + ('a, 'b) BPlusTree)
       = Inr \<lparr>heap = [0 \<mapsto> LeafN [] None], root = 0, tsize = 0, next_addr = 1\<rparr>"
  by (auto simp add: LRUCache_new_def SnowflakeGenerator_new_def BPlusTree_new_def
      word_sle_eq word_sless_alt)

theorem C7_config_witness:
  "(\<exists>c :: (int, int) LRUCache. LRUCache_new 3 = Inr c \<and> capacity c = 3)
   \<and> SnowflakeGenerator_new 1024 = Inl (InvalidArgument ''Worker ID out of range [0, 1023]'')
   \<and> SnowflakeGenerator_new (- 1) = Inl (InvalidArgument ''Worker ID out of range [0, 1023]'')
   \<and> (\<exists>g. SnowflakeGenerator_new 42 = Inr g \<and> sg_worker_id g = 42)"
  using C7_config[of 3 1024, where 'k = int and 'v = int and 'a = int and 'b = int]
    C7_config[of 3 "- 1", where 'k = int and 'v = int and 'a = int and 'b = int]
    C7_config[of 3 42, where 'k = int and 'v = int and 'a = int and 'b = int]
  by (simp add: sf_consts word_sle_eq word_sless_alt)

end
